(* ===== verification/Dubu_Prelude.thy ===== *)
theory Dubu_Prelude
  imports Main "HOL-Library.Word"
begin

text \<open>
  Shared ground of the development: the fixed-width integer types of
  \<^verbatim>\<open>DUBUFrameWork/Types.h\<close>, the faults that end an operation of the model, the
  sequencing of operations that may fault, and the generic lemmas on lists,
  words and 32-bit sequence windows that the component theories use.
\<close>

unbundle bit_operations_syntax

section \<open>Types\<close>

type_synonym u8 = "8 word"
type_synonym u16 = "16 word"
type_synonym u32 = "32 word"
type_synonym u64 = "64 word"
type_synonym byte = "8 word"
type_synonym bytes = "8 word list"
type_synonym ptr = nat

section \<open>Faults and sequencing\<close>

text \<open>
  Every operation that can leave the defined behaviour of C++ (an index outside
  a \<^verbatim>\<open>std::vector\<close>, an overlong \<^verbatim>\<open>memcpy\<close>, a call of an empty
  \<^verbatim>\<open>std::function\<close>, a failed \<^verbatim>\<open>assert\<close>) returns \<open>Inl\<close> of one of these.
\<close>

datatype fault =
    OutOfRange
  | BufferOverrun
  | NullPointer
  | BadFunctionCall
  | DivideByZero
  | AssertFailed
  | ProcessExit
  | LoopBound

type_synonym 'a result = "fault + 'a"

definition andThen :: "'a result \<Rightarrow> ('a \<Rightarrow> 'b result) \<Rightarrow> 'b result" where
  "andThen m f = (case m of Inl e \<Rightarrow> Inl e | Inr x \<Rightarrow> f x)"

lemma andThen_Inl [simp]: "andThen (Inl e) f = Inl e"
  by (simp add: andThen_def)

lemma andThen_Inr [simp]: "andThen (Inr x) f = f x"
  by (simp add: andThen_def)

lemma andThen_eq_Inr: "andThen m f = Inr y \<longleftrightarrow> (\<exists>x. m = Inr x \<and> f x = Inr y)"
  by (cases m) auto

lemma andThen_InrE [elim!]:
  assumes "andThen m f = Inr y"
  obtains x where "m = Inr x" and "f x = Inr y"
  using assms by (auto simp: andThen_eq_Inr)

lemma andThen_cong [fundef_cong]:
  "m = m' \<Longrightarrow> (\<And>x. m' = Inr x \<Longrightarrow> f x = g x) \<Longrightarrow> andThen m f = andThen m' g"
  by (cases m') auto

lemma andThen_total: "\<exists>x. m = Inr x \<Longrightarrow> (\<And>x. \<exists>y. f x = Inr y) \<Longrightarrow> \<exists>y. andThen m f = Inr y"
  by (auto simp del: split_paired_Ex)

section \<open>Collections of facts\<close>

named_theorems frame_simps \<open>what an operation leaves unchanged\<close>
named_theorems pool_simps \<open>effects of the buffer pools\<close>
named_theorems wire_simps \<open>layout of packets on the wire\<close>

section \<open>Lists\<close>

lemma last_butlast_set: "xs \<noteq> [] \<Longrightarrow> set xs = insert (last xs) (set (butlast xs))"
  by (induction xs) auto

lemma distinct_butlast_last: "distinct xs \<Longrightarrow> xs \<noteq> [] \<Longrightarrow> last xs \<notin> set (butlast xs)"
  by (induction xs) (auto dest: in_set_butlastD)

lemma nth_list_update_if:
  "xs[i := x] ! j = (if i = j \<and> i < length xs then x else xs ! j)"
  by (cases "i < length xs") (auto simp: nth_list_update list_update_beyond)

section \<open>Bits of words\<close>

lemma byte_bit_beyond [simp]: "8 \<le> n \<Longrightarrow> \<not> bit (a :: u8) n"
  by (auto dest: bit_imp_le_length)

lemma xor_right_cancel: "a XOR c = b XOR c \<longleftrightarrow> a = (b :: 'a::len word)"
  by (auto simp: bit_eq_iff bit_simps)

lemma xor_left_cancel: "c XOR a = c XOR b \<longleftrightarrow> a = (b :: 'a::len word)"
  by (auto simp: bit_eq_iff bit_simps)

lemma ucast_byte_inj: "(ucast (a :: u8) :: u32) = ucast b \<Longrightarrow> a = b"
proof (rule bit_word_eqI)
  fix n assume eq: "(ucast a :: u32) = ucast b" and n: "n < LENGTH(8)"
  have "bit (ucast a :: u32) n = bit (ucast b :: u32) n" using eq by simp
  with n show "bit a n = bit b n" by (simp add: bit_simps)
qed

lemma and_single_bit: "n < LENGTH('a) \<Longrightarrow> (x :: 'a::len word) AND push_bit n 1 = push_bit n 1 \<longleftrightarrow> bit x n"
  using bit_eq_iff [of "x AND push_bit n 1" "push_bit n 1"] by (auto simp: bit_simps)

section \<open>Sequence windows\<close>

text \<open>
  Sequence numbers are \<^verbatim>\<open>Uint32\<close> and compared by wrapping subtraction; slots are
  indexed by the sequence number modulo \<open>DEFAULT_WINDOW_COUNT = 64\<close>. Since 64
  divides \<open>2 ^ 32\<close>, the slot of a number survives the wrap-around.
\<close>

definition slot :: "u32 \<Rightarrow> nat" where
  "slot s = unat s mod 64"

lemma slot_less [simp]: "slot s < 64"
  by (simp add: slot_def)

lemma unat_add_u32: "unat (a + b :: u32) = (unat a + unat b) mod 4294967296"
  by (simp add: unat_word_ariths)

lemma unat_diff_u32: "unat (a - b :: u32) = (unat a + 4294967296 - unat b) mod 4294967296"
proof -
  have "unat b < 2 ^ LENGTH(32)" by (rule unsigned_less)
  moreover have "unat a < 2 ^ LENGTH(32)" by (rule unsigned_less)
  ultimately show ?thesis by (auto simp: unat_sub_if' mod_if)
qed

lemma u32_eq_iff_diff: "(a :: u32) = b + (a - b)"
  by simp

lemma slot_add: "slot (r + d) = (unat r + unat d) mod 64"
proof -
  have "(unat r + unat d) mod 4294967296 mod 64 = (unat r + unat d) mod (64::nat)"
    by (rule mod_mod_cancel) simp
  then show ?thesis by (simp add: slot_def unat_add_u32)
qed

lemma mod_offset_eq:
  assumes "(r + d) mod m = (r + e) mod m" and "d < m" and "e < (m::nat)"
  shows "d = e"
  using assms
proof (induction d e rule: linorder_wlog)
  case (le d e)
  then have "m dvd e - d"
    using mod_eq_dvd_iff_nat [of "r + d" "r + e" m] by (simp add: eq_commute)
  moreover have "e - d < m" using le by simp
  ultimately show ?case using le by (auto dest: nat_dvd_not_less)
qed simp

lemma slot_inj_offset:
  assumes "unat d < 64" and "unat e < 64" and "slot (r + d) = slot (r + e)"
  shows "d = e"
proof -
  have "(unat r + unat d) mod 64 = (unat r + unat e) mod 64"
    using assms(3) by (simp add: slot_add)
  then have "unat d = unat e" using assms(1,2) by (rule mod_offset_eq)
  then show ?thesis by (rule word_unat_eq_iff [THEN iffD2])
qed

lemma unat_inc: "unat (a :: u32) < 4294967295 \<Longrightarrow> unat (a + 1) = unat a + 1"
  by (simp add: unat_add_u32)

lemma unat_less_u32: "unat (a :: u32) < 4294967296"
  using unsigned_less [of a] by simp

lemma unat_diff_ge: "unat s \<le> unat (q :: u32) \<Longrightarrow> unat (q - s) = unat q - unat s"
  by (simp add: unat_sub_if')

text \<open>Two numbers of one window share a slot only if they are equal.\<close>

lemma window_slot_inj:
  assumes "slot a = slot b" and "unat s \<le> unat a" and "unat a < unat s + 64"
    and "unat s \<le> unat b" and "unat b < unat s + 64"
  shows "a = b"
proof -
  have "(unat s + (unat a - unat s)) mod 64 = (unat s + (unat b - unat s)) mod 64"
    using assms by (simp add: slot_def)
  then have "unat a - unat s = unat b - unat s"
    by (rule mod_offset_eq) (use assms in linarith)+
  then have "unat a = unat b" using assms(2,4) by linarith
  then show ?thesis by (rule word_unat_eq_iff [THEN iffD2])
qed

text \<open>Numbers near a window start \<open>r\<close>, compared by their distance from it.\<close>

lemma unat_pred_offset: "1 \<le> unat (q - r :: u32) \<Longrightarrow> unat (q - (r + 1)) = unat (q - r) - 1"
proof -
  assume "1 \<le> unat (q - r)"
  then have "(1 :: u32) \<le> q - r" by (simp add: word_le_nat_alt)
  then have "unat (q - r - 1) = unat (q - r) - unat (1 :: u32)" by (simp add: word_le_nat_alt unat_diff_ge)
  then show ?thesis by (simp add: algebra_simps)
qed

lemma offset_eq_iff: "unat (q - r) = unat (p - r) \<longleftrightarrow> q = (p :: u32)"
  by (metis diff_add_cancel word_unat_eq_iff)

lemma slot_inj_near:
  assumes "slot a = slot b" "unat (a - r) < 64" "unat (b - r) < 64"
  shows "a = (b :: u32)"
  using slot_inj_offset [of "a - r" "b - r" r] assms by simp

lemma offset_ahead:
  assumes "unat (l :: u32) < 64" "unat d < 64"
  shows "d - l < 64 \<longleftrightarrow> unat l \<le> unat d"
  using assms by (auto simp: word_less_nat_alt unat_sub_if')

lemma offset_two:
  assumes "\<not> r - seq < (64 :: u32)" "seq \<noteq> r + 1"
  shows "2 \<le> unat (seq - r)"
proof -
  have "seq - r \<noteq> 0" using assms(1) by auto
  moreover have "seq - r \<noteq> 1" using assms(2) by (metis diff_add_cancel add.commute)
  ultimately have "unat (seq - r) \<noteq> 0" "unat (seq - r) \<noteq> 1" by (metis unat_eq_0, metis unat_1 word_unat_eq_iff)
  then show ?thesis by linarith
qed

lemma unat_of_nat_u32: "n < 4294967296 \<Longrightarrow> unat (of_nat n :: u32) = n"
  by (simp add: unsigned_of_nat take_bit_eq_mod)

lemma inj_on_of_nat_u32:
  assumes "\<And>x. x \<in> A \<Longrightarrow> x < 4294967296"
  shows "inj_on (of_nat :: nat \<Rightarrow> u32) A"
proof (rule inj_onI)
  fix x y assume xy: "x \<in> A" "y \<in> A" "(of_nat x :: u32) = of_nat y"
  have "x = unat (of_nat x :: u32)" by (rule unat_of_nat_u32 [OF assms [OF xy(1)], symmetric])
  also have "\<dots> = y" unfolding xy(3) by (rule unat_of_nat_u32 [OF assms [OF xy(2)]])
  finally show "x = y" .
qed

lemma behind_window:
  assumes "r - q < (64 :: u32)" "unat r < 2147483648" "unat q < 2147483648"
  shows "unat q \<le> unat r"
proof (rule ccontr)
  assume "\<not> unat q \<le> unat r"
  then have "unat (r - q) = unat r + 4294967296 - unat q" by (simp add: unat_sub_if')
  then show False using assms by (simp add: word_less_nat_alt)
qed


lemma unat_plus_one_u32: "w + 1 \<noteq> (0 :: u32) \<Longrightarrow> unat (w + 1) = Suc (unat w)"
  by (metis Suc_eq_plus1 add.commute unatSuc)

end
