(* ===== verification/Dubu_Packet.thy ===== *)
theory Dubu_Packet
  imports Dubu_Prelude
begin

text \<open>
  The wire format of \<^verbatim>\<open>DUBUFrameWork/Packet.h\<close> and \<^verbatim>\<open>Packet.cpp\<close>: header flags,
  the 24-byte packed header and its little-endian layout, sub-headers
  (\<^verbatim>\<open>Subheader.h\<close>), send options and the CRC32 checksum computed with the
  SSE 4.2 instructions.
\<close>

section \<open>Constants of pch.h\<close>

abbreviation (input) PACKET_MAX_SIZE :: nat where "PACKET_MAX_SIZE \<equiv> 1024"
abbreviation (input) DEFAULT_WINDOW_COUNT :: nat where "DEFAULT_WINDOW_COUNT \<equiv> 64"
abbreviation (input) DEFAULT_WINDOW_COUNT32 :: u32 where "DEFAULT_WINDOW_COUNT32 \<equiv> 64"
abbreviation (input) NO_REPEAT_ACCEPT_RANGE :: u32 where "NO_REPEAT_ACCEPT_RANGE \<equiv> 0x1fff"
abbreviation (input) DEFAULT_CHUNCK_MAX_SIZE :: nat where "DEFAULT_CHUNCK_MAX_SIZE \<equiv> 16"
abbreviation (input) DEFAULT_CHUNK_END_MASK :: u16 where "DEFAULT_CHUNK_END_MASK \<equiv> 0x8000"
abbreviation (input) sizeof_PacketHeader :: nat where "sizeof_PacketHeader \<equiv> 24"

section \<open>Header flags\<close>

datatype PacketHeaderFlag =
    NONE | REPEAT | CHUNK | CHANNEL | CHANNELMASK | ACK | PING | PONG | SESSION | DISCONNECT

fun flag_value :: "PacketHeaderFlag \<Rightarrow> u8" where
  "flag_value NONE = 0x00"
| "flag_value REPEAT = 0x01"
| "flag_value CHUNK = 0x02"
| "flag_value CHANNEL = 0x04"
| "flag_value CHANNELMASK = 0x38"
| "flag_value ACK = 0x80"
| "flag_value PING = 0xC0"
| "flag_value PONG = 0xE0"
| "flag_value SESSION = 0xFE"
| "flag_value DISCONNECT = 0xFF"

text \<open>The test \<open>(flags & F) == F\<close> the dispatchers use.\<close>

definition has_flag :: "u8 \<Rightarrow> PacketHeaderFlag \<Rightarrow> bool" where
  "has_flag flags f \<longleftrightarrow> flags AND flag_value f = flag_value f"

text \<open>The channel id \<open>(flags & CHANNELMASK) >> 3\<close>.\<close>

definition channel_of :: "u8 \<Rightarrow> u8" where
  "channel_of flags = drop_bit 3 (flags AND flag_value CHANNELMASK)"

section \<open>The header and its layout\<close>

record ChunkInfo =
  ci_size :: u16
  ci_flag :: u16

record PacketHeader =
  totalSize :: u16
  packetCode :: u8
  flags :: u8
  hSessionId :: u32
  hSequenceNo :: u32
  hTimestamp :: u32
  checksum :: u32
  chunkInfo :: ChunkInfo

definition rd8 :: "bytes \<Rightarrow> nat \<Rightarrow> u8" where
  "rd8 b i = b ! i"

definition rd16 :: "bytes \<Rightarrow> nat \<Rightarrow> u16" where
  "rd16 b i = ucast (b ! i) OR push_bit 8 (ucast (b ! (i + 1)))"

definition rd32 :: "bytes \<Rightarrow> nat \<Rightarrow> u32" where
  "rd32 b i = ucast (b ! i) OR push_bit 8 (ucast (b ! (i + 1)))
     OR push_bit 16 (ucast (b ! (i + 2))) OR push_bit 24 (ucast (b ! (i + 3)))"

definition le16 :: "u16 \<Rightarrow> bytes" where
  "le16 v = [ucast v, ucast (drop_bit 8 v)]"

definition le32 :: "u32 \<Rightarrow> bytes" where
  "le32 v = [ucast v, ucast (drop_bit 8 v), ucast (drop_bit 16 v), ucast (drop_bit 24 v)]"

text \<open>\<open>reinterpret_cast<PacketHeader*>(buffer)\<close>: reading and writing the first 24 bytes.\<close>

definition get_header :: "bytes \<Rightarrow> PacketHeader" where
  "get_header b =
     \<lparr>totalSize = rd16 b 0, packetCode = rd8 b 2, flags = rd8 b 3,
      hSessionId = rd32 b 4, hSequenceNo = rd32 b 8, hTimestamp = rd32 b 12,
      checksum = rd32 b 16, chunkInfo = \<lparr>ci_size = rd16 b 20, ci_flag = rd16 b 22\<rparr>\<rparr>"

definition header_bytes :: "PacketHeader \<Rightarrow> bytes" where
  "header_bytes h = le16 (totalSize h) @ [packetCode h, flags h] @ le32 (hSessionId h) @
     le32 (hSequenceNo h) @ le32 (hTimestamp h) @ le32 (checksum h) @
     le16 (ci_size (chunkInfo h)) @ le16 (ci_flag (chunkInfo h))"

definition set_header :: "PacketHeader \<Rightarrow> bytes \<Rightarrow> bytes" where
  "set_header h b = header_bytes h @ drop sizeof_PacketHeader b"

text \<open>\<open>std::memcpy(dest + off, src, n)\<close> on a byte buffer.\<close>

definition memcpy_at :: "nat \<Rightarrow> bytes \<Rightarrow> bytes \<Rightarrow> bytes" where
  "memcpy_at off src b = take off b @ src @ drop (off + length src) b"

definition PacketHeaderCheck :: "bytes \<Rightarrow> u16 \<Rightarrow> bool" where
  "PacketHeaderCheck b len \<longleftrightarrow> sizeof_PacketHeader \<le> unat len"

definition PacketHeaderCopy :: "bytes \<Rightarrow> bytes \<Rightarrow> bytes" where
  "PacketHeaderCopy src dest = memcpy_at 0 (take sizeof_PacketHeader src) dest"

definition PacketCopy :: "bytes \<Rightarrow> u16 \<Rightarrow> bytes \<Rightarrow> bytes" where
  "PacketCopy src len dest = memcpy_at 0 (take (unat len) src) dest"

section \<open>Send options\<close>

record PacketOpctions =
  reliable :: bool
  order :: bool
  channelID :: u8
  isChunck :: bool
  chunckFlag :: u16
  chunckTotal :: u16

definition mk_opt :: "bool \<Rightarrow> bool \<Rightarrow> u8 \<Rightarrow> PacketOpctions" where
  "mk_opt r ord ch = \<lparr>reliable = r, order = ord, channelID = ch,
     isChunck = False, chunckFlag = 0, chunckTotal = 0\<rparr>"

definition HeaderToOptions :: "PacketHeader \<Rightarrow> PacketOpctions" where
  "HeaderToOptions h =
     (let opt = (mk_opt False False 0)\<lparr>reliable := has_flag (flags h) REPEAT\<rparr>
      in if has_flag (flags h) CHANNEL
         then opt\<lparr>order := True, channelID := channel_of (flags h)\<rparr> else opt)"

section \<open>Sub-headers\<close>

text \<open>
  A sub-header starts with its type and its size in bytes; the receiver casts
  the bytes after the header to \<^verbatim>\<open>SubheaderBase\<close> and reads the second one.
\<close>

definition sub_type :: "bytes \<Rightarrow> u8" where
  "sub_type sub = rd8 sub 0"

definition GetSize :: "bytes \<Rightarrow> nat \<Rightarrow> u8" where
  "GetSize b off = rd8 b (off + 1)"

section \<open>Checksum\<close>

text \<open>
  One bit of the CRC32C instruction (reflected polynomial 0x82F63B78), and the
  instruction on 8 and on 32 bits of data.
\<close>

definition crc_bit :: "u32 \<Rightarrow> u32" where
  "crc_bit c = (if bit c 0 then drop_bit 1 c XOR 0x82F63B78 else drop_bit 1 c)"

definition mm_crc32_u8 :: "u32 \<Rightarrow> u8 \<Rightarrow> u32" where
  "mm_crc32_u8 crc v = (crc_bit ^^ 8) (crc XOR ucast v)"

definition mm_crc32_u32 :: "u32 \<Rightarrow> u32 \<Rightarrow> u32" where
  "mm_crc32_u32 crc v = (crc_bit ^^ 32) (crc XOR v)"

text \<open>The two loops of \<^verbatim>\<open>CRC32\<close>: four bytes at a time, then the rest.\<close>

fun crc_loop4 :: "u32 \<Rightarrow> bytes \<Rightarrow> u32 \<times> bytes" where
  "crc_loop4 crc (a # b # c # d # rest) = crc_loop4 (mm_crc32_u32 crc (rd32 [a, b, c, d] 0)) rest"
| "crc_loop4 crc bs = (crc, bs)"

fun crc_loop1 :: "u32 \<Rightarrow> bytes \<Rightarrow> u32" where
  "crc_loop1 crc [] = crc"
| "crc_loop1 crc (b # bs) = crc_loop1 (mm_crc32_u8 crc b) bs"

definition CRC32 :: "bytes \<Rightarrow> u16 \<Rightarrow> u32" where
  "CRC32 p len =
     (let (crc, rest) = crc_loop4 0xFFFFFFFF (take (unat len) p)
      in crc_loop1 crc rest XOR 0xFFFFFFFF)"

section \<open>Flags as bits\<close>

lemma has_flag_bit [wire_simps]:
  "has_flag x REPEAT \<longleftrightarrow> bit x 0" "has_flag x CHUNK \<longleftrightarrow> bit x 1" "has_flag x CHANNEL \<longleftrightarrow> bit x 2"
  "has_flag x ACK \<longleftrightarrow> bit x 7"
  using and_single_bit [of 0 x] and_single_bit [of 1 x] and_single_bit [of 2 x] and_single_bit [of 7 x]
  by (simp_all add: has_flag_def)

lemma channel_of_less: "unat (channel_of x) < 8"
proof -
  have "unat (x AND 0x38) \<le> unat (0x38 :: u8)"
    by (rule word_and_le1 [THEN word_le_nat_alt [THEN iffD1]])
  then show ?thesis by (simp add: channel_of_def drop_bit_eq_div unat_div)
qed

lemma bit_channel_of: "bit (channel_of x) n \<longleftrightarrow> n < 3 \<and> bit x (n + 3)"
proof -
  have "channel_of x = drop_bit 3 (x AND push_bit 3 (mask 3))"
    by (simp add: channel_of_def mask_eq_exp_minus_1)
  then show ?thesis by (auto simp: bit_simps add.commute dest: bit_imp_le_length)
qed

section \<open>Round trips of the header\<close>

lemma rd16_le16: "rd16 (le16 v) 0 = v"
  by (rule bit_word_eqI) (auto simp: rd16_def le16_def bit_simps)

lemma rd32_le32: "rd32 (le32 v) 0 = v"
proof (rule bit_word_eqI)
  fix n assume "n < LENGTH(32)"
  then consider "n < 8" | "8 \<le> n" "n < 16" | "16 \<le> n" "n < 24" | "24 \<le> n" "n < 32" by fastforce
  then show "bit (rd32 (le32 v) 0) n = bit v n"
    by cases (auto simp: rd32_def le32_def bit_simps)
qed

lemma le16_rd16: "le16 (rd16 [a, b] 0) = [a, b]"
  by (auto simp: rd16_def le16_def bit_simps intro!: bit_word_eqI dest: bit_imp_le_length)

lemma le32_rd32: "le32 (rd32 [a, b, c, d] 0) = [a, b, c, d]"
  by (auto simp: rd32_def le32_def bit_simps intro!: bit_word_eqI dest: bit_imp_le_length)

lemma length_header_bytes [simp]: "length (header_bytes h) = 24"
  by (simp add: header_bytes_def le16_def le32_def)

lemma get_header_header_bytes: "get_header (header_bytes h @ rest) = h"
  using rd16_le16 [of "totalSize h"] rd32_le32 [of "hSessionId h"] rd32_le32 [of "hSequenceNo h"]
    rd32_le32 [of "hTimestamp h"] rd32_le32 [of "checksum h"]
    rd16_le16 [of "ci_size (chunkInfo h)"] rd16_le16 [of "ci_flag (chunkInfo h)"]
  by (simp add: get_header_def header_bytes_def rd16_def rd32_def rd8_def le16_def le32_def)

lemma le_rd_at:
  "le16 (rd16 b i) = [b ! i, b ! (i + 1)]"
  "le32 (rd32 b i) = [b ! i, b ! (i + 1), b ! (i + 2), b ! (i + 3)]"
  using le16_rd16 [of "b ! i" "b ! (i + 1)"] le32_rd32 [of "b ! i" "b ! (i + 1)" "b ! (i + 2)" "b ! (i + 3)"]
  by (simp_all add: rd16_def rd32_def)

lemma upt_24: "[0..<24] = [0, 1, 2, 3, 4, 5, 6, 7, 8, 9, 10, 11, 12, 13, 14, 15, 16, 17, 18, 19, 20, 21, 22, 23]"
  by code_simp

lemma take_24: "24 \<le> length b \<Longrightarrow> take 24 b = map ((!) b) [0..<24]"
  by (rule nth_equalityI) auto

lemma set_get_header: "24 \<le> length b \<Longrightarrow> set_header (get_header b) b = b"
proof -
  assume "24 \<le> length b"
  then have "header_bytes (get_header b) = take 24 b"
    unfolding take_24 [OF \<open>24 \<le> length b\<close>]
    by (simp add: header_bytes_def get_header_def le_rd_at rd8_def upt_24)
  then show ?thesis by (simp add: set_header_def)
qed

lemma get_header_take: "24 \<le> n \<Longrightarrow> get_header (take n b) = get_header b"
  by (simp add: get_header_def rd8_def rd16_def rd32_def)

lemma get_set_header: "get_header (set_header h b) = h"
  by (simp add: set_header_def get_header_header_bytes)

lemma length_set_header [simp]: "24 \<le> length b \<Longrightarrow> length (set_header h b) = length b"
  by (simp add: set_header_def)



section \<open>The checksum\<close>

lemma crc_bit_xor: "crc_bit (a XOR b) = crc_bit a XOR crc_bit b"
  by (rule bit_word_eqI) (auto simp: crc_bit_def bit_simps)

lemma crc_bits_xor: "(crc_bit ^^ n) (a XOR b) = (crc_bit ^^ n) a XOR (crc_bit ^^ n) b"
  by (induction n) (simp_all add: crc_bit_xor)

lemma crc_bits_push: "n \<le> m \<Longrightarrow> (crc_bit ^^ n) (push_bit m v) = drop_bit n (push_bit m v)"
proof (induction n)
  case (Suc n)
  have "\<not> bit (drop_bit n (push_bit m v)) 0" using Suc.prems by (simp add: bit_simps)
  then show ?case using Suc by (simp add: crc_bit_def)
qed simp

lemma crc_bit_inj: "crc_bit a = crc_bit b \<Longrightarrow> a = b"
proof -
  assume eq: "crc_bit a = crc_bit b"
  have top: "bit (crc_bit c) 31 = bit c 0" for c
    by (auto simp: crc_bit_def bit_simps dest: bit_imp_le_length)
  have b0: "bit a 0 = bit b 0" using eq top by metis
  have d: "drop_bit 1 a = drop_bit 1 b"
    using eq b0 by (auto simp: crc_bit_def xor_right_cancel split: if_splits)
  show "a = b"
  proof (rule bit_word_eqI)
    fix n assume "n < LENGTH(32)"
    show "bit a n = bit b n"
    proof (cases n)
      case 0 with b0 show ?thesis by simp
    next
      case (Suc m)
      have "bit (drop_bit 1 a) m = bit (drop_bit 1 b) m" using d by simp
      with Suc show ?thesis by (simp add: bit_simps)
    qed
  qed
qed

lemma crc_bits_inj: "(crc_bit ^^ n) a = (crc_bit ^^ n) b \<Longrightarrow> a = b"
  by (induction n) (auto dest: crc_bit_inj)

lemma crc_u8_inj_crc: "mm_crc32_u8 c v = mm_crc32_u8 c' v \<Longrightarrow> c = c'"
  unfolding mm_crc32_u8_def by (drule crc_bits_inj) (simp add: xor_right_cancel)

lemma crc_u8_inj_data: "mm_crc32_u8 c v = mm_crc32_u8 c v' \<Longrightarrow> v = v'"
  unfolding mm_crc32_u8_def by (drule crc_bits_inj) (simp add: xor_left_cancel ucast_byte_inj)

lemma crc_loop1_inj: "crc_loop1 c bs = crc_loop1 c' bs \<Longrightarrow> c = c'"
  by (induction bs arbitrary: c c') (auto dest: crc_u8_inj_crc)

lemma crc_loop1_append: "crc_loop1 c (xs @ ys) = crc_loop1 (crc_loop1 c xs) ys"
  by (induction xs arbitrary: c) auto

lemma crc8_push:
  assumes "8 \<le> m" and "m \<le> 24"
  shows "(crc_bit ^^ 8) (x XOR push_bit m (ucast (v :: u8))) = (crc_bit ^^ 8) x XOR push_bit (m - 8) (ucast v)"
proof -
  have "drop_bit 8 (push_bit m (ucast v)) = (push_bit (m - 8) (ucast v) :: u32)"
    using assms
    by (intro bit_word_eqI) (auto simp: bit_simps add.commute dest: bit_imp_le_length)
  then show ?thesis using assms by (simp add: crc_bits_xor crc_bits_push)
qed

lemma rd32_xor: "rd32 [a, b, c, d] 0 = ucast a XOR push_bit 8 (ucast b) XOR push_bit 16 (ucast c) XOR push_bit 24 (ucast d)"
  by (rule bit_word_eqI) (auto simp: rd32_def bit_simps)

lemma crc_word_bytes:
  "mm_crc32_u32 crc (rd32 [a, b, c, d] 0) = crc_loop1 crc [a, b, c, d]"
proof -
  have split: "(crc_bit ^^ 32) x = (crc_bit ^^ 8) ((crc_bit ^^ 8) ((crc_bit ^^ 8) ((crc_bit ^^ 8) x)))" for x
    using funpow_add [of 16 16 crc_bit] funpow_add [of 8 8 crc_bit] by simp
  show ?thesis
    by (simp only: mm_crc32_u32_def split rd32_xor xor.assoc [symmetric] crc8_push)
      (simp add: mm_crc32_u8_def crc8_push)
qed

lemma crc_loop4_bytes: "crc_loop1 (fst (crc_loop4 crc bs)) (snd (crc_loop4 crc bs)) = crc_loop1 crc bs"
  by (induction crc bs rule: crc_loop4.induct) (auto simp: crc_word_bytes)


text \<open>
  C14. The four-bytes-at-a-time loop computes the same checksum as feeding every byte to
  the 8-bit instruction in turn.
\<close>

theorem CRC32_bytewise:
  "CRC32 p len = crc_loop1 0xFFFFFFFF (take (unat len) p) XOR 0xFFFFFFFF"
  by (simp add: CRC32_def case_prod_unfold crc_loop4_bytes)

lemma crc_loop1_corrupt:
  assumes "i < length bs" and "v \<noteq> bs ! i"
  shows "crc_loop1 c (bs[i := v]) \<noteq> crc_loop1 c bs"
proof -
  have bs: "bs = take i bs @ bs ! i # drop (Suc i) bs" using assms(1) by (simp add: id_take_nth_drop)
  have upd: "bs[i := v] = take i bs @ v # drop (Suc i) bs" using assms(1) by (simp add: upd_conv_take_nth_drop)
  have "mm_crc32_u8 d v \<noteq> mm_crc32_u8 d (bs ! i)" for d using assms(2) by (auto dest: crc_u8_inj_data)
  then show ?thesis
    by (subst (2) bs, subst upd) (auto simp: crc_loop1_append dest: crc_loop1_inj)
qed

lemma CRC32_update:
  assumes "i < unat len" and "unat len \<le> length p" and "v \<noteq> p ! i"
  shows "CRC32 (p[i := v]) len \<noteq> CRC32 p len"
  using crc_loop1_corrupt [of i "take (unat len) p" v] assms
  by (simp add: CRC32_def case_prod_unfold crc_loop4_bytes xor_right_cancel take_update_swap)

end
