(* ===== verification/Dubu_Config.thy ===== *)
theory Dubu_Config
  imports Dubu_Prelude
begin

text \<open>
  The run-time configuration of \<^verbatim>\<open>DUBUFrameWork/Config.cpp\<close>. The JSON document is
  what the JSON library makes of the file: a parameter, given as its top-level
  members.
\<close>

datatype json_value = JNull | JInteger int | JOther

type_synonym json = "string \<rightharpoonup> json_value"

record Config =
  g_maxclientcount :: u32
  g_firstClientCount :: u32
  g_servicePort :: u16
  g_defaultRttMs :: u32
  g_defaultRttMsDelay :: u32
  g_defaultDisconnectTimeoutMs :: u32
  g_defaultPingTimeoutMs :: u32
  g_channelMask :: u32

definition default_config :: Config where
  "default_config =
     \<lparr>g_maxclientcount = 1000, g_firstClientCount = 50, g_servicePort = 12345,
      g_defaultRttMs = 100, g_defaultRttMsDelay = 20,
      g_defaultDisconnectTimeoutMs = 30000, g_defaultPingTimeoutMs = 3000,
      g_channelMask = 3\<rparr>"

text \<open>\<open>get<Int64>()\<close> keeps the low 64 bits, read as two's complement.\<close>

definition get_Int64 :: "int \<Rightarrow> int" where
  "get_Int64 n = sint (word_of_int n :: 64 word)"

definition SetNumberConfig :: "json \<Rightarrow> string \<Rightarrow> 'a::len word \<Rightarrow> 'a word" where
  "SetNumberConfig cfg key v =
     (case cfg key of
        Some (JInteger n) \<Rightarrow>
          (if 0 \<le> get_Int64 n \<and> get_Int64 n \<le> uint (- 1 :: 'a word)
           then word_of_int (get_Int64 n) else v)
      | _ \<Rightarrow> v)"

text \<open>A file that cannot be opened is \<open>None\<close>: the defaults stand and the result is false.\<close>

definition LoadConfig :: "json option \<Rightarrow> bool \<times> Config" where
  "LoadConfig file =
     (case file of
        None \<Rightarrow> (False, default_config)
      | Some cfg \<Rightarrow> (True,
         \<lparr>g_maxclientcount = SetNumberConfig cfg ''MAX_CLIENT_COUNT'' (g_maxclientcount default_config),
          g_firstClientCount = SetNumberConfig cfg ''FIRST_CLIENT_COUNT'' (g_firstClientCount default_config),
          g_servicePort = SetNumberConfig cfg ''SERVICE_PORT'' (g_servicePort default_config),
          g_defaultRttMs = SetNumberConfig cfg ''DEFAULT_RTT_MS'' (g_defaultRttMs default_config),
          g_defaultRttMsDelay = SetNumberConfig cfg ''DEFAULT_RTT_MS_DELAY'' (g_defaultRttMsDelay default_config),
          g_defaultDisconnectTimeoutMs =
            SetNumberConfig cfg ''DEFAULT_DISCONNECT_TIMEOUT_MS'' (g_defaultDisconnectTimeoutMs default_config),
          g_defaultPingTimeoutMs =
            SetNumberConfig cfg ''DEFAULT_PING_TIMEOUT_MS'' (g_defaultPingTimeoutMs default_config),
          g_channelMask = SetNumberConfig cfg ''DEFAULT_CHANNEL_MASK'' (g_channelMask default_config)\<rparr>))"

text \<open>An integer member in the range of the variable is taken over exactly, anything else is ignored.\<close>

lemma get_Int64_small: "0 \<le> n \<Longrightarrow> n < 2 ^ 63 \<Longrightarrow> get_Int64 n = n"
  by (simp add: get_Int64_def signed_of_int signed_take_bit_int_eq_self)

lemma uint_SetNumberConfig_in_range:
  assumes "cfg key = Some (JInteger n)" and "0 \<le> n" and "n \<le> uint (- 1 :: 'a::len word)"
    and "n < 2 ^ 63"
  shows "uint (SetNumberConfig cfg key (v :: 'a word)) = n"
proof -
  have "n < 2 ^ LENGTH('a)" using assms(3) uint_lt2p [of "- 1 :: 'a word"] by linarith
  then show ?thesis
    using assms by (simp add: SetNumberConfig_def get_Int64_small uint_word_of_int_eq take_bit_int_eq_self)
qed

lemma SetNumberConfig_out_of_range:
  assumes "cfg key = Some (JInteger n)" and "n < 2 ^ 63" and "- (2 ^ 63) \<le> n"
    and "n < 0 \<or> uint (- 1 :: 'a::len word) < n"
  shows "SetNumberConfig cfg key (v :: 'a word) = v"
proof -
  have "get_Int64 n = n" using assms(2,3) by (simp add: get_Int64_def signed_of_int signed_take_bit_int_eq_self)
  then show ?thesis using assms(1,4) by (auto simp: SetNumberConfig_def)
qed

end
