(* ===== verification/Dubu_Buffers.thy ===== *)
theory Dubu_Buffers
  imports Dubu_Packet Dubu_Config
begin

text \<open>
  Packet buffers and their pools: \<^verbatim>\<open>OverlappedObj.h\<close>, \<^verbatim>\<open>ObjectPool.h\<close>,
  \<^verbatim>\<open>BufferManager.h/.cpp\<close>, the big blocks of \<^verbatim>\<open>Pool.cpp\<close>, and the clock of
  \<^verbatim>\<open>pch.cpp\<close>. Buffers are shared between the pool, the senders' windows and the
  kernel, so they live in an explicit store addressed by pointers. The record
  \<open>World\<close> holds everything that outlives one session.
\<close>

section \<open>Data\<close>

text \<open>An IPv4 address and a port; the port is kept in host order.\<close>

record SOCKADDR_IN =
  sin_addr :: u32
  sin_port :: u16

datatype OverlappedObjType = OBJ_NONE | RECVEFROM | SENDTO | SENDING | RELIABLE

fun obj_type :: "OverlappedObjType \<Rightarrow> u32" where
  "obj_type OBJ_NONE = 0x00000000"
| "obj_type RECVEFROM = 0x00000001"
| "obj_type SENDTO = 0x00000002"
| "obj_type SENDING = 0x00000004"
| "obj_type RELIABLE = 0xFFFF0000"

record OverlappedPacketBuffer =
  otype :: u32
  remoteAddr :: SOCKADDR_IN
  addrSize :: nat
  osize :: u16
  obuffer :: bytes

record CachePacketBuffer =
  csize :: u16
  cbuffer :: bytes

record ObjectPool =
  freeList :: "ptr list"
  brk :: ptr

record PacketManager =
  pm_list :: "ptr list"
  pm_useList :: "ptr set"
  pm_objects :: ObjectPool

record CachePacketManager =
  cm_list :: "ptr list"
  cm_useList :: "ptr set"
  cm_objects :: ObjectPool

text \<open>
  \<open>clock\<close> gives the successive readings of the steady clock and \<open>ioError\<close> the
  error code of the successive Winsock calls (\<open>None\<close> when the call reports no
  error); \<open>wire\<close> is the history of datagrams given to \<^verbatim>\<open>WSASendTo\<close> and
  \<open>inflight\<close> the overlapped operations the kernel has not completed.
\<close>

record World =
  config :: Config
  clock :: "nat \<Rightarrow> u32"
  tick :: nat
  packets :: "ptr \<Rightarrow> OverlappedPacketBuffer"
  packetManager :: PacketManager
  caches :: "ptr \<Rightarrow> CachePacketBuffer"
  cacheManager :: CachePacketManager
  bigMemoryPtrs :: "ptr set"
  bigNext :: ptr
  wire :: "(SOCKADDR_IN \<times> bytes) list"
  inflight :: "ptr list"
  ioError :: "nat \<Rightarrow> nat option"
  ioCount :: nat

text \<open>The world when the process starts, before \<^verbatim>\<open>DUBU::Initialize\<close>.\<close>

definition new_World :: "Config \<Rightarrow> (nat \<Rightarrow> u32) \<Rightarrow> (nat \<Rightarrow> nat option) \<Rightarrow> World" where
  "new_World cfg readings errors =
     \<lparr>config = cfg, clock = readings, tick = 0,
      packets = (\<lambda>_. \<lparr>otype = 0, remoteAddr = \<lparr>sin_addr = 0, sin_port = 0\<rparr>, addrSize = 16,
                      osize = 0, obuffer = replicate PACKET_MAX_SIZE 0\<rparr>),
      packetManager = \<lparr>pm_list = [], pm_useList = {}, pm_objects = \<lparr>freeList = [], brk = 0\<rparr>\<rparr>,
      caches = (\<lambda>_. \<lparr>csize = 0, cbuffer = replicate PACKET_MAX_SIZE 0\<rparr>),
      cacheManager = \<lparr>cm_list = [], cm_useList = {}, cm_objects = \<lparr>freeList = [], brk = 0\<rparr>\<rparr>,
      bigMemoryPtrs = {}, bigNext = 0, wire = [], inflight = [], ioError = errors, ioCount = 0\<rparr>"

section \<open>The clock\<close>

definition GetRelativeTimeMs :: "World \<Rightarrow> u32 \<times> World" where
  "GetRelativeTimeMs w = (clock w (tick w), w\<lparr>tick := Suc (tick w)\<rparr>)"

section \<open>ObjectPool\<close>

text \<open>\<open>operator new\<close> returns an address no live object has: the break pointer.\<close>

fun ObjectPool_Initialize :: "nat \<Rightarrow> ObjectPool \<Rightarrow> ObjectPool" where
  "ObjectPool_Initialize 0 op = op"
| "ObjectPool_Initialize (Suc n) op =
     ObjectPool_Initialize n \<lparr>freeList = freeList op @ [brk op], brk = Suc (brk op)\<rparr>"

definition ObjectPool_Pop :: "ObjectPool \<Rightarrow> ptr \<times> ObjectPool" where
  "ObjectPool_Pop op =
     (if freeList op \<noteq> [] then (last (freeList op), op\<lparr>freeList := butlast (freeList op)\<rparr>)
      else (brk op, op\<lparr>brk := Suc (brk op)\<rparr>))"

definition ObjectPool_Push :: "ptr \<Rightarrow> ObjectPool \<Rightarrow> ObjectPool" where
  "ObjectPool_Push p op = op\<lparr>freeList := freeList op @ [p]\<rparr>"

section \<open>PacketManager\<close>

definition OverlappedObj_Initialize :: "ptr \<Rightarrow> World \<Rightarrow> World" where
  "OverlappedObj_Initialize p w = w\<lparr>packets := (packets w)(p := (packets w p)\<lparr>addrSize := 16\<rparr>)\<rparr>"

definition SetType :: "ptr \<Rightarrow> u32 \<Rightarrow> World \<Rightarrow> World" where
  "SetType p t w = w\<lparr>packets := (packets w)(p := (packets w p)\<lparr>otype := t\<rparr>)\<rparr>"

text \<open>A buffer fresh from \<^verbatim>\<open>DUBU::Pop\<close>: constructed members set, payload bytes as they were.\<close>

definition new_packet_buffer :: "World \<Rightarrow> ptr \<times> World" where
  "new_packet_buffer w =
     (let (p, op) = ObjectPool_Pop (pm_objects (packetManager w))
      in (p, w\<lparr>packetManager := (packetManager w)\<lparr>pm_objects := op\<rparr>,
               packets := (packets w)(p := (packets w p)
                 \<lparr>otype := obj_type OBJ_NONE, addrSize := 16, osize := 1024\<rparr>)\<rparr>))"

definition PopPacketBuffer :: "World \<Rightarrow> ptr \<times> World" where
  "PopPacketBuffer w =
     (if pm_list (packetManager w) \<noteq> [] then
        let p = last (pm_list (packetManager w))
        in (p, w\<lparr>packets := (packets w)(p := (packets w p)\<lparr>osize := 1024\<rparr>),
                 packetManager := (packetManager w)
                   \<lparr>pm_list := butlast (pm_list (packetManager w)),
                    pm_useList := insert p (pm_useList (packetManager w))\<rparr>\<rparr>)
      else
        let (p, w1) = new_packet_buffer w
        in (p, w1\<lparr>packetManager := (packetManager w1)
                   \<lparr>pm_useList := insert p (pm_useList (packetManager w1))\<rparr>\<rparr>))"

definition PushPacketBuffer :: "ptr \<Rightarrow> World \<Rightarrow> World" where
  "PushPacketBuffer p w = w\<lparr>packetManager := (packetManager w)
     \<lparr>pm_list := pm_list (packetManager w) @ [p],
      pm_useList := pm_useList (packetManager w) - {p}\<rparr>\<rparr>"

fun PacketManager_fill :: "nat \<Rightarrow> World \<Rightarrow> World" where
  "PacketManager_fill 0 w = w"
| "PacketManager_fill (Suc n) w =
     (let (p, w1) = new_packet_buffer w
      in PacketManager_fill n (w1\<lparr>packetManager := (packetManager w1)
           \<lparr>pm_list := pm_list (packetManager w1) @ [p]\<rparr>\<rparr>))"

definition PacketManager_Initialize :: "World \<Rightarrow> World" where
  "PacketManager_Initialize w = PacketManager_fill (unat (g_maxclientcount (config w))) w"

definition PacketManager_Release :: "World \<Rightarrow> World" where
  "PacketManager_Release w = w\<lparr>packetManager := (packetManager w)
     \<lparr>pm_list := [],
      pm_objects := foldr ObjectPool_Push (pm_list (packetManager w)) (pm_objects (packetManager w))\<rparr>\<rparr>"

section \<open>CachePacketManager\<close>

definition Cache_PopPacketBuffer :: "World \<Rightarrow> ptr \<times> World" where
  "Cache_PopPacketBuffer w =
     (if cm_list (cacheManager w) \<noteq> [] then
        let p = last (cm_list (cacheManager w))
        in (p, w\<lparr>cacheManager := (cacheManager w)
                   \<lparr>cm_list := butlast (cm_list (cacheManager w)),
                    cm_useList := insert p (cm_useList (cacheManager w))\<rparr>\<rparr>)
      else
        let (p, op) = ObjectPool_Pop (cm_objects (cacheManager w))
        in (p, w\<lparr>caches := (caches w)(p := (caches w p)\<lparr>csize := 0\<rparr>),
                 cacheManager := (cacheManager w)
                   \<lparr>cm_objects := op, cm_useList := insert p (cm_useList (cacheManager w))\<rparr>\<rparr>))"

definition Cache_PushPacketBuffer :: "ptr \<Rightarrow> World \<Rightarrow> World" where
  "Cache_PushPacketBuffer p w =
     (let c = caches w p; n = unat (csize c)
      in w\<lparr>cacheManager := (cacheManager w)
             \<lparr>cm_list := cm_list (cacheManager w) @ [p],
              cm_useList := cm_useList (cacheManager w) - {p}\<rparr>,
           caches := (caches w)(p := \<lparr>csize = 0, cbuffer = replicate n 0 @ drop n (cbuffer c)\<rparr>)\<rparr>)"

definition Cache_Release :: "World \<Rightarrow> World" where
  "Cache_Release w = w\<lparr>cacheManager := (cacheManager w)
     \<lparr>cm_list := [],
      cm_objects := foldr ObjectPool_Push (cm_list (cacheManager w)) (cm_objects (cacheManager w))\<rparr>\<rparr>"

text \<open>\<^verbatim>\<open>CachePacketBuffer::Copy\<close>; copying past either buffer is undefined behaviour.\<close>

definition CachePacketBuffer_Copy :: "ptr \<Rightarrow> bytes \<Rightarrow> u16 \<Rightarrow> World \<Rightarrow> World result" where
  "CachePacketBuffer_Copy p src sz w =
     (if PACKET_MAX_SIZE < unat sz \<or> length src < unat sz then Inl BufferOverrun
      else Inr (w\<lparr>caches := (caches w)(p :=
             \<lparr>csize = sz, cbuffer = memcpy_at 0 (take (unat sz) src) (cbuffer (caches w p))\<rparr>)\<rparr>))"

section \<open>Big blocks\<close>

definition PopBig :: "u16 \<Rightarrow> World \<Rightarrow> (ptr \<times> World) result" where
  "PopBig sz w =
     (if 8192 < unat sz then Inl AssertFailed
      else Inr (bigNext w, w\<lparr>bigMemoryPtrs := insert (bigNext w) (bigMemoryPtrs w),
                             bigNext := Suc (bigNext w)\<rparr>))"

definition PushBig :: "ptr \<Rightarrow> World \<Rightarrow> World result" where
  "PushBig p w =
     (if p \<notin> bigMemoryPtrs w then Inl ProcessExit
      else Inr (w\<lparr>bigMemoryPtrs := bigMemoryPtrs w - {p}\<rparr>))"

section \<open>The contract of a buffer pool\<close>

text \<open>
  What the users of a pool rely on: a buffer handed out is not in use by anyone
  else, handing out or taking back one buffer does not touch the content of the
  others, and the pool stays consistent.
\<close>

locale buffer_pool =
  fixes pop :: "'w \<Rightarrow> ptr \<times> 'w"
    and push :: "ptr \<Rightarrow> 'w \<Rightarrow> 'w"
    and used :: "'w \<Rightarrow> ptr set"
    and content :: "'w \<Rightarrow> ptr \<Rightarrow> 'c"
    and inv :: "'w \<Rightarrow> bool"
  assumes pop_fresh: "inv w \<Longrightarrow> fst (pop w) \<notin> used w"
    and pop_used: "used (snd (pop w)) = insert (fst (pop w)) (used w)"
    and pop_content: "q \<noteq> fst (pop w) \<Longrightarrow> content (snd (pop w)) q = content w q"
    and pop_inv: "inv w \<Longrightarrow> inv (snd (pop w))"
    and push_used: "used (push p w) = used w - {p}"
    and push_content: "q \<noteq> p \<Longrightarrow> content (push p w) q = content w q"
    and push_inv: "inv w \<Longrightarrow> p \<in> used w \<Longrightarrow> inv (push p w)"
begin

lemma pop_keeps:
  assumes "inv w" and "q \<in> used w"
  shows "q \<in> used (snd (pop w)) \<and> content (snd (pop w)) q = content w q"
proof -
  have "q \<noteq> fst (pop w)" using pop_fresh [OF assms(1)] assms(2) by auto
  then show ?thesis using assms(2) by (simp add: pop_used pop_content)
qed

lemma push_keeps: "q \<in> used w \<Longrightarrow> q \<noteq> p \<Longrightarrow> q \<in> used (push p w) \<and> content (push p w) q = content w q"
  by (simp add: push_used push_content)

lemma pop_push_used: "inv w \<Longrightarrow> used (push (fst (pop w)) (snd (pop w))) = used w"
  using pop_fresh [of w] by (auto simp: push_used pop_used)

lemma pop_pop_distinct: "inv w \<Longrightarrow> fst (pop (snd (pop w))) \<noteq> fst (pop w)"
  using pop_fresh [OF pop_inv, of w] by (auto simp: pop_used)

end

section \<open>Both managers meet the contract\<close>

text \<open>The same bookkeeping in both managers: free list, use list and object pool are disjoint.\<close>

definition manager_ok :: "ptr list \<Rightarrow> ptr set \<Rightarrow> ObjectPool \<Rightarrow> bool" where
  "manager_ok fl us op \<longleftrightarrow> distinct fl \<and> distinct (freeList op) \<and> set fl \<inter> us = {}
     \<and> set (freeList op) \<inter> (set fl \<union> us) = {} \<and> (\<forall>p \<in> set fl \<union> us \<union> set (freeList op). p < brk op)"

lemma manager_ok_list_pop:
  "manager_ok fl us op \<Longrightarrow> fl \<noteq> [] \<Longrightarrow> manager_ok (butlast fl) (insert (last fl) us) op \<and> last fl \<notin> us"
  using last_butlast_set [of fl] distinct_butlast_last [of fl]
  by (auto simp: manager_ok_def distinct_butlast dest: in_set_butlastD)

lemma manager_ok_object_pop:
  "manager_ok fl us op \<Longrightarrow>
    manager_ok fl (insert (fst (ObjectPool_Pop op)) us) (snd (ObjectPool_Pop op)) \<and> fst (ObjectPool_Pop op) \<notin> us"
  using last_butlast_set [of "freeList op"] distinct_butlast_last [of "freeList op"]
  by (auto simp: manager_ok_def ObjectPool_Pop_def distinct_butlast less_Suc_eq dest: in_set_butlastD)

lemma manager_ok_push:
  "manager_ok fl us op \<Longrightarrow> p \<in> us \<Longrightarrow> manager_ok (fl @ [p]) (us - {p}) op"
  by (auto simp: manager_ok_def)

definition pm_ok :: "World \<Rightarrow> bool" where
  "pm_ok w \<longleftrightarrow> manager_ok (pm_list (packetManager w)) (pm_useList (packetManager w)) (pm_objects (packetManager w))"

definition cm_ok :: "World \<Rightarrow> bool" where
  "cm_ok w \<longleftrightarrow> manager_ok (cm_list (cacheManager w)) (cm_useList (cacheManager w)) (cm_objects (cacheManager w))"

abbreviation inUse :: "World \<Rightarrow> ptr set" where "inUse w \<equiv> pm_useList (packetManager w)"
abbreviation cacheInUse :: "World \<Rightarrow> ptr set" where "cacheInUse w \<equiv> cm_useList (cacheManager w)"

lemmas pool_defs = PopPacketBuffer_def PushPacketBuffer_def new_packet_buffer_def
  Cache_PopPacketBuffer_def Cache_PushPacketBuffer_def

interpretation packetPool: buffer_pool PopPacketBuffer PushPacketBuffer inUse packets pm_ok
  by unfold_locales
    (auto simp: pool_defs pm_ok_def Let_def split_beta manager_ok_list_pop manager_ok_object_pop
      manager_ok_push)

interpretation cachePool: buffer_pool Cache_PopPacketBuffer Cache_PushPacketBuffer cacheInUse caches cm_ok
  by unfold_locales
    (auto simp: pool_defs cm_ok_def Let_def split_beta manager_ok_list_pop manager_ok_object_pop
      manager_ok_push)

lemma pools_ok_new_World: "pm_ok (new_World cfg r e) \<and> cm_ok (new_World cfg r e)"
  by (simp add: pm_ok_def cm_ok_def manager_ok_def new_World_def)

end
