(* ===== verification/Dubu_Reliable.thy ===== *)
theory Dubu_Reliable
  imports Dubu_Buffers
begin

text \<open>
  Per-channel sequence state: \<^verbatim>\<open>PacketStateBase.h/.cpp\<close> and
  \<^verbatim>\<open>ReliablePacketState.h/.cpp\<close> with \<^verbatim>\<open>PendingPacket.h\<close> and
  \<^verbatim>\<open>CachePacket.h\<close>. The sender's half is a window of unacknowledged packets
  indexed by sequence number modulo 64; the lemmas at the end show that it behaves
  like a finite map from sequence numbers to buffers.
\<close>

section \<open>Data\<close>

record PendingPacket =
  pp_buffer :: "ptr option"
  pp_timeStamp :: u32
  pp_sequenceNo :: u32
  pp_isSent :: bool

record CachePacket =
  cp_buffer :: "ptr option"
  cp_timeStamp :: u32
  cp_sequenceNo :: u32
  cp_isKeep :: bool

record PacketStateBase =
  recvRepeatSeq :: u32
  lastRepeatSeq :: u32
  cacheRepeatCount :: u64
  sendRepeatSeq :: u32

record ReliablePacketState = PacketStateBase +
  pendingPackets :: "PendingPacket list"
  localWindowStart :: u32
  localSeqence :: u32

record CacheAlreadyPacket =
  reliablePacketState :: ReliablePacketState
  cachePackets :: "CachePacket list"

definition no_pending :: PendingPacket where
  "no_pending = \<lparr>pp_buffer = None, pp_timeStamp = 0, pp_sequenceNo = 0, pp_isSent = False\<rparr>"

definition no_cache :: CachePacket where
  "no_cache = \<lparr>cp_buffer = None, cp_timeStamp = 0, cp_sequenceNo = 0, cp_isKeep = False\<rparr>"

definition new_PacketStateBase :: PacketStateBase where
  "new_PacketStateBase =
     \<lparr>recvRepeatSeq = 0, lastRepeatSeq = 0, cacheRepeatCount = 0, sendRepeatSeq = 0\<rparr>"

definition new_ReliablePacketState :: ReliablePacketState where
  "new_ReliablePacketState =
     \<lparr>recvRepeatSeq = 0, lastRepeatSeq = 0, cacheRepeatCount = 0, sendRepeatSeq = 0,
      pendingPackets = replicate DEFAULT_WINDOW_COUNT no_pending,
      localWindowStart = 0, localSeqence = 0\<rparr>"

definition new_CacheAlreadyPacket :: CacheAlreadyPacket where
  "new_CacheAlreadyPacket =
     \<lparr>reliablePacketState = new_ReliablePacketState,
      cachePackets = replicate DEFAULT_WINDOW_COUNT no_cache\<rparr>"

section \<open>PacketStateBase\<close>

definition PacketStateBase_Reset :: "'a PacketStateBase_scheme \<Rightarrow> 'a PacketStateBase_scheme" where
  "PacketStateBase_Reset ps =
     ps\<lparr>recvRepeatSeq := 0, lastRepeatSeq := 0, cacheRepeatCount := 0, sendRepeatSeq := 0\<rparr>"

definition UpdateRecvSequenceNo :: "u32 \<Rightarrow> 'a PacketStateBase_scheme \<Rightarrow> 'a PacketStateBase_scheme" where
  "UpdateRecvSequenceNo n ps = ps\<lparr>recvRepeatSeq := n\<rparr>"

definition UpdateSendSequenceNo :: "'a PacketStateBase_scheme \<Rightarrow> u32 \<times> 'a PacketStateBase_scheme" where
  "UpdateSendSequenceNo ps =
     (sendRepeatSeq ps + 1, ps\<lparr>sendRepeatSeq := sendRepeatSeq ps + 1\<rparr>)"

definition GetRecvSequenceNo :: "'a PacketStateBase_scheme \<Rightarrow> u32" where
  "GetRecvSequenceNo ps = recvRepeatSeq ps"

definition GetSendSequenceNo :: "'a PacketStateBase_scheme \<Rightarrow> u32" where
  "GetSendSequenceNo ps = sendRepeatSeq ps"

section \<open>The smoothed round-trip time\<close>

text \<open>
  \<open>(Uint32)(rttMillisec * 0.8f + rtt * 0.2f)\<close> in single precision. All values are
  non-negative multiples of \<open>2 ^ - 26\<close>, so they are kept as naturals in that
  unit: 0.8f is \<open>13421773 / 2 ^ 24\<close> and 0.2f is \<open>13421773 / 2 ^ 26\<close>. Each
  operation is rounded to 24 significant bits, to nearest with ties to even.
\<close>

fun f32_excess :: "nat \<Rightarrow> nat" where
  "f32_excess n = (if n < 16777216 then 0 else Suc (f32_excess (n div 2)))"

declare f32_excess.simps [simp del]

definition f32_round :: "nat \<Rightarrow> nat" where
  "f32_round n =
     (let k = f32_excess n; q = n div 2 ^ k; r = n mod 2 ^ k
      in if 2 ^ k < 2 * r \<or> (2 ^ k = 2 * r \<and> odd q) then (q + 1) * 2 ^ k else q * 2 ^ k)"

definition smooth_rtt :: "u32 \<Rightarrow> u32 \<Rightarrow> u32" where
  "smooth_rtt old sample =
     (let a = f32_round (f32_round (unat old) * 53687092);
          b = f32_round (f32_round (unat sample) * 13421773)
      in word_of_nat (f32_round (a + b) div 67108864))"

section \<open>ReliablePacketState\<close>

definition AddPendingPacket ::
  "World \<Rightarrow> ptr \<Rightarrow> ReliablePacketState \<Rightarrow> bool \<times> ReliablePacketState" where
  "AddPendingPacket w opb rps =
     (let header = get_header (obuffer (packets w opb));
          seq = hSequenceNo header;
          del = seq - localWindowStart rps
      in if DEFAULT_WINDOW_COUNT32 \<le> del then (False, rps)
         else let rps1 = rps\<lparr>pendingPackets := (pendingPackets rps)[slot seq :=
                    \<lparr>pp_buffer = Some opb, pp_timeStamp = hTimestamp header,
                     pp_sequenceNo = seq, pp_isSent = False\<rparr>]\<rparr>
              in (True, if localSeqence rps1 \<le> seq then rps1\<lparr>localSeqence := seq + 1\<rparr> else rps1))"

text \<open>\<open>type_.fetch_and(~bits)\<close> on a buffer: the old value and the new store.\<close>

definition fetch_and_not :: "ptr \<Rightarrow> u32 \<Rightarrow> World \<Rightarrow> u32 \<times> World" where
  "fetch_and_not p bits w = (otype (packets w p), SetType p (otype (packets w p) AND NOT bits) w)"

text \<open>Dropping the RELIABLE mark: the buffer goes back to the pool unless the kernel still has it.\<close>

definition drop_reliable :: "ptr \<Rightarrow> World \<Rightarrow> World" where
  "drop_reliable p w =
     (let (old, w1) = fetch_and_not p (obj_type RELIABLE) w
      in if old AND obj_type SENDING = 0 then PushPacketBuffer p w1 else w1)"

function advance_window :: "PendingPacket list \<Rightarrow> u32 \<Rightarrow> u32 \<Rightarrow> u32" where
  "advance_window pend start lim =
     (if start \<noteq> lim \<and> pp_buffer (pend ! slot start) = None
      then advance_window pend (start + 1) lim else start)"
  by pat_completeness auto
termination
proof (relation "measure (\<lambda>(pend, start, lim). unat (lim - start))", goal_cases)
  case (2 pend start lim)
  then have "lim - start \<noteq> 0" by auto
  then have "unat (lim - start - 1) < unat (lim - start)"
    by (simp add: measure_unat)
  then show ?case by (simp add: algebra_simps)
qed simp

declare advance_window.simps [simp del]

definition AckProcess ::
  "u32 \<Rightarrow> ReliablePacketState \<Rightarrow> u32 \<Rightarrow> World \<Rightarrow> ReliablePacketState \<times> u32 \<times> World" where
  "AckProcess ackSeq rps rtt w =
     (let p = pendingPackets rps ! slot ackSeq
      in case pp_buffer p of
           None \<Rightarrow> (rps, rtt, w)
         | Some buf \<Rightarrow>
             if pp_sequenceNo p \<noteq> ackSeq then (rps, rtt, w)
             else let (now, w1) = GetRelativeTimeMs w;
                      rtt1 = smooth_rtt rtt (now - pp_timeStamp p);
                      rps1 = rps\<lparr>pendingPackets := (pendingPackets rps)[slot ackSeq := p\<lparr>pp_buffer := None\<rparr>]\<rparr>;
                      w2 = drop_reliable buf w1
                  in (rps1\<lparr>localWindowStart := advance_window (pendingPackets rps1)
                             (localWindowStart rps1) (localSeqence rps1)\<rparr>, rtt1, w2))"

definition IsRepeat :: "ReliablePacketState \<Rightarrow> bool" where
  "IsRepeat rps \<longleftrightarrow> localWindowStart rps \<noteq> localSeqence rps"

definition return_slot :: "nat \<Rightarrow> PendingPacket list \<times> World \<Rightarrow> PendingPacket list \<times> World" where
  "return_slot i pw =
     (case pw of (pend, w) \<Rightarrow>
       (case pp_buffer (pend ! i) of
          None \<Rightarrow> (pend, w)
        | Some buf \<Rightarrow> (pend[i := (pend ! i)\<lparr>pp_buffer := None\<rparr>], drop_reliable buf w)))"

definition ReturnBuffers :: "ReliablePacketState \<Rightarrow> World \<Rightarrow> ReliablePacketState \<times> World" where
  "ReturnBuffers rps w =
     (let (pend, w1) = fold return_slot [0..<DEFAULT_WINDOW_COUNT] (pendingPackets rps, w)
      in (rps\<lparr>pendingPackets := pend\<rparr>, w1))"

definition ReliablePacketState_Reset :: "ReliablePacketState \<Rightarrow> World \<Rightarrow> ReliablePacketState \<times> World" where
  "ReliablePacketState_Reset rps w =
     (let rps1 = (PacketStateBase_Reset rps)\<lparr>localWindowStart := 0, localSeqence := 0\<rparr>;
          (rps2, w1) = ReturnBuffers rps1 w
      in (rps2\<lparr>pendingPackets := replicate DEFAULT_WINDOW_COUNT no_pending\<rparr>, w1))"

section \<open>The window as a map\<close>

text \<open>
  The abstraction: which buffer is pending under which sequence number. The
  invariant \<open>window_ok\<close> holds as long as the 32-bit send counter has not wrapped;
  the comparison \<open>sequenceNo >= localSeqence\<close> in the code is not wrap-safe.
\<close>

definition pend_map :: "ReliablePacketState \<Rightarrow> u32 \<rightharpoonup> ptr" where
  "pend_map rps q =
     (let p = pendingPackets rps ! slot q in if pp_sequenceNo p = q then pp_buffer p else None)"

definition window_ok :: "ReliablePacketState \<Rightarrow> bool" where
  "window_ok rps \<longleftrightarrow>
     length (pendingPackets rps) = 64
     \<and> unat (localWindowStart rps) \<le> unat (localSeqence rps)
     \<and> unat (localSeqence rps) \<le> unat (localWindowStart rps) + 64
     \<and> unat (localSeqence rps) \<le> unat (sendRepeatSeq rps) + 1
     \<and> (\<forall>i < 64. \<forall>b. pp_buffer (pendingPackets rps ! i) = Some b \<longrightarrow>
          (let q = pp_sequenceNo (pendingPackets rps ! i)
           in slot q = i \<and> unat (localWindowStart rps) \<le> unat q \<and> unat q < unat (localSeqence rps)))"

lemma window_ok_new: "window_ok new_ReliablePacketState"
  by (simp add: window_ok_def new_ReliablePacketState_def no_pending_def)

lemma window_slotD:
  assumes "window_ok rps" and "i < 64" and "pp_buffer (pendingPackets rps ! i) = Some b"
  shows "slot (pp_sequenceNo (pendingPackets rps ! i)) = i"
    and "unat (localWindowStart rps) \<le> unat (pp_sequenceNo (pendingPackets rps ! i))"
    and "unat (pp_sequenceNo (pendingPackets rps ! i)) < unat (localSeqence rps)"
  using assms by (auto simp: window_ok_def Let_def)

lemma pend_map_SomeD:
  assumes "window_ok rps" and "pend_map rps q = Some b"
  shows "unat (localWindowStart rps) \<le> unat q \<and> unat q < unat (localSeqence rps)"
  using assms window_slotD(2,3) [of rps "slot q" b] by (auto simp: pend_map_def Let_def split: if_splits)

lemma advance_window_props:
  assumes "unat start \<le> unat lim"
  shows "unat start \<le> unat (advance_window pend start lim)
    \<and> unat (advance_window pend start lim) \<le> unat lim
    \<and> (\<forall>q. unat start \<le> unat q \<longrightarrow> unat q < unat (advance_window pend start lim) \<longrightarrow> pp_buffer (pend ! slot q) = None)
    \<and> (advance_window pend start lim \<noteq> lim \<longrightarrow> pp_buffer (pend ! slot (advance_window pend start lim)) \<noteq> None)"
  using assms
proof (induction pend start lim rule: advance_window.induct)
  case (1 pend start lim)
  show ?case
  proof (cases "start \<noteq> lim \<and> pp_buffer (pend ! slot start) = None")
    case True
    then have lt: "unat start < unat lim" using "1.prems" by (metis le_neq_implies_less word_unat_eq_iff)
    then have inc: "unat (start + 1) = unat start + 1" using unat_less_u32 [of lim] by (intro unat_inc) linarith
    have rec: "advance_window pend start lim = advance_window pend (start + 1) lim"
      using True by (subst advance_window.simps) simp
    have q: "unat start \<le> unat q \<Longrightarrow> q = start \<or> unat (start + 1) \<le> unat q" for q
      using inc by (metis Suc_eq_plus1 le_antisym not_less_eq_eq word_unat_eq_iff)
    show ?thesis using "1.IH" [OF True] lt inc True q unfolding rec
      by (metis Suc_eq_plus1 Suc_leI Suc_leD)
  next
    case False
    then have "advance_window pend start lim = start" by (subst advance_window.simps) auto
    then show ?thesis using False "1.prems" by auto
  qed
qed


lemma pend_map_new [simp]: "pend_map new_ReliablePacketState = Map.empty"
  by (rule ext) (simp add: pend_map_def new_ReliablePacketState_def no_pending_def)

lemma window_ok_UpdateSend:
  "window_ok rps \<Longrightarrow> unat (sendRepeatSeq rps) < 4294967295 \<Longrightarrow> window_ok (snd (UpdateSendSequenceNo rps))"
  by (simp add: window_ok_def UpdateSendSequenceNo_def unat_inc)

lemma pend_map_UpdateSend [simp]: "pend_map (snd (UpdateSendSequenceNo rps)) = pend_map rps"
  by (rule ext) (simp add: pend_map_def UpdateSendSequenceNo_def)

lemma AddPendingPacket_reject:
  assumes "unat (localWindowStart rps) + 64 \<le> unat (hSequenceNo (get_header (obuffer (packets w opb))))"
  shows "AddPendingPacket w opb rps = (False, rps)"
  using assms unat_diff_ge [of "localWindowStart rps" "hSequenceNo (get_header (obuffer (packets w opb)))"]
  by (simp add: AddPendingPacket_def Let_def word_le_nat_alt)

lemma AddPendingPacket_accept:
  fixes w opb
  defines "seq \<equiv> hSequenceNo (get_header (obuffer (packets w opb)))"
  assumes ok: "window_ok rps" and new: "unat (localSeqence rps) \<le> unat seq"
    and room: "unat seq < unat (localWindowStart rps) + 64"
    and send: "sendRepeatSeq rps = seq" and nowrap: "unat seq < 4294967295"
  obtains rps' where "AddPendingPacket w opb rps = (True, rps')"
    and "window_ok rps'" and "pend_map rps' = (pend_map rps)(seq \<mapsto> opb)"
    and "sendRepeatSeq rps' = seq" and "localSeqence rps' = seq + 1"
    and "localWindowStart rps' = localWindowStart rps"
proof -
  let ?new = "\<lparr>pp_buffer = Some opb, pp_timeStamp = hTimestamp (get_header (obuffer (packets w opb))),
                     pp_sequenceNo = seq, pp_isSent = False\<rparr>"
  let ?rps' = "rps\<lparr>pendingPackets := (pendingPackets rps)[slot seq := ?new], localSeqence := seq + 1\<rparr>"
  have ge: "unat (localWindowStart rps) \<le> unat seq" using ok new by (simp add: window_ok_def)
  then have "\<not> 64 \<le> seq - localWindowStart rps"
    using room by (simp add: word_le_nat_alt unat_diff_ge)
  then have eq: "AddPendingPacket w opb rps = (True, ?rps')"
    using new by (simp add: AddPendingPacket_def Let_def seq_def word_le_nat_alt)
  have inc: "unat (seq + 1) = unat seq + 1" using nowrap by (rule unat_inc)
  have ok': "window_ok ?rps'"
    using ok new room send ge inc
    by (auto simp: window_ok_def Let_def nth_list_update_if slot_less less_Suc_eq dest: less_le_trans)
  have other: "q \<noteq> seq \<Longrightarrow> slot q = slot seq \<Longrightarrow> pend_map rps q = None" for q
    using pend_map_SomeD [OF ok, of q] window_slot_inj [of q seq "localWindowStart rps"] ge room new
    by (cases "pend_map rps q") auto
  have len: "length (pendingPackets rps) = 64" using ok by (simp add: window_ok_def)
  have "pend_map ?rps' q = ((pend_map rps)(seq \<mapsto> opb)) q" for q
  proof (cases "slot q = slot seq")
    case True
    then show ?thesis using other [of q] len by (auto simp: pend_map_def nth_list_update_if)
  next
    case False
    then show ?thesis by (auto simp: pend_map_def nth_list_update_if)
  qed
  then have "pend_map ?rps' = (pend_map rps)(seq \<mapsto> opb)" by (rule ext)
  with eq ok' send show ?thesis by (intro that [of ?rps']) auto
qed

lemma AckProcess_unknown:
  "pend_map rps ack = None \<Longrightarrow> AckProcess ack rps rtt w = (rps, rtt, w)"
  by (auto simp: AckProcess_def pend_map_def Let_def split: option.splits if_splits)

lemma AckProcess_known:
  assumes ok: "window_ok rps" and known: "pend_map rps ack = Some buf"
  obtains rps' rtt' where "AckProcess ack rps rtt w = (rps', rtt', drop_reliable buf (snd (GetRelativeTimeMs w)))"
    and "window_ok rps'" and "pend_map rps' = (pend_map rps)(ack := None)"
    and "localSeqence rps' = localSeqence rps"  and "sendRepeatSeq rps' = sendRepeatSeq rps"
    and "localWindowStart rps' = localSeqence rps' \<or> localWindowStart rps' \<in> dom (pend_map rps')"
proof -
  let ?p = "pendingPackets rps ! slot ack"
  let ?pend = "(pendingPackets rps)[slot ack := ?p\<lparr>pp_buffer := None\<rparr>]"
  let ?start = "advance_window ?pend (localWindowStart rps) (localSeqence rps)"
  let ?rps' = "rps\<lparr>pendingPackets := ?pend, localWindowStart := ?start\<rparr>"
  have p: "pp_sequenceNo ?p = ack" "pp_buffer ?p = Some buf"
    using known by (auto simp: pend_map_def Let_def split: if_splits)
  have len: "length (pendingPackets rps) = 64" using ok by (simp add: window_ok_def)
  have eq: "AckProcess ack rps rtt w = (?rps', smooth_rtt rtt (fst (GetRelativeTimeMs w) - pp_timeStamp ?p),
      drop_reliable buf (snd (GetRelativeTimeMs w)))"
    using p by (simp add: AckProcess_def Let_def split_beta)
  have adv: "unat (localWindowStart rps) \<le> unat ?start" "unat ?start \<le> unat (localSeqence rps)"
    "\<And>q. unat (localWindowStart rps) \<le> unat q \<Longrightarrow> unat q < unat ?start \<Longrightarrow> pp_buffer (?pend ! slot q) = None"
    "?start \<noteq> localSeqence rps \<Longrightarrow> pp_buffer (?pend ! slot ?start) \<noteq> None"
    using advance_window_props [of "localWindowStart rps" "localSeqence rps" ?pend] ok
    by (auto simp: window_ok_def)
  have "pend_map ?rps' q = ((pend_map rps)(ack := None)) q" for q
    using len p by (cases "slot q = slot ack") (auto simp: pend_map_def Let_def nth_list_update_if)
  then have pm: "pend_map ?rps' = (pend_map rps)(ack := None)" by (rule ext)
  have occ: "i < 64 \<Longrightarrow> pp_buffer (?pend ! i) = Some b \<Longrightarrow> pp_buffer (pendingPackets rps ! i) = Some b
      \<and> pp_sequenceNo (?pend ! i) = pp_sequenceNo (pendingPackets rps ! i)" for i b
    using len by (auto simp: nth_list_update_if split: if_splits)
  have "window_ok ?rps'"
    unfolding window_ok_def Let_def
  proof (intro conjI allI impI)
    fix i b assume i: "i < 64" and b: "pp_buffer (pendingPackets ?rps' ! i) = Some b"
    note o = occ [OF i, of b] window_slotD [OF ok i, of b]
    show "slot (pp_sequenceNo (pendingPackets ?rps' ! i)) = i" using o b by simp
    show "unat (pp_sequenceNo (pendingPackets ?rps' ! i)) < unat (localSeqence ?rps')" using o b by simp
    show "unat (localWindowStart ?rps') \<le> unat (pp_sequenceNo (pendingPackets ?rps' ! i))"
      using o b adv(3) [of "pp_sequenceNo (pendingPackets rps ! i)"] by (intro leI notI) auto
  qed (use ok adv len in \<open>auto simp: window_ok_def\<close>)
  moreover have "?start = localSeqence rps \<or> ?start \<in> dom (pend_map ?rps')"
  proof (cases "?start = localSeqence rps")
    case False
    then obtain b where b: "pp_buffer (?pend ! slot ?start) = Some b" using adv(4) by auto
    note o = occ [OF slot_less b] window_slotD [OF ok slot_less, of ?start b]
    have lim: "unat (localSeqence rps) \<le> unat (localWindowStart rps) + 64" using ok by (simp add: window_ok_def)
    have lt: "unat ?start < unat (localSeqence rps)"
      using adv(2) False by (metis le_neq_implies_less word_unat_eq_iff)
    have "pp_sequenceNo (?pend ! slot ?start) = ?start"
      by (rule window_slot_inj [of _ _ "localWindowStart rps"]) (use o lim lt adv(1) in linarith | use o in simp)+
    then show ?thesis using b by (auto simp: pend_map_def)
  qed simp
  ultimately show ?thesis using eq pm by (intro that [of ?rps']) auto
qed

text \<open>A world in which every packet buffer carries one sequence number, for the witnesses.\<close>

definition numbered_world :: "u32 \<Rightarrow> World" where
  "numbered_world seq = (new_World default_config (\<lambda>n. of_nat n) (\<lambda>_. None))\<lparr>packets := (\<lambda>_.
     \<lparr>otype = 0, remoteAddr = \<lparr>sin_addr = 0, sin_port = 0\<rparr>, addrSize = 16, osize = 24,
      obuffer = header_bytes \<lparr>totalSize = 24, packetCode = 1, flags = 1, hSessionId = 7,
        hSequenceNo = seq, hTimestamp = 0, checksum = 0, chunkInfo = \<lparr>ci_size = 0, ci_flag = 0\<rparr>\<rparr>\<rparr>)\<rparr>"

lemma numbered_seq: "hSequenceNo (get_header (obuffer (packets (numbered_world 1) p))) = 1"
  by (simp add: numbered_world_def) code_simp

lemma first_number: "window_ok (snd (UpdateSendSequenceNo new_ReliablePacketState))"
  "sendRepeatSeq (snd (UpdateSendSequenceNo new_ReliablePacketState)) = 1"
  "localSeqence (snd (UpdateSendSequenceNo new_ReliablePacketState)) = 0"
  using window_ok_UpdateSend [OF window_ok_new]
  by (simp_all add: UpdateSendSequenceNo_def new_ReliablePacketState_def)

text \<open>
  C4. Registering a freshly numbered reliable packet for retransmission succeeds exactly
  while fewer than 64 numbers separate it from the oldest unacknowledged packet; it
  then adds that packet to the pending map and overwrites no other unacknowledged
  packet, and otherwise it changes nothing. The window invariant is kept.
\<close>

theorem AddPendingPacket_refines:
  fixes w opb
  defines "seq \<equiv> hSequenceNo (get_header (obuffer (packets w opb)))"
  assumes "window_ok rps" and "unat (localSeqence rps) \<le> unat seq"
    and "sendRepeatSeq rps = seq" and "unat seq < 4294967295"
  shows "(fst (AddPendingPacket w opb rps) \<longleftrightarrow> unat seq < unat (localWindowStart rps) + 64)
    \<and> pend_map (snd (AddPendingPacket w opb rps)) =
        (if fst (AddPendingPacket w opb rps) then (pend_map rps)(seq \<mapsto> opb) else pend_map rps)
    \<and> window_ok (snd (AddPendingPacket w opb rps))"
proof (cases "unat seq < unat (localWindowStart rps) + 64")
  case True
  obtain rps' where "AddPendingPacket w opb rps = (True, rps')" "window_ok rps'"
    "pend_map rps' = (pend_map rps)(seq \<mapsto> opb)"
    using AddPendingPacket_accept [of rps w opb] True assms unfolding seq_def by blast
  with True show ?thesis by simp
next
  case False
  then have "AddPendingPacket w opb rps = (False, rps)"
    unfolding seq_def by (intro AddPendingPacket_reject) simp
  with False assms show ?thesis by simp
qed

theorem AddPendingPacket_refines_witness:
  "fst (AddPendingPacket (numbered_world 1) 5 (snd (UpdateSendSequenceNo new_ReliablePacketState)))
   \<and> pend_map (snd (AddPendingPacket (numbered_world 1) 5 (snd (UpdateSendSequenceNo new_ReliablePacketState)))) = [1 \<mapsto> 5]"
  using AddPendingPacket_refines [of "snd (UpdateSendSequenceNo new_ReliablePacketState)" "numbered_world 1" 5]
  by (simp add: numbered_seq first_number)

text \<open>
  C5. An acknowledgement removes exactly the packet it names from the pending map (and
  nothing when no such packet is pending), keeps the invariant, and leaves the
  window starting at the oldest packet that is still unacknowledged.
\<close>

theorem AckProcess_refines:
  assumes "window_ok rps"
  shows "pend_map (fst (AckProcess ack rps rtt w)) = (pend_map rps)(ack := None)
    \<and> window_ok (fst (AckProcess ack rps rtt w))
    \<and> (pend_map rps ack \<noteq> None \<longrightarrow>
         localWindowStart (fst (AckProcess ack rps rtt w)) = localSeqence rps
         \<or> localWindowStart (fst (AckProcess ack rps rtt w)) \<in> dom (pend_map (fst (AckProcess ack rps rtt w))))"
proof (cases "pend_map rps ack")
  case None
  then show ?thesis using assms by (simp add: AckProcess_unknown fun_upd_idem)
next
  case (Some buf)
  obtain rps' rtt' where "AckProcess ack rps rtt w = (rps', rtt', drop_reliable buf (snd (GetRelativeTimeMs w)))"
    and "window_ok rps'" and "pend_map rps' = (pend_map rps)(ack := None)"
    and "localSeqence rps' = localSeqence rps"
    and "localWindowStart rps' = localSeqence rps' \<or> localWindowStart rps' \<in> dom (pend_map rps')"
    using AckProcess_known [OF assms Some] by metis
  then show ?thesis by simp
qed

theorem AckProcess_refines_witness:
  "\<exists>rps. pend_map rps = [1 \<mapsto> 5] \<and> pend_map (fst (AckProcess 1 rps 100 (numbered_world 1))) = Map.empty"
proof -
  obtain rps where "window_ok rps" "pend_map rps = (pend_map (snd (UpdateSendSequenceNo new_ReliablePacketState)))(1 \<mapsto> 5)"
    by (rule AddPendingPacket_accept [of "snd (UpdateSendSequenceNo new_ReliablePacketState)" "numbered_world 1" 5])
      (simp_all add: numbered_seq first_number)
  then show ?thesis using AckProcess_refines [of rps 1 100 "numbered_world 1"] by (intro exI [of _ rps]) auto
qed

end
