(* ===== verification/Dubu_Socket.thy ===== *)
theory Dubu_Socket
  imports Dubu_Reliable
begin

text \<open>
  \<^verbatim>\<open>RUDPSocket.h/.cpp\<close>: overlapped sends and receives. Winsock and the completion
  port are outside the program: a send appends its datagram to \<open>wire\<close> and the
  buffer to \<open>inflight\<close>, and a completion is the kernel's return of one buffer.
  Failures that the code answers with \<open>assert(false)\<close> are the fault
  \<open>AssertFailed\<close>.
\<close>

section \<open>Definitions\<close>

record RUDPSocket =
  socketValid :: bool
  isServer :: bool
  serverAddr :: SOCKADDR_IN

abbreviation (input) WSA_IO_PENDING :: nat where "WSA_IO_PENDING \<equiv> 997"

definition wsa_ok :: "World \<Rightarrow> bool" where
  "wsa_ok w \<longleftrightarrow> ioError w (ioCount w) = None \<or> ioError w (ioCount w) = Some WSA_IO_PENDING"

text \<open>No operation fails.\<close>

definition io_fine :: "World \<Rightarrow> bool" where
  "io_fine w = (\<forall>n. ioError w n = None \<or> ioError w n = Some WSA_IO_PENDING)"

text \<open>\<^verbatim>\<open>WSASendTo\<close> and \<^verbatim>\<open>WSARecvFrom\<close> with the error check that follows them.\<close>

definition WSASendTo :: "SOCKADDR_IN \<Rightarrow> ptr \<Rightarrow> World \<Rightarrow> World result" where
  "WSASendTo addr p w =
     (if wsa_ok w
      then Inr (w\<lparr>wire := wire w @ [(addr, take (unat (osize (packets w p))) (obuffer (packets w p)))],
                  inflight := inflight w @ [p], ioCount := Suc (ioCount w)\<rparr>)
      else Inl AssertFailed)"

definition WSARecvFrom :: "ptr \<Rightarrow> World \<Rightarrow> World result" where
  "WSARecvFrom p w =
     (if wsa_ok w then Inr (w\<lparr>inflight := inflight w @ [p], ioCount := Suc (ioCount w)\<rparr>)
      else Inl AssertFailed)"

definition RecvFrom :: "World \<Rightarrow> World result" where
  "RecvFrom w =
     (let (p, w1) = PopPacketBuffer w in WSARecvFrom p (SetType p (obj_type RECVEFROM) w1))"

definition SendTo :: "SOCKADDR_IN \<Rightarrow> ptr \<Rightarrow> World \<Rightarrow> World result" where
  "SendTo addr p w = WSASendTo addr p (SetType p (obj_type SENDTO) w)"

definition SendToReliable :: "SOCKADDR_IN \<Rightarrow> ptr \<Rightarrow> World \<Rightarrow> World result" where
  "SendToReliable addr p w =
     WSASendTo addr p (SetType p (obj_type SENDTO OR obj_type RELIABLE OR obj_type SENDING) w)"

definition SendToRepeat :: "SOCKADDR_IN \<Rightarrow> ptr \<Rightarrow> World \<Rightarrow> World result" where
  "SendToRepeat addr p w =
     (let w1 = OverlappedObj_Initialize p w
      in WSASendTo addr p (SetType p (otype (packets w1 p) OR obj_type SENDING) w1))"

text \<open>The handler is absent or the owner's \<^verbatim>\<open>OnRecvFrom\<close>, which takes over the buffer.\<close>

definition RecvFromComplete ::
  "(SOCKADDR_IN \<Rightarrow> ptr \<Rightarrow> u16 \<Rightarrow> 's \<times> World \<Rightarrow> ('s \<times> World) result) option
     \<Rightarrow> ptr \<Rightarrow> int \<Rightarrow> 's \<times> World \<Rightarrow> ('s \<times> World) result" where
  "RecvFromComplete handler p sz sw =
     (case sw of (s, w) \<Rightarrow>
      if sz < 0 then andThen (RecvFrom (PushPacketBuffer p w)) (\<lambda>w'. Inr (s, w'))
      else
        let recvSize = (word_of_int sz :: u16); buf = obuffer (packets w p);
            header = get_header buf;
            w1 = w\<lparr>packets := (packets w)(p := (packets w p)
                   \<lparr>obuffer := set_header (header\<lparr>checksum := 0\<rparr>) buf\<rparr>)\<rparr>
        in andThen
             (if PacketHeaderCheck buf recvSize then
                (if checksum header = CRC32 (obuffer (packets w1 p)) recvSize then
                   (case handler of
                      None \<Rightarrow> Inr (s, PushPacketBuffer p w1)
                    | Some OnRecvFrom \<Rightarrow> OnRecvFrom (remoteAddr (packets w1 p)) p recvSize (s, w1))
                 else Inr (s, PushPacketBuffer p w1))
              else Inr (s, PushPacketBuffer p w))
             (\<lambda>(s', w'). andThen (RecvFrom w') (\<lambda>w''. Inr (s', w''))))"

definition SendToComplete :: "ptr \<Rightarrow> World \<Rightarrow> World" where
  "SendToComplete p w =
     (let (prev, w1) = fetch_and_not p (obj_type SENDING) w
      in if prev AND obj_type RELIABLE \<noteq> obj_type RELIABLE then PushPacketBuffer p w1 else w1)"

text \<open>Posting the initial receives of \<^verbatim>\<open>StartServer\<close>.\<close>

fun post_receives :: "nat \<Rightarrow> World \<Rightarrow> World result" where
  "post_receives 0 w = Inr w"
| "post_receives (Suc n) w = andThen (RecvFrom w) (post_receives n)"

definition StartServer :: "RUDPSocket \<Rightarrow> World \<Rightarrow> (RUDPSocket \<times> World) result" where
  "StartServer sock w =
     andThen (post_receives (unat (g_firstClientCount (config w))) w)
       (\<lambda>w'. Inr (sock\<lparr>socketValid := True, isServer := True\<rparr>, w'))"

text \<open>
  Shutdown: \<open>posted\<close> are the completions the code posts itself, one for every buffer
  of the use list; \<open>cancelled\<close> are those the kernel queues for the operations that
  \<^verbatim>\<open>CancelIoEx\<close> aborts. Every completion dequeued returns its buffer to the pool.
\<close>

definition Closesocket :: "RUDPSocket \<Rightarrow> RUDPSocket" where
  "Closesocket sock = sock\<lparr>socketValid := False\<rparr>"

definition drain_completions :: "ptr list \<Rightarrow> World \<Rightarrow> World" where
  "drain_completions queue w = fold PushPacketBuffer queue (w\<lparr>inflight := []\<rparr>)"

definition EndServer :: "ptr list \<Rightarrow> ptr list \<Rightarrow> RUDPSocket \<Rightarrow> World \<Rightarrow> RUDPSocket \<times> World" where
  "EndServer posted cancelled sock w =
     (if \<not> isServer sock then (sock, w)
      else (Closesocket (sock\<lparr>isServer := False\<rparr>), drain_completions (posted @ cancelled) w))"

definition StartClient :: "SOCKADDR_IN \<Rightarrow> RUDPSocket \<Rightarrow> RUDPSocket" where
  "StartClient addr sock = sock\<lparr>socketValid := True, serverAddr := addr\<rparr>"

definition EndClient :: "ptr list \<Rightarrow> RUDPSocket \<Rightarrow> World \<Rightarrow> RUDPSocket \<times> World" where
  "EndClient cancelled sock w = (Closesocket sock, drain_completions cancelled w)"

definition SetSocketAddr :: "SOCKADDR_IN \<Rightarrow> RUDPSocket \<Rightarrow> RUDPSocket" where
  "SetSocketAddr addr sock = sock\<lparr>serverAddr := addr\<rparr>"

text \<open>\<^verbatim>\<open>Dispatch\<close>: the byte count of a successful completion, or -1.\<close>

definition Socket_Dispatch :: "bool \<Rightarrow> int \<Rightarrow> int" where
  "Socket_Dispatch ret bytesTransferred = (if \<not> ret then - 1 else bytesTransferred)"

section \<open>The life of a reliable buffer\<close>

text \<open>
  A reliable buffer has two users: the sender's pending window, until the packet is
  acknowledged, and the kernel, while a send is in flight. Acknowledgement,
  retransmission and completion may interleave in any order; \<open>life\<close> lists the
  steps on one buffer \<open>p\<close>, with a flag for whether the window still refers to it.
\<close>

inductive life_step :: "ptr \<Rightarrow> bool \<times> World \<Rightarrow> bool \<times> World \<Rightarrow> bool" for p where
  acknowledge: "life_step p (True, w) (False, drop_reliable p w)"
| complete: "p \<in> set (inflight w) \<Longrightarrow>
     life_step p (b, w) (b, SendToComplete p (w\<lparr>inflight := removeAll p (inflight w)\<rparr>))"
| retransmit: "otype (packets w p) AND obj_type SENDING = 0 \<Longrightarrow> SendToRepeat addr p w = Inr w' \<Longrightarrow>
     life_step p (True, w) (True, w')"

inductive life :: "ptr \<Rightarrow> SOCKADDR_IN \<Rightarrow> World \<Rightarrow> bool \<times> World \<Rightarrow> bool" for p addr w0 where
  start: "SendToReliable addr p w0 = Inr w \<Longrightarrow> life p addr w0 (True, w)"
| step: "life p addr w0 s \<Longrightarrow> life_step p s t \<Longrightarrow> life p addr w0 t"

fun life_type :: "bool \<Rightarrow> bool \<Rightarrow> u32" where
  "life_type True True = 0xFFFF0006"
| "life_type True False = 0xFFFF0002"
| "life_type False True = 0x00000006"
| "life_type False False = 0x00000002"

definition life_inv :: "ptr \<Rightarrow> bool \<times> World \<Rightarrow> bool" where
  "life_inv p s \<longleftrightarrow> (case s of (b, w) \<Rightarrow>
     otype (packets w p) = life_type b (p \<in> set (inflight w))
     \<and> (p \<in> inUse w \<longleftrightarrow> b \<or> p \<in> set (inflight w))
     \<and> count_list (pm_list (packetManager w)) p = (if b \<or> p \<in> set (inflight w) then 0 else 1))"

lemmas socket_defs = SetType_def fetch_and_not_def drop_reliable_def SendToComplete_def
  SendToRepeat_def SendToReliable_def SendTo_def WSASendTo_def WSARecvFrom_def RecvFrom_def
  OverlappedObj_Initialize_def PushPacketBuffer_def

lemma life_step_inv: "life_step p s t \<Longrightarrow> life_inv p s \<Longrightarrow> life_inv p t"
proof (induction rule: life_step.induct)
  case (acknowledge w)
  then show ?case
    by (cases "p \<in> set (inflight w)") (auto simp: life_inv_def socket_defs count_list_append)
next
  case (complete w b)
  then show ?case
    by (cases b) (auto simp: life_inv_def socket_defs count_list_append)
next
  case (retransmit w addr w')
  then show ?case
    by (cases "p \<in> set (inflight w)") (auto simp: life_inv_def socket_defs Let_def split: if_splits)
qed

lemma life_inv_reach:
  assumes "life p addr w0 s" and "p \<in> inUse w0" and "p \<notin> set (pm_list (packetManager w0))"
    and "p \<notin> set (inflight w0)"
  shows "life_inv p s"
  using assms(1)
proof (induction rule: life.induct)
  case (start w)
  then show ?case using assms(2-4)
    by (auto simp: life_inv_def socket_defs count_list_0_iff split: if_splits)
qed (rule life_step_inv)

text \<open>
  C6. Whatever the order of acknowledgements, retransmissions and completions, a reliable
  buffer stays out of the pool while the window or the kernel still refers to it,
  and once neither does it has been returned exactly once.
\<close>

theorem buffer_returned_once:
  assumes "life p addr w0 (pending, w)" and "p \<in> inUse w0" and "p \<notin> set (pm_list (packetManager w0))"
    and "p \<notin> set (inflight w0)"
  shows "(p \<in> inUse w \<longleftrightarrow> pending \<or> p \<in> set (inflight w))
    \<and> count_list (pm_list (packetManager w)) p = (if pending \<or> p \<in> set (inflight w) then 0 else 1)"
  using life_inv_reach [OF assms] by (simp add: life_inv_def)


theorem buffer_returned_once_witness:
  "\<exists>w. life 0 \<lparr>sin_addr = 1, sin_port = 2\<rparr> (snd (PopPacketBuffer (new_World default_config (\<lambda>_. 0) (\<lambda>_. None)))) (False, w)
     \<and> 0 \<notin> inUse w \<and> count_list (pm_list (packetManager w)) 0 = 1"
proof -
  let ?a = "\<lparr>sin_addr = 1, sin_port = 2\<rparr>"
  define w0 where "w0 = snd (PopPacketBuffer (new_World default_config (\<lambda>_. 0) (\<lambda>_. None)))"
  have w0: "0 \<in> inUse w0" "0 \<notin> set (pm_list (packetManager w0))" "0 \<notin> set (inflight w0)" "wsa_ok w0"
    by (simp_all add: w0_def pool_defs new_World_def ObjectPool_Pop_def wsa_ok_def)
  obtain w1 where s: "SendToReliable ?a 0 w0 = Inr w1" and i: "0 \<in> set (inflight w1)"
    using w0(4) by (simp add: socket_defs wsa_ok_def)
  have l1: "life 0 ?a w0 (True, w1)" by (rule life.start [OF s])
  define w2 where "w2 = drop_reliable 0 w1"
  have l2: "life 0 ?a w0 (False, w2)" unfolding w2_def by (rule life.step [OF l1 life_step.acknowledge])
  have i2: "0 \<in> set (inflight w2)" using i by (simp add: w2_def socket_defs Let_def)
  define w3 where "w3 = SendToComplete 0 (w2\<lparr>inflight := removeAll 0 (inflight w2)\<rparr>)"
  have l3: "life 0 ?a w0 (False, w3)" unfolding w3_def by (rule life.step [OF l2 life_step.complete [OF i2]])
  have "0 \<notin> set (inflight w3)" by (simp add: w3_def socket_defs Let_def)
  then show ?thesis using buffer_returned_once [OF l3 w0(1-3)] l3 unfolding w0_def by auto
qed

section \<open>Shutdown\<close>

lemma count_drain: "count_list (pm_list (packetManager (fold PushPacketBuffer q w))) p = count_list (pm_list (packetManager w)) p + count_list q p"
  by (induction q arbitrary: w) (auto simp: PushPacketBuffer_def count_list_append)



section \<open>Receiving\<close>

lemma upt_16: "[0..<16] = [0, 1, 2, 3, 4, 5, 6, 7, 8, 9, 10, 11, 12, 13, 14, 15]"
  by code_simp

lemma zero_checksum:
  assumes "24 \<le> length b"
  shows "set_header ((get_header b)\<lparr>checksum := 0\<rparr>) b = take 16 b @ [0, 0, 0, 0] @ drop 20 b"
proof -
  have "take 16 b = map ((!) b) [0..<16]" using assms by (intro nth_equalityI) auto
  moreover have "drop 20 b = [b ! 20, b ! 21, b ! 22, b ! 23] @ drop 24 b"
    using assms by (intro nth_equalityI) (auto simp: nth_append nth_Cons split: nat.splits)
  moreover have "le32 0 = [0, 0, 0, 0]" by (simp add: le32_def)
  ultimately show ?thesis
    by (simp add: set_header_def header_bytes_def get_header_def le_rd_at rd8_def upt_16)
qed

text \<open>What the receiver checks: the stored checksum is that of the packet with the field zeroed.\<close>

definition checksum_ok :: "bytes \<Rightarrow> u16 \<Rightarrow> bool" where
  "checksum_ok b len \<longleftrightarrow>
     checksum (get_header b) = CRC32 (set_header ((get_header b)\<lparr>checksum := 0\<rparr>) b) len"

lemma checksum_field_change:
  assumes "24 \<le> length b" "16 \<le> i" "i < 20" "v \<noteq> b ! i"
  shows "checksum (get_header (b[i := v])) \<noteq> checksum (get_header b)"
proof
  assume "checksum (get_header (b[i := v])) = checksum (get_header b)"
  then have "le32 (rd32 (b[i := v]) 16) = le32 (rd32 b 16)" by (simp add: get_header_def)
  then have "b[i := v] ! j = b ! j" if "16 \<le> j" "j < 20" for j
  proof -
    have "j = 16 \<or> j = 17 \<or> j = 18 \<or> j = 19" using that by auto
    then show ?thesis using \<open>le32 (rd32 (b[i := v]) 16) = le32 (rd32 b 16)\<close> by (auto simp: le_rd_at)
  qed
  from this [of i] show False using assms by simp
qed

lemma checksum_detects:
  assumes "24 \<le> unat len" "unat len \<le> length b" "i < unat len" "v \<noteq> b ! i" "checksum_ok b len"
  shows "\<not> checksum_ok (b[i := v]) len"
proof -
  define z where "z b = take 16 b @ [0, 0, 0, 0] @ drop 20 (b :: bytes)" for b
  have len: "24 \<le> length b" using assms by simp
  have zc: "set_header ((get_header c)\<lparr>checksum := 0\<rparr>) c = z c" if "24 \<le> length c" for c
    using that by (simp add: zero_checksum z_def)
  have ok: "checksum (get_header b) = CRC32 (z b) len"
    using assms(5) len by (simp add: checksum_ok_def zc)
  show ?thesis
  proof (cases "16 \<le> i \<and> i < 20")
    case True
    then have "z (b[i := v]) = z b" by (simp add: z_def drop_update_cancel)
    then show ?thesis using checksum_field_change [OF len, of i v] True ok assms(4) len
      by (simp add: checksum_ok_def zc)
  next
    case False
    then consider "i < 16" | j where "i = 20 + j" by (metis le_Suc_ex linorder_not_less)
    then have "z (b[i := v]) = (z b)[i := v] \<and> z b ! i = b ! i"
      using len by cases (simp_all add: z_def list_update_append take_update_swap drop_update_swap nth_append
        list_update_beyond)
    then have upd: "z (b[i := v]) = (z b)[i := v]" and zi: "z b ! i = b ! i" by auto
    note upd
    moreover have "checksum (get_header (b[i := v])) = checksum (get_header b)"
      using False by (auto simp: get_header_def rd32_def)
    moreover have "CRC32 ((z b)[i := v]) len \<noteq> CRC32 (z b) len"
      using assms zi len by (intro CRC32_update) (simp_all add: z_def)
    ultimately show ?thesis using ok len by (simp add: checksum_ok_def zc)
  qed
qed

lemma set_header_twice: "set_header h (set_header h' b) = set_header h b"
  by (simp add: set_header_def header_bytes_def le16_def le32_def)

text \<open>Writing the checksum last, as every sender does, makes a packet the receiver accepts.\<close>

lemma checksum_ok_sealed:
  assumes "checksum h = 0"
  shows "checksum_ok (set_header (h\<lparr>checksum := CRC32 (set_header h b) len\<rparr>) b') len
     \<longleftrightarrow> CRC32 (set_header h b) len = CRC32 (set_header h b') len"
proof -
  have "h\<lparr>checksum := 0\<rparr> = h" using assms by simp
  then show ?thesis by (simp add: checksum_ok_def get_set_header set_header_twice)
qed

definition sealed_packet :: bytes where
  "sealed_packet =
     (let h = \<lparr>totalSize = 24, packetCode = 1, flags = 1, hSessionId = 7, hSequenceNo = 1, hTimestamp = 0,
               checksum = 0, chunkInfo = \<lparr>ci_size = 0, ci_flag = 0\<rparr>\<rparr>
      in set_header (h\<lparr>checksum := CRC32 (set_header h []) 24\<rparr>) [])"

definition corrupt_world :: World where
  "corrupt_world = (new_World default_config (\<lambda>_. 0) (\<lambda>_. None))\<lparr>packets := (\<lambda>_. \<lparr>otype = 1,
      remoteAddr = \<lparr>sin_addr = 0, sin_port = 0\<rparr>, addrSize = 16, osize = 24, obuffer = sealed_packet[3 := 0]\<rparr>)\<rparr>"

text \<open>
  C7. A datagram whose bytes differ in one place from a packet with a valid checksum is
  dropped: the handler is not called, the buffer goes back to the pool and a new
  receive is posted.
\<close>

theorem corrupt_datagram_dropped:
  fixes w :: World and h and s
  assumes "24 \<le> unat (len :: u16)" "unat len \<le> length b" "i < unat len" "v \<noteq> b ! i" "checksum_ok b len"
    and "obuffer (packets w p) = b[i := v]"
  shows "\<exists>b'. RecvFromComplete h p (int (unat len)) (s, w) =
     andThen (RecvFrom (PushPacketBuffer p (w\<lparr>packets := (packets w)(p := (packets w p)\<lparr>obuffer := b'\<rparr>)\<rparr>)))
       (\<lambda>w'. Inr (s, w'))"
  using checksum_detects [OF assms(1-5)] assms(1,6)
  by (auto simp: RecvFromComplete_def PacketHeaderCheck_def checksum_ok_def Let_def)

theorem corrupt_datagram_dropped_witness:
  "\<exists>b'. RecvFromComplete (None :: (SOCKADDR_IN \<Rightarrow> ptr \<Rightarrow> u16 \<Rightarrow> unit \<times> World \<Rightarrow> (unit \<times> World) result) option)
      0 (int (unat (24 :: u16))) ((), corrupt_world) =
     andThen (RecvFrom (PushPacketBuffer 0 (corrupt_world\<lparr>packets := (packets corrupt_world)
         (0 := (packets corrupt_world 0)\<lparr>obuffer := b'\<rparr>)\<rparr>))) (\<lambda>w'. Inr ((), w'))"
proof (rule corrupt_datagram_dropped)
  show "24 \<le> unat (24 :: u16)" "3 < unat (24 :: u16)" by simp_all
  have "length sealed_packet = 24" by (simp add: sealed_packet_def set_header_def header_bytes_def le16_def le32_def)
  then show "unat (24 :: u16) \<le> length sealed_packet" by simp
  show "0 \<noteq> sealed_packet ! 3" by (simp add: sealed_packet_def set_header_def header_bytes_def le16_def le32_def)
  show "checksum_ok sealed_packet 24" unfolding sealed_packet_def Let_def by (subst checksum_ok_sealed) simp_all
  show "obuffer (packets corrupt_world 0) = sealed_packet[3 := 0]" by (simp add: corrupt_world_def)
qed

end
