(* ===== verification/Dubu_Chunk.thy ===== *)
theory Dubu_Chunk
  imports Dubu_Buffers
begin

text \<open>
  Reassembly of chunked packets, \<^verbatim>\<open>ChunkPacket.h/.cpp\<close>. Chunk \<open>i\<close> of a message
  carries flag bit \<open>i\<close>; the last chunk carries its own bit and every bit above
  it, so a message is complete when the sixteen bits are all set.
\<close>

section \<open>Definitions\<close>

record ChunkPacket =
  ck_buffers :: "ptr option list"
  ck_flag :: u16
  ck_size :: u16
  ck_count :: u16
  ck_isEnd :: bool

definition new_ChunkPacket :: ChunkPacket where
  "new_ChunkPacket = \<lparr>ck_buffers = replicate DEFAULT_CHUNCK_MAX_SIZE None,
     ck_flag = 0, ck_size = 0, ck_count = 0, ck_isEnd = False\<rparr>"

definition ChunkPacket_Reset :: "ChunkPacket \<Rightarrow> ChunkPacket" where
  "ChunkPacket_Reset ck =
     ck\<lparr>ck_buffers := replicate DEFAULT_CHUNCK_MAX_SIZE None, ck_count := 0, ck_isEnd := False\<rparr>"

text \<open>The scan for the lowest set bit, shared by \<open>SetBuffer\<close> and \<open>StartSequnceNum\<close>.\<close>

function lowest_bit :: "u16 \<Rightarrow> u8 \<Rightarrow> u8" where
  "lowest_bit flag count =
     (if flag = 0 \<or> bit flag 0 then count else lowest_bit (drop_bit 1 flag) (count + 1))"
  by pat_completeness auto
termination
proof (relation "measure (\<lambda>(flag, count). unat flag)", goal_cases)
  case (2 flag count)
  then have "0 < unat flag" by (simp add: unat_gt_0)
  then show ?case by (simp add: drop_bit_Suc unat_div)
qed simp

declare lowest_bit.simps [simp del]

definition SetBuffer :: "u16 \<Rightarrow> ptr \<Rightarrow> ChunkPacket \<Rightarrow> bool \<times> ChunkPacket" where
  "SetBuffer flag buf ck =
     (if ck_flag ck AND flag \<noteq> 0 then (False, ck)
      else let ck1 = ck\<lparr>ck_count := ck_count ck + 1, ck_flag := ck_flag ck OR flag\<rparr>;
               ck2 = (if flag AND DEFAULT_CHUNK_END_MASK = DEFAULT_CHUNK_END_MASK
                      then ck1\<lparr>ck_isEnd := True\<rparr> else ck1)
           in (True, if flag = 0 then ck2
                     else ck2\<lparr>ck_buffers := (ck_buffers ck2)[unat (lowest_bit flag 0) := Some buf]\<rparr>))"

definition IsPull :: "ChunkPacket \<Rightarrow> bool" where
  "IsPull ck \<longleftrightarrow> ck_isEnd ck \<and> ck_flag ck + 1 = 0"

type_synonym ChunkPacketInj = "u32 \<rightharpoonup> ChunkPacket"

definition StartSequnceNum :: "u32 \<Rightarrow> u16 \<Rightarrow> u32" where
  "StartSequnceNum seq flag = seq - ucast (lowest_bit flag 0)"

text \<open>\<open>Update\<close> returns a reference to the entry: its key, with the map it lives in.\<close>

definition Inj_Update :: "u32 \<Rightarrow> u16 \<Rightarrow> ChunkPacketInj \<Rightarrow> u32 \<times> ChunkPacketInj" where
  "Inj_Update seq flag m =
     (let key = StartSequnceNum seq flag
      in (key, case m key of None \<Rightarrow> m(key \<mapsto> new_ChunkPacket) | Some _ \<Rightarrow> m))"

definition Inj_Remove :: "u32 \<Rightarrow> u16 \<Rightarrow> ChunkPacketInj \<Rightarrow> bool \<times> ChunkPacketInj" where
  "Inj_Remove seq flag m =
     (let key = StartSequnceNum seq flag in (m key \<noteq> None, m(key := None)))"

section \<open>The flags of a message of n chunks\<close>

definition chunk_flag :: "nat \<Rightarrow> nat \<Rightarrow> u16" where
  "chunk_flag n i = (if Suc i = n then push_bit i (- 1) else push_bit i 1)"

lemma bit_chunk_flag:
  "bit (chunk_flag n i) k \<longleftrightarrow> k < 16 \<and> (if Suc i = n then i \<le> k else k = i)"
  by (auto simp: chunk_flag_def bit_simps)

lemma lowest_bit_shift:
  "j < 16 \<Longrightarrow> bit f j \<Longrightarrow> (\<And>k. k < j \<Longrightarrow> \<not> bit f k) \<Longrightarrow> lowest_bit f c = c + of_nat j"
proof (induction j arbitrary: f c)
  case 0
  then show ?case by (subst lowest_bit.simps) simp
next
  case (Suc j)
  have "f \<noteq> 0" using Suc.prems(2) by auto
  moreover have "\<not> bit f 0" using Suc.prems(3) by simp
  ultimately have "lowest_bit f c = lowest_bit (drop_bit 1 f) (c + 1)"
    by (subst lowest_bit.simps) simp
  also have "\<dots> = c + 1 + of_nat j"
    using Suc.prems by (intro Suc.IH) (auto simp: bit_simps)
  finally show ?case by (simp add: algebra_simps)
qed

lemma lowest_bit_chunk_flag: "i < 16 \<Longrightarrow> lowest_bit (chunk_flag n i) 0 = of_nat i"
  by (subst lowest_bit_shift [of i]) (auto simp: bit_chunk_flag)

lemma unat_of_nat_u8: "i < 16 \<Longrightarrow> unat (of_nat i :: u8) = i"
  by (simp add: unat_of_nat)

lemma chunk_flag_end: "i < n \<Longrightarrow> n \<le> 16 \<Longrightarrow>
    chunk_flag n i AND 0x8000 = 0x8000 \<longleftrightarrow> Suc i = n"
  using and_single_bit [of 15 "chunk_flag n i"] by (auto simp: bit_chunk_flag)

text \<open>Every chunk of a message finds the same entry: the number of the message's first chunk.\<close>

lemma StartSequnceNum_chunk: "i < 16 \<Longrightarrow> StartSequnceNum (s + of_nat i) (chunk_flag n i) = s"
  by (simp add: StartSequnceNum_def lowest_bit_chunk_flag unsigned_of_nat take_bit_nat_eq_self)

section \<open>Arrival in any order\<close>

definition collected :: "nat \<Rightarrow> (nat \<rightharpoonup> ptr) \<Rightarrow> ChunkPacket \<Rightarrow> bool" where
  "collected n m ck \<longleftrightarrow> dom m \<subseteq> {..<n} \<and> length (ck_buffers ck) = 16
     \<and> (\<forall>i < 16. ck_buffers ck ! i = m i)
     \<and> (\<forall>k < 16. bit (ck_flag ck) k \<longleftrightarrow> (\<exists>i \<in> dom m. bit (chunk_flag n i) k))
     \<and> unat (ck_count ck) = card (dom m) \<and> (ck_isEnd ck \<longleftrightarrow> n - 1 \<in> dom m)"

lemma collected_new: "collected n Map.empty new_ChunkPacket"
  by (simp add: collected_def new_ChunkPacket_def)

lemma chunk_flag_disjoint:
  assumes "collected n m ck" and "i < n" and "n \<le> 16"
  shows "ck_flag ck AND chunk_flag n i \<noteq> 0 \<longleftrightarrow> i \<in> dom m"
proof
  assume "ck_flag ck AND chunk_flag n i \<noteq> 0"
  then obtain k where k: "k < 16" "bit (ck_flag ck) k" "bit (chunk_flag n i) k"
    by (auto simp: bit_eq_iff bit_simps bit_chunk_flag)
  then obtain j where j: "j \<in> dom m" "bit (chunk_flag n j) k" using assms(1) by (auto simp: collected_def)
  have "j < n" using j(1) assms(1) by (auto simp: collected_def)
  then have "j = i" using k(3) j(2) assms(2) by (auto simp: bit_chunk_flag split: if_splits)
  then show "i \<in> dom m" using j(1) by simp
next
  assume i: "i \<in> dom m"
  have "bit (chunk_flag n i) i" using assms(2,3) by (simp add: bit_chunk_flag)
  then have "bit (ck_flag ck AND chunk_flag n i) i"
    using i assms by (auto simp: bit_simps collected_def)
  then show "ck_flag ck AND chunk_flag n i \<noteq> 0" by auto
qed

lemma SetBuffer_again:
  "collected n m ck \<Longrightarrow> i \<in> dom m \<Longrightarrow> n \<le> 16 \<Longrightarrow> SetBuffer (chunk_flag n i) b ck = (False, ck)"
  using chunk_flag_disjoint [of n m ck i] by (auto simp: SetBuffer_def collected_def)

lemma collected_SetBuffer:
  assumes col: "collected n m ck" and i: "i < n" "n \<le> 16" "i \<notin> dom m"
  shows "fst (SetBuffer (chunk_flag n i) b ck) \<and> collected n (m(i \<mapsto> b)) (snd (SetBuffer (chunk_flag n i) b ck))"
proof -
  have i16: "i < 16" using i by simp
  have low: "unat (lowest_bit (chunk_flag n i) 0) = i" using i16 by (simp add: lowest_bit_chunk_flag unat_of_nat_u8)
  have nz: "chunk_flag n i \<noteq> 0" using bit_chunk_flag [of n i i] i16 by (auto split: if_splits)
  have free: "ck_flag ck AND chunk_flag n i = 0" using chunk_flag_disjoint [OF col i(1,2)] i(3) by simp
  have fin: "finite (dom m)" "card (dom m) \<le> 16"
    using col i(2) card_mono [of "{..<n}" "dom m"] finite_subset [of "dom m" "{..<n}"] by (auto simp: collected_def)
  then have cnt: "unat (ck_count ck + 1) = card (dom (m(i \<mapsto> b)))"
    using col i(3) by (simp add: collected_def unat_word_ariths)
  have last: "(if chunk_flag n i AND 0x8000 = 0x8000 then True else ck_isEnd ck) \<longleftrightarrow> n - 1 \<in> dom (m(i \<mapsto> b))"
    using chunk_flag_end [OF i(1,2)] col i(1) by (auto simp: collected_def)
  show ?thesis
    using col i i16 low nz free cnt last
    by (auto simp: SetBuffer_def collected_def Let_def bit_simps nth_list_update_if)
qed

lemma IsPull_collected:
  assumes col: "collected n m ck" and n: "0 < n" "n \<le> 16"
  shows "IsPull ck \<longleftrightarrow> dom m = {..<n}"
proof -
  have "ck_flag ck + 1 = 0 \<longleftrightarrow> ck_flag ck = - 1" by (simp add: add_eq_0_iff2)
  also have "\<dots> \<longleftrightarrow> (\<forall>k < 16. bit (ck_flag ck) k)" by (auto simp: bit_eq_iff)
  finally have full: "ck_flag ck + 1 = 0 \<longleftrightarrow> (\<forall>k < 16. \<exists>i \<in> dom m. bit (chunk_flag n i) k)"
    using col by (simp add: collected_def)
  have sub: "dom m \<subseteq> {..<n}" using col by (simp add: collected_def)
  show ?thesis
  proof
    assume "IsPull ck"
    then have e: "n - 1 \<in> dom m" and f: "\<forall>k < 16. \<exists>i \<in> dom m. bit (chunk_flag n i) k"
      using col full by (auto simp: IsPull_def collected_def)
    have "i \<in> dom m" if "i < n" for i
    proof (cases "Suc i = n")
      case False
      have "i < 16" using \<open>i < n\<close> n by simp
      then obtain j where "j \<in> dom m" "bit (chunk_flag n j) i" using f by blast
      then show ?thesis using that False sub by (auto simp: bit_chunk_flag split: if_splits)
    qed (use e in auto)
    then show "dom m = {..<n}" using sub by auto
  next
    assume d: "dom m = {..<n}"
    have "\<exists>i \<in> dom m. bit (chunk_flag n i) k" if "k < 16" for k
      using that n unfolding d by (intro bexI [of _ "min k (n - 1)"]) (auto simp: bit_chunk_flag min_def)
    then show "IsPull ck" using full col d n by (auto simp: IsPull_def collected_def)
  qed
qed

definition receive_chunks :: "nat \<Rightarrow> (nat \<times> ptr) list \<Rightarrow> ChunkPacket" where
  "receive_chunks n arrivals = fold (\<lambda>(i, b) ck. snd (SetBuffer (chunk_flag n i) b ck)) arrivals new_ChunkPacket"

lemma collected_receive_chunks:
  assumes "n \<le> 16" "distinct (map fst arrivals)" "fst ` set arrivals \<subseteq> {..<n}"
  shows "collected n (map_of arrivals) (receive_chunks n arrivals)"
  using assms(2,3)
proof (induction arrivals rule: rev_induct)
  case (snoc a arrivals)
  obtain i b where a: "a = (i, b)" by force
  have i: "i < n" "i \<notin> dom (map_of arrivals)" using snoc.prems a by (auto simp: dom_map_of_conv_image_fst)
  have "collected n (map_of arrivals) (receive_chunks n arrivals)" using snoc by simp
  from collected_SetBuffer [OF this i(1) assms(1) i(2), of b]
  have "collected n ((map_of arrivals)(i \<mapsto> b)) (receive_chunks n (arrivals @ [a]))"
    by (simp add: receive_chunks_def a)
  moreover have "(map_of arrivals)(i \<mapsto> b) = map_of (arrivals @ [a])"
    using i(2) by (auto simp: a map_add_def fun_eq_iff split: option.splits)
  ultimately show ?case by simp
qed (simp add: receive_chunks_def collected_new)

text \<open>
  The chunks of a message of at most sixteen chunks may arrive in any order: the entry
  reports completeness exactly when every chunk has arrived, slot \<open>i\<close> then holds the
  buffer of chunk \<open>i\<close>, and the count is the number of chunks received.
\<close>

theorem chunks_reassemble:
  assumes "0 < n" "n \<le> 16" "distinct (map fst arrivals)" "fst ` set arrivals \<subseteq> {..<n}"
  shows "(IsPull (receive_chunks n arrivals) \<longleftrightarrow> fst ` set arrivals = {..<n})
    \<and> (\<forall>i < n. ck_buffers (receive_chunks n arrivals) ! i = map_of arrivals i)
    \<and> unat (ck_count (receive_chunks n arrivals)) = length arrivals"
proof -
  have col: "collected n (map_of arrivals) (receive_chunks n arrivals)"
    using assms by (intro collected_receive_chunks)
  have "card (fst ` set arrivals) = length arrivals"
    using assms(3) by (metis distinct_card length_map list.set_map)
  then show ?thesis
    using col IsPull_collected [OF col assms(1,2)] assms(2)
    by (auto simp: dom_map_of_conv_image_fst collected_def)
qed

theorem chunks_reassemble_witness:
  "IsPull (receive_chunks 3 [(2, 12), (0, 10), (1, 11)])
   \<and> ck_buffers (receive_chunks 3 [(2, 12), (0, 10), (1, 11)]) ! 1 = Some 11"
proof -
  have "{..<3 :: nat} = {2, 0, 1}" by (auto simp: numeral_3_eq_3)
  then show ?thesis using chunks_reassemble [of 3 "[(2, 12), (0, 10), (1, 11)]"] by simp
qed

end
