(* ===== verification/Dubu_Receive.thy ===== *)
theory Dubu_Receive
  imports Dubu_Socket Dubu_Chunk
begin

text \<open>
  The receive half of a connection end. \<^verbatim>\<open>Session.cpp\<close>, \<^verbatim>\<open>Client.cpp\<close> and
  \<^verbatim>\<open>InternalClient.cpp\<close> repeat the same members and the same \<^verbatim>\<open>RecvDispatch\<close>; the
  record \<open>Endpoint\<close> holds the members they share and the definitions here take the
  class's own \<^verbatim>\<open>PacketParse\<close> and \<^verbatim>\<open>RecvChunckPacket\<close> as arguments. The field
  \<open>dispatched\<close> is not in the code: it is the history of the packets that
  \<^verbatim>\<open>RecvDispatch\<close> has handed to them, which the theorems speak about.
\<close>

section \<open>Data\<close>

record Endpoint =
  rNopsNo :: PacketStateBase
  rpsNo :: ReliablePacketState
  cacheAlreadyPackets :: "CacheAlreadyPacket list"
  chunckPakcetInj :: ChunkPacketInj
  hasSocket :: bool
  addr :: SOCKADDR_IN
  endpointId :: u32
  rttMillisec :: u32
  timestamp :: u32
  isConnect :: bool
  lastPongSeq :: u32
  dispatched :: "bytes list"

type_synonym 'e consumer =
  "bytes \<Rightarrow> u16 \<Rightarrow> 'e Endpoint_scheme \<times> World \<Rightarrow> ('e Endpoint_scheme \<times> World) result"

abbreviation channel :: "'e Endpoint_scheme \<Rightarrow> nat \<Rightarrow> CacheAlreadyPacket" where
  "channel s c \<equiv> cacheAlreadyPackets s ! c"

definition upd_channel ::
  "nat \<Rightarrow> (CacheAlreadyPacket \<Rightarrow> CacheAlreadyPacket) \<Rightarrow> 'e Endpoint_scheme \<Rightarrow> 'e Endpoint_scheme" where
  "upd_channel c f s = s\<lparr>cacheAlreadyPackets := (cacheAlreadyPackets s)[c := f (channel s c)]\<rparr>"

definition upd_state ::
  "(ReliablePacketState \<Rightarrow> ReliablePacketState) \<Rightarrow> CacheAlreadyPacket \<Rightarrow> CacheAlreadyPacket" where
  "upd_state f cap = cap\<lparr>reliablePacketState := f (reliablePacketState cap)\<rparr>"

section \<open>Definitions\<close>

definition HandOn :: "'e consumer \<Rightarrow> 'e consumer" where
  "HandOn consume buffer sz sw =
     (case sw of (s, w) \<Rightarrow>
        consume buffer sz (s\<lparr>dispatched := dispatched s @ [take (unat sz) buffer]\<rparr>, w))"

text \<open>The steps on one ordered channel, in the order the code takes them.\<close>

definition bump_last :: "u32 \<Rightarrow> CacheAlreadyPacket \<Rightarrow> CacheAlreadyPacket" where
  "bump_last seq = upd_state (\<lambda>rps.
     if seq - lastRepeatSeq rps < DEFAULT_WINDOW_COUNT32 then rps\<lparr>lastRepeatSeq := seq\<rparr> else rps)"

definition keep_packet :: "u32 \<Rightarrow> ptr \<Rightarrow> u32 \<Rightarrow> CacheAlreadyPacket \<Rightarrow> CacheAlreadyPacket" where
  "keep_packet seq p now cap =
     upd_state (\<lambda>rps. rps\<lparr>cacheRepeatCount := cacheRepeatCount rps
         OR push_bit (unat (seq - recvRepeatSeq rps - 1)) 1\<rparr>)
       (cap\<lparr>cachePackets := (cachePackets cap)[slot seq :=
          \<lparr>cp_buffer = Some p, cp_timeStamp = now, cp_sequenceNo = seq, cp_isKeep = True\<rparr>]\<rparr>)"

definition accept_next :: "u32 \<Rightarrow> CacheAlreadyPacket \<Rightarrow> CacheAlreadyPacket" where
  "accept_next seq = upd_state (\<lambda>rps.
     UpdateRecvSequenceNo seq (rps\<lparr>cacheRepeatCount := drop_bit 1 (cacheRepeatCount rps)\<rparr>))"

definition release_kept :: "u32 \<Rightarrow> CacheAlreadyPacket \<Rightarrow> CacheAlreadyPacket" where
  "release_kept idx cap =
     upd_state (\<lambda>rps. rps\<lparr>recvRepeatSeq := recvRepeatSeq rps + 1,
         cacheRepeatCount := drop_bit 1 (cacheRepeatCount rps)\<rparr>)
       (cap\<lparr>cachePackets := (cachePackets cap)[slot idx :=
          (cachePackets cap ! slot idx)\<lparr>cp_isKeep := False, cp_buffer := None\<rparr>]\<rparr>)"

definition level_last :: "CacheAlreadyPacket \<Rightarrow> CacheAlreadyPacket" where
  "level_last = upd_state (\<lambda>rps. rps\<lparr>lastRepeatSeq := recvRepeatSeq rps\<rparr>)"

text \<open>
  The loop over packets that arrived early. It makes at most 63 turns, because
  \<open>lastRepeatSeq\<close> is less than 64 ahead; \<open>drain_cache\<close> spends one unit of fuel per
  turn and the theorems show that 64 is enough.
\<close>

fun drain_cache :: "'e consumer \<Rightarrow> nat \<Rightarrow> nat \<Rightarrow> u32 \<Rightarrow> 'e Endpoint_scheme \<times> World
    \<Rightarrow> ('e Endpoint_scheme \<times> World) result" where
  "drain_cache parse c 0 idx sw = Inl LoopBound"
| "drain_cache parse c (Suc n) idx (s, w) =
     (if idx = lastRepeatSeq (reliablePacketState (channel s c)) then Inr (s, w)
      else let idx1 = idx + 1; cp = cachePackets (channel s c) ! slot idx1
           in if \<not> cp_isKeep cp \<or> cp_sequenceNo cp \<noteq> idx1 then Inr (s, w)
              else (case cp_buffer cp of
                      None \<Rightarrow> Inl NullPointer
                    | Some p \<Rightarrow>
                        andThen (HandOn parse (cbuffer (caches w p)) (csize (caches w p)) (s, w))
                          (\<lambda>(s1, w1).
                            case cp_buffer (cachePackets (channel s1 c) ! slot idx1) of
                              None \<Rightarrow> Inl NullPointer
                            | Some p1 \<Rightarrow> drain_cache parse c n idx1
                                (upd_channel c (release_kept idx1) s1, Cache_PushPacketBuffer p1 w1))))"

definition RecvOrdered :: "'e consumer \<Rightarrow> bytes \<Rightarrow> u16 \<Rightarrow> 'e Endpoint_scheme \<Rightarrow> World
    \<Rightarrow> (bool \<times> 'e Endpoint_scheme \<times> World) result" where
  "RecvOrdered parse buffer sz s w =
     (let header = get_header buffer; seq = hSequenceNo header;
          channelID = channel_of (flags header); c = unat channelID
      in if g_channelMask (config w) < ucast channelID then Inr (False, s, w)
         else if length (cacheAlreadyPackets s) \<le> c then Inl OutOfRange
         else let cap = channel s c; rps = reliablePacketState cap
              in if recvRepeatSeq rps - seq < DEFAULT_WINDOW_COUNT32 then Inr (True, s, w)
                 else if seq \<noteq> recvRepeatSeq rps + 1 then
                   (if DEFAULT_WINDOW_COUNT32 \<le> seq - recvRepeatSeq rps then Inr (False, s, w)
                    else let s1 = upd_channel c (bump_last seq) s;
                             cp = cachePackets (channel s1 c) ! slot seq
                         in if cp_isKeep cp \<and> cp_sequenceNo cp = seq then Inr (True, s1, w)
                            else let (p, w1) = Cache_PopPacketBuffer w
                                 in andThen (CachePacketBuffer_Copy p buffer sz w1)
                                      (\<lambda>w2. let (now, w3) = GetRelativeTimeMs w2
                                            in Inr (True, upd_channel c (keep_packet seq p now) s1, w3)))
                 else
                   andThen (HandOn parse buffer sz (s, w))
                     (\<lambda>(s1, w1). andThen
                        (drain_cache parse c DEFAULT_WINDOW_COUNT seq (upd_channel c (accept_next seq) s1, w1))
                        (\<lambda>(s2, w2). Inr (True,
                           if recvRepeatSeq rps = lastRepeatSeq rps then upd_channel c level_last s2 else s2,
                           w2))))"

text \<open>Unordered reliable packets: a bit per number above \<open>recvRepeatSeq\<close>.\<close>

function skip_received :: "u64 \<Rightarrow> u32 \<Rightarrow> u64 \<times> u32" where
  "skip_received bits recv =
     (if bit bits 0 then skip_received (drop_bit 1 bits) (recv + 1) else (bits, recv))"
  by pat_completeness auto
termination
proof (relation "measure (\<lambda>(bits, recv). unat bits)", goal_cases)
  case (2 bits recv)
  then have "bits \<noteq> 0" by auto
  then have "0 < unat bits" by (simp add: unat_gt_0)
  then show ?case by (simp add: drop_bit_Suc unat_div)
qed simp

declare skip_received.simps [simp del]

definition RecvUnordered :: "'e consumer \<Rightarrow> 'e consumer \<Rightarrow> bytes \<Rightarrow> u16 \<Rightarrow> 'e Endpoint_scheme \<Rightarrow> World
    \<Rightarrow> (bool \<times> 'e Endpoint_scheme \<times> World) result" where
  "RecvUnordered parse chunk buffer sz s w =
     (let header = get_header buffer; seq = hSequenceNo header;
          consume = (if flags header AND flag_value CHUNK = 0 then parse else chunk);
          rps = rpsNo s
      in if recvRepeatSeq rps - seq < DEFAULT_WINDOW_COUNT32 then Inr (True, s, w)
         else if seq \<noteq> recvRepeatSeq rps + 1 then
           let del = seq - recvRepeatSeq rps
           in if DEFAULT_WINDOW_COUNT32 \<le> del then Inr (False, s, w)
              else let rps1 = (if seq - lastRepeatSeq rps < DEFAULT_WINDOW_COUNT32
                               then rps\<lparr>lastRepeatSeq := seq\<rparr> else rps);
                       k = unat (del - 1)
                   in if bit (cacheRepeatCount rps1) k then Inr (True, s\<lparr>rpsNo := rps1\<rparr>, w)
                      else andThen
                        (HandOn consume buffer sz
                          (s\<lparr>rpsNo := rps1\<lparr>cacheRepeatCount := cacheRepeatCount rps1 OR push_bit k 1\<rparr>\<rparr>, w))
                        (\<lambda>(s1, w1). Inr (True, s1, w1))
         else
           let rps1 = UpdateRecvSequenceNo seq rps;
               rps2 = rps1\<lparr>cacheRepeatCount := drop_bit 1 (cacheRepeatCount rps1)\<rparr>
           in andThen (HandOn consume buffer sz (s\<lparr>rpsNo := rps2\<rparr>, w))
                (\<lambda>(s1, w1).
                  let (bits, recv) = skip_received (cacheRepeatCount (rpsNo s1)) (recvRepeatSeq (rpsNo s1));
                      rps3 = (rpsNo s1)\<lparr>cacheRepeatCount := bits, recvRepeatSeq := recv\<rparr>
                  in Inr (True,
                       s1\<lparr>rpsNo := (if recvRepeatSeq rps = lastRepeatSeq rps
                                    then rps3\<lparr>lastRepeatSeq := recv\<rparr> else rps3)\<rparr>, w1)))"

definition RecvUnreliable :: "'e consumer \<Rightarrow> bytes \<Rightarrow> u16 \<Rightarrow> 'e Endpoint_scheme \<Rightarrow> World
    \<Rightarrow> (bool \<times> 'e Endpoint_scheme \<times> World) result" where
  "RecvUnreliable parse buffer sz s w =
     (let seq = hSequenceNo (get_header buffer); del = seq - recvRepeatSeq (rNopsNo s)
      in if del = 0 \<or> NO_REPEAT_ACCEPT_RANGE \<le> del then Inr (False, s, w)
         else andThen (HandOn parse buffer sz (s, w))
                (\<lambda>(s1, w1). Inr (True, s1\<lparr>rNopsNo := UpdateRecvSequenceNo seq (rNopsNo s1)\<rparr>, w1)))"

definition RecvDispatch :: "'e consumer \<Rightarrow> 'e consumer \<Rightarrow> bytes \<Rightarrow> u16 \<Rightarrow> 'e Endpoint_scheme \<Rightarrow> World
    \<Rightarrow> (bool \<times> 'e Endpoint_scheme \<times> World) result" where
  "RecvDispatch parse chunk buffer sz s w =
     (let header = get_header buffer; (now, w1) = GetRelativeTimeMs w; s1 = s\<lparr>timestamp := now\<rparr>
      in if has_flag (flags header) REPEAT then
           (if 0 < flags header AND flag_value CHANNEL then RecvOrdered parse buffer sz s1 w1
            else RecvUnordered parse chunk buffer sz s1 w1)
         else RecvUnreliable parse buffer sz s1 w1)"

end
