(* ===== verification/Dubu_Send.thy ===== *)
theory Dubu_Send
  imports Dubu_Receive
begin

text \<open>
  The send half of a connection end, shared by \<^verbatim>\<open>Session.cpp\<close>, \<^verbatim>\<open>Client.cpp\<close> and
  \<^verbatim>\<open>InternalClient.cpp\<close>: building a packet, numbering it, registering it for
  retransmission, splitting what does not fit, retransmitting, acknowledging,
  reassembling chunks, and resetting. The three classes differ in what they do when
  the window of unacknowledged packets is full; that is the argument \<open>overflow\<close>.
  Each operation runs under the owner's lock and is one atomic step here.
\<close>

type_synonym 'e step = "'e Endpoint_scheme \<times> World \<Rightarrow> ('e Endpoint_scheme \<times> World) result"

section \<open>Building a packet\<close>

definition opt_flags :: "PacketOpctions \<Rightarrow> u8" where
  "opt_flags opt =
     (if reliable opt then flag_value REPEAT OR
        (if order opt then flag_value CHANNEL OR push_bit 3 (channelID opt)
         else if isChunck opt then flag_value CHUNK else 0)
      else flag_value NONE)"

text \<open>
  \<^verbatim>\<open>UpdateSendSequenceNo\<close> on the state the options select; the channel id indexes a vector
  without a check.
\<close>

definition next_sequence ::
  "PacketOpctions \<Rightarrow> 'e Endpoint_scheme \<Rightarrow> (u32 \<times> 'e Endpoint_scheme) result" where
  "next_sequence opt s =
     (if reliable opt then
        (if order opt then
           let c = unat (channelID opt)
           in if length (cacheAlreadyPackets s) \<le> c then Inl OutOfRange
              else let (seq, rps) = UpdateSendSequenceNo (reliablePacketState (channel s c))
                   in Inr (seq, upd_channel c (upd_state (\<lambda>_. rps)) s)
         else let (seq, rps) = UpdateSendSequenceNo (rpsNo s) in Inr (seq, s\<lparr>rpsNo := rps\<rparr>))
      else let (seq, ps) = UpdateSendSequenceNo (rNopsNo s) in Inr (seq, s\<lparr>rNopsNo := ps\<rparr>))"

text \<open>
  The bytes of the packet, written over whatever the pooled buffer held: header fields,
  sub-header (none is the empty list), payload, and last the checksum.
\<close>

definition fill_packet ::
  "PacketOpctions \<Rightarrow> u8 \<Rightarrow> u16 \<Rightarrow> u32 \<Rightarrow> u32 \<Rightarrow> u32 \<Rightarrow> bytes \<Rightarrow> bytes \<Rightarrow> bytes \<Rightarrow> u16 \<times> bytes" where
  "fill_packet opt code sz seq ident now payload sub buf =
     (let h0 = get_header buf;
          h1 = h0\<lparr>flags := opt_flags opt, hSequenceNo := seq,
                  chunkInfo := (if reliable opt \<and> \<not> order opt \<and> isChunck opt
                    then \<lparr>ci_size = chunckTotal opt, ci_flag = chunckFlag opt\<rparr> else chunkInfo h0),
                  checksum := 0, totalSize := 24 + sz, hSessionId := ident, hTimestamp := now,
                  packetCode := code\<rparr>;
          h2 = (if sub = [] then h1
                else h1\<lparr>packetCode := code OR push_bit 5 (sub_type sub),
                        totalSize := totalSize h1 + of_nat (length sub)\<rparr>);
          b1 = memcpy_at sizeof_PacketHeader sub (set_header h2 buf);
          b2 = memcpy_at (sizeof_PacketHeader + length sub) (take (unat sz) payload) b1
      in (totalSize h2, set_header (h2\<lparr>checksum := CRC32 b2 (totalSize h2)\<rparr>) b2))"

definition register_pending ::
  "PacketOpctions \<Rightarrow> ptr \<Rightarrow> World \<Rightarrow> 'e Endpoint_scheme \<Rightarrow> bool \<times> 'e Endpoint_scheme" where
  "register_pending opt p w s =
     (if order opt then
        let c = unat (channelID opt); (ok, rps) = AddPendingPacket w p (reliablePacketState (channel s c))
        in (ok, upd_channel c (upd_state (\<lambda>_. rps)) s)
      else let (ok, rps) = AddPendingPacket w p (rpsNo s) in (ok, s\<lparr>rpsNo := rps\<rparr>))"

section \<open>Sending\<close>

definition store_packet :: "ptr \<Rightarrow> u16 \<Rightarrow> bytes \<Rightarrow> World \<Rightarrow> World" where
  "store_packet p n b w = w\<lparr>packets := (packets w)(p := (packets w p)\<lparr>obuffer := b, osize := n\<rparr>)\<rparr>"

definition transmit :: "(ptr \<Rightarrow> 'e step) \<Rightarrow> PacketOpctions \<Rightarrow> ptr \<Rightarrow> 'e step" where
  "transmit overflow opt p sw =
     (case sw of (s, w) \<Rightarrow>
      if reliable opt then
        (case register_pending opt p w s of (ok, s1) \<Rightarrow>
           if ok then andThen (SendToReliable (addr s1) p w) (\<lambda>w1. Inr (s1, w1)) else overflow p (s1, w))
      else andThen (SendTo (addr s) p w) (\<lambda>w1. Inr (s, w1)))"

text \<open>
  \<^verbatim>\<open>SendPacket\<close> for a packet that fits. It is also what \<^verbatim>\<open>SendPacketChunk\<close> calls; a
  chunk that does not fit would make the two call each other without end, which is the
  fault \<open>LoopBound\<close>.
\<close>

definition SendOne :: "(ptr \<Rightarrow> 'e step) \<Rightarrow> bytes \<Rightarrow> u8 \<Rightarrow> u16 \<Rightarrow> PacketOpctions \<Rightarrow> bytes \<Rightarrow> 'e step" where
  "SendOne overflow payload code sz opt sub sw =
     (case sw of (s, w) \<Rightarrow>
      if PACKET_MAX_SIZE < unat sz + length sub + sizeof_PacketHeader then Inl LoopBound
      else let (p, w1) = PopPacketBuffer w
        in andThen (next_sequence opt s) (\<lambda>(seq, s1).
             if length payload < unat sz then Inl BufferOverrun
             else let (now, w2) = GetRelativeTimeMs w1;
                      (n, b) = fill_packet opt code sz seq (endpointId s1) now payload sub (obuffer (packets w2 p))
                  in transmit overflow opt p (s1, store_packet p n b w2)))"

text \<open>The loop of \<^verbatim>\<open>SendPacketChunk\<close>: \<open>i\<close> chunks are sent, \<open>Suc k\<close> remain.\<close>

fun send_chunks :: "(ptr \<Rightarrow> 'e step) \<Rightarrow> bytes \<Rightarrow> u8 \<Rightarrow> u16 \<Rightarrow> u16 \<Rightarrow> bytes \<Rightarrow> nat \<Rightarrow> nat \<Rightarrow> u16 \<Rightarrow> 'e step" where
  "send_chunks overflow payload code sz chunckSize sub 0 i lastBit sw = Inr sw"
| "send_chunks overflow payload code sz chunckSize sub (Suc k) i lastBit sw =
     (let rest = sz mod chunckSize;
          opt = (mk_opt True False 0)\<lparr>isChunck := True, chunckTotal := sz,
                  chunckFlag := (if k = 0 then lastBit else push_bit i 1)\<rparr>;
          sendSize = (if k = 0 \<and> 0 < rest then rest else chunckSize);
          lastBit1 = (if k = 0 then lastBit else push_bit 1 lastBit)
      in andThen (SendOne overflow (drop (i * unat chunckSize) payload) code sendSize opt sub sw)
           (send_chunks overflow payload code sz chunckSize sub k (Suc i) lastBit1))"

definition SendPacketChunk :: "(ptr \<Rightarrow> 'e step) \<Rightarrow> bytes \<Rightarrow> u8 \<Rightarrow> u16 \<Rightarrow> bytes \<Rightarrow> 'e step" where
  "SendPacketChunk overflow payload code sz sub sw =
     (let chunckSize = 1000 - of_nat (length sub)
      in if chunckSize = 0 then Inl DivideByZero
         else let count = sz div chunckSize + (if 0 < sz mod chunckSize then 1 else 0)
              in send_chunks overflow payload code sz chunckSize sub (unat count) 0 (NOT 0) sw)"

definition SendPacket :: "(ptr \<Rightarrow> 'e step) \<Rightarrow> bytes \<Rightarrow> u8 \<Rightarrow> u16 \<Rightarrow> PacketOpctions \<Rightarrow> bytes \<Rightarrow> 'e step" where
  "SendPacket overflow payload code sz opt sub sw =
     (if \<not> hasSocket (fst sw) then Inr sw
      else if PACKET_MAX_SIZE < unat sz + length sub + sizeof_PacketHeader
      then SendPacketChunk overflow payload code sz sub sw
      else SendOne overflow payload code sz opt sub sw)"

text \<open>A packet that is only a header: \<open>f\<close> writes the fields, the checksum is computed last.\<close>

definition seal_header :: "ptr \<Rightarrow> (PacketHeader \<Rightarrow> PacketHeader) \<Rightarrow> World \<Rightarrow> World" where
  "seal_header p f w =
     (let b = obuffer (packets w p);
          h = (f (get_header b))\<lparr>checksum := 0, totalSize := of_nat sizeof_PacketHeader\<rparr>;
          b1 = set_header h b
      in store_packet p (totalSize h) (set_header (h\<lparr>checksum := CRC32 b1 (totalSize h)\<rparr>) b1) w)"

definition send_header :: "SOCKADDR_IN \<Rightarrow> (PacketHeader \<Rightarrow> PacketHeader) \<Rightarrow> World \<Rightarrow> World result" where
  "send_header to f w = (let (p, w1) = PopPacketBuffer w in SendTo to p (seal_header p f w1))"

definition ack_flags :: "PacketOpctions \<Rightarrow> u8" where
  "ack_flags opt =
     (if order opt then flag_value ACK OR flag_value CHANNEL OR push_bit 3 (channelID opt) else flag_value ACK)"

section \<open>Acknowledgements and retransmission\<close>

definition RecvDispatchACK :: "bytes \<Rightarrow> u16 \<Rightarrow> 'e Endpoint_scheme \<Rightarrow> World
    \<Rightarrow> (bool \<times> 'e Endpoint_scheme \<times> World) result" where
  "RecvDispatchACK buffer sz s w =
     (let header = get_header buffer; ackSeq = hSequenceNo header
      in if \<not> isConnect s then Inr (False, s, w)
         else if flags header AND flag_value CHANNEL \<noteq> 0 then
           let c = unat (channel_of (flags header))
           in if length (cacheAlreadyPackets s) \<le> c then Inl OutOfRange
              else let (rps, rtt, w1) = AckProcess ackSeq (reliablePacketState (channel s c)) (rttMillisec s) w
                   in Inr (True, upd_channel c (upd_state (\<lambda>_. rps)) (s\<lparr>rttMillisec := rtt\<rparr>), w1)
         else let (rps, rtt, w1) = AckProcess ackSeq (rpsNo s) (rttMillisec s) w
              in Inr (True, s\<lparr>rpsNo := rps, rttMillisec := rtt\<rparr>, w1))"

function repeat_from :: "SOCKADDR_IN \<Rightarrow> u32 \<Rightarrow> u32 \<Rightarrow> u32 \<Rightarrow> u32 \<Rightarrow> PendingPacket list \<times> World
    \<Rightarrow> (PendingPacket list \<times> World) result" where
  "repeat_from to resendDelay now lim current pw =
     (if current = lim then Inr pw
      else andThen
        (case pw of (pend, w) \<Rightarrow>
           (case pp_buffer (pend ! slot current) of
              None \<Rightarrow> Inr (pend, w)
            | Some p \<Rightarrow>
                if otype (packets w p) AND obj_type SENDING = 0
                   \<and> resendDelay \<le> now - pp_timeStamp (pend ! slot current)
                then andThen (SendToRepeat to p w)
                  (\<lambda>w1. Inr (pend[slot current := (pend ! slot current)\<lparr>pp_timeStamp := now\<rparr>], w1))
                else Inr (pend, w)))
        (repeat_from to resendDelay now lim (current + 1)))"
  by pat_completeness auto
termination
proof (relation "measure (\<lambda>(to, d, now, lim, current, pw). unat (lim - current))", goal_cases)
  case (2 to d now lim current pw x)
  then have "unat (lim - current - 1) < unat (lim - current)" by (simp add: measure_unat)
  then show ?case by (simp add: algebra_simps)
qed simp

declare repeat_from.simps [simp del]

definition RepeatMessage :: "SOCKADDR_IN \<Rightarrow> u32 \<Rightarrow> u32 \<Rightarrow> ReliablePacketState \<times> World
    \<Rightarrow> (ReliablePacketState \<times> World) result" where
  "RepeatMessage to resendDelay now rw =
     (case rw of (rps, w) \<Rightarrow>
        andThen (repeat_from to resendDelay now (localSeqence rps) (localWindowStart rps) (pendingPackets rps, w))
          (\<lambda>(pend, w1). Inr (rps\<lparr>pendingPackets := pend\<rparr>, w1)))"

definition repeat_if_pending :: "SOCKADDR_IN \<Rightarrow> u32 \<Rightarrow> u32 \<Rightarrow> ReliablePacketState \<times> World
    \<Rightarrow> (ReliablePacketState \<times> World) result" where
  "repeat_if_pending to resendDelay now rw =
     (if IsRepeat (fst rw) then RepeatMessage to resendDelay now rw else Inr rw)"

fun over_channels :: "(CacheAlreadyPacket \<times> World \<Rightarrow> (CacheAlreadyPacket \<times> World) result) \<Rightarrow> nat list \<Rightarrow> 'e step" where
  "over_channels f [] sw = Inr sw"
| "over_channels f (c # cs) (s, w) =
     (if length (cacheAlreadyPackets s) \<le> c then Inl OutOfRange
      else andThen (f (channel s c, w)) (\<lambda>(cap, w1). over_channels f cs (upd_channel c (\<lambda>_. cap) s, w1)))"

definition repeat_channel :: "SOCKADDR_IN \<Rightarrow> u32 \<Rightarrow> u32 \<Rightarrow> CacheAlreadyPacket \<times> World
    \<Rightarrow> (CacheAlreadyPacket \<times> World) result" where
  "repeat_channel to resendDelay now cw =
     (case cw of (cap, w) \<Rightarrow>
        andThen (repeat_if_pending to resendDelay now (reliablePacketState cap, w))
          (\<lambda>(rps, w1). Inr (cap\<lparr>reliablePacketState := rps\<rparr>, w1)))"

definition RepeatMessageAll :: "u32 \<Rightarrow> 'e step" where
  "RepeatMessageAll resendDelay sw =
     (case sw of (s, w) \<Rightarrow>
       (let (now, w1) = GetRelativeTimeMs w
        in andThen (repeat_if_pending (addr s) resendDelay now (rpsNo s, w1))
             (\<lambda>(rps, w2). over_channels (repeat_channel (addr s) resendDelay now)
                [0..<Suc (unat (g_channelMask (config w)))] (s\<lparr>rpsNo := rps\<rparr>, w2))))"

section \<open>Parsing and reassembly\<close>

text \<open>
  The registered handlers of a packet code are application code. The verifier is given the
  bytes after the headers and the length the code passes, \<open>size - offset\<close> in
  unsigned arithmetic.
\<close>

record 'e PacketHandler =
  verifier :: "(bytes \<Rightarrow> u32 \<Rightarrow> bool) option"
  handler :: "(bytes \<Rightarrow> u16 \<Rightarrow> 'e step) option"
  handler2 :: "(bytes \<Rightarrow> u16 \<Rightarrow> bytes \<Rightarrow> u8 \<Rightarrow> 'e step) option"

type_synonym 'e handlers = "(u8 \<rightharpoonup> 'e PacketHandler) option"

definition parse_handlers :: "'e handlers \<Rightarrow> bytes \<Rightarrow> u16 \<Rightarrow> 'e step" where
  "parse_handlers hs buffer sz sw =
     (let header = get_header buffer;
          shType = drop_bit 5 (packetCode header);
          code = packetCode header AND 0x1F;
          offset = sizeof_PacketHeader + (if 0 < shType then unat (GetSize buffer sizeof_PacketHeader) else 0)
      in case hs of
           None \<Rightarrow> Inr sw
         | Some table \<Rightarrow>
             (case table code of
                None \<Rightarrow> Inr sw
              | Some h \<Rightarrow>
                  (case verifier h of
                     None \<Rightarrow> Inl BadFunctionCall
                   | Some verify \<Rightarrow>
                       if \<not> verify (drop offset buffer) (ucast sz - of_nat offset) then Inr sw
                       else if 0 < shType then
                         (case handler2 h of
                            None \<Rightarrow> Inl BadFunctionCall
                          | Some f \<Rightarrow> f buffer sz (drop sizeof_PacketHeader buffer) shType sw)
                       else (case handler h of
                               None \<Rightarrow> Inl BadFunctionCall
                             | Some f \<Rightarrow> f buffer sz sw))))"

text \<open>
  Copying the collected chunks into the big block of \<open>cap\<close> bytes. The first keeps its
  header, the others lose \<open>headerSize\<close> bytes; each buffer goes back to the pool.
\<close>

fun assemble :: "u16 \<Rightarrow> nat \<Rightarrow> ptr option list \<Rightarrow> nat \<Rightarrow> nat \<Rightarrow> bytes \<Rightarrow> World \<Rightarrow> (bytes \<times> World) result" where
  "assemble headerSize cap bufs 0 i acc w = Inr (acc, w)"
| "assemble headerSize cap bufs (Suc n) i acc w =
     (if length bufs \<le> i then Inl OutOfRange
      else case bufs ! i of
             None \<Rightarrow> Inl NullPointer
           | Some p \<Rightarrow>
               let skip = (if 0 < i then unat headerSize else 0);
                   len = unat (csize (caches w p));
                   part = drop skip (take len (cbuffer (caches w p)))
               in if len < skip \<or> cap < length acc + length part then Inl BufferOverrun
                  else assemble headerSize cap bufs n (Suc i) (acc @ part) (Cache_PushPacketBuffer p w))"

definition store_chunk :: "bytes \<Rightarrow> u16 \<Rightarrow> 'e Endpoint_scheme \<Rightarrow> World
    \<Rightarrow> (ChunkPacket \<times> 'e Endpoint_scheme \<times> World) result" where
  "store_chunk buffer sz s w =
     (let header = get_header buffer; flag = ci_flag (chunkInfo header);
          (key, inj1) = Inj_Update (hSequenceNo header) flag (chunckPakcetInj s);
          (p, w1) = Cache_PopPacketBuffer w
      in andThen (CachePacketBuffer_Copy p buffer sz w1) (\<lambda>w2.
           let ck = (snd (SetBuffer flag p (the (inj1 key))))\<lparr>ck_size := ci_size (chunkInfo header)\<rparr>
           in Inr (ck, s\<lparr>chunckPakcetInj := inj1(key \<mapsto> ck)\<rparr>, w2)))"

definition deliver_chunks :: "(bytes \<Rightarrow> u16 \<Rightarrow> 'e step) \<Rightarrow> bytes \<Rightarrow> ChunkPacket \<Rightarrow> 'e step" where
  "deliver_chunks parse buffer ck sw =
     (case sw of (s, w) \<Rightarrow>
       (let header = get_header buffer;
            headerSize = of_nat sizeof_PacketHeader +
              (if 0 < drop_bit 5 (packetCode header) then ucast (GetSize buffer sizeof_PacketHeader) else 0)
        in andThen (PopBig (ck_size ck + headerSize) w) (\<lambda>(big, w1).
             andThen (assemble headerSize (unat (ck_size ck + headerSize)) (ck_buffers ck)
                 (unat (ck_count ck)) 0 [] w1) (\<lambda>(message, w2).
               andThen (parse message (of_nat (length message)) (s, w2)) (\<lambda>(s1, w3).
                 andThen (PushBig big w3) (\<lambda>w4.
                   Inr (s1\<lparr>chunckPakcetInj := snd (Inj_Remove (hSequenceNo header)
                     (ci_flag (chunkInfo header)) (chunckPakcetInj s1))\<rparr>, w4)))))))"

definition RecvChunckPacket :: "(bytes \<Rightarrow> u16 \<Rightarrow> 'e step) \<Rightarrow> bytes \<Rightarrow> u16 \<Rightarrow> 'e step" where
  "RecvChunckPacket parse buffer sz sw =
     (case sw of (s, w) \<Rightarrow>
      if \<not> has_flag (flags (get_header buffer)) CHUNK then Inr (s, w)
      else andThen (store_chunk buffer sz s w) (\<lambda>(ck, s1, w1).
             if IsPull ck then deliver_chunks parse buffer ck (s1, w1) else Inr (s1, w1)))"

section \<open>Resetting\<close>

definition reset_slot :: "nat \<Rightarrow> CachePacket list \<times> World \<Rightarrow> CachePacket list \<times> World" where
  "reset_slot i cw =
     (case cw of (cps, w) \<Rightarrow>
       (case cp_buffer (cps ! i) of
          None \<Rightarrow> (cps, w)
        | Some p \<Rightarrow> (cps[i := no_cache], Cache_PushPacketBuffer p w)))"

definition reset_channel :: "CacheAlreadyPacket \<times> World \<Rightarrow> (CacheAlreadyPacket \<times> World) result" where
  "reset_channel cw =
     (case cw of (cap, w) \<Rightarrow>
       (let (rps, w1) = ReliablePacketState_Reset (reliablePacketState cap) w;
            (cps, w2) = fold reset_slot [0..<DEFAULT_WINDOW_COUNT] (cachePackets cap, w1)
        in Inr (\<lparr>reliablePacketState = rps, cachePackets = cps\<rparr>, w2)))"

definition reset_states :: "'e step" where
  "reset_states sw =
     (case sw of (s, w) \<Rightarrow>
       (let (rps, w1) = ReliablePacketState_Reset (rpsNo s) w
        in over_channels reset_channel [0..<Suc (unat (g_channelMask (config w)))]
             (s\<lparr>rNopsNo := PacketStateBase_Reset (rNopsNo s), rpsNo := rps\<rparr>, w1)))"

end
