(* ===== verification/Dubu_Channel.thy ===== *)
theory Dubu_Channel
  imports Dubu_Receive
begin

text \<open>
  The invariants behind in-order delivery: which slots of an ordered channel hold
  packets that arrived early, which cache buffers a connection end owns, and what
  those buffers contain.
\<close>

section \<open>One ordered channel\<close>

abbreviation recv_of :: "CacheAlreadyPacket \<Rightarrow> u32" where
  "recv_of cap \<equiv> recvRepeatSeq (reliablePacketState cap)"

abbreviation last_of :: "CacheAlreadyPacket \<Rightarrow> u32" where
  "last_of cap \<equiv> lastRepeatSeq (reliablePacketState cap)"

definition kept :: "CacheAlreadyPacket \<Rightarrow> u32 \<Rightarrow> bool" where
  "kept cap q \<longleftrightarrow> cp_isKeep (cachePackets cap ! slot q) \<and> cp_sequenceNo (cachePackets cap ! slot q) = q"

definition slot_ok :: "nat \<Rightarrow> u32 \<Rightarrow> u32 \<Rightarrow> nat \<Rightarrow> CachePacket \<Rightarrow> bool" where
  "slot_ok lo recv lst i cp \<longleftrightarrow> (cp_isKeep cp \<longleftrightarrow> cp_buffer cp \<noteq> None)
     \<and> (cp_isKeep cp \<longrightarrow> slot (cp_sequenceNo cp) = i \<and> lo \<le> unat (cp_sequenceNo cp - recv)
          \<and> unat (cp_sequenceNo cp - recv) \<le> unat (lst - recv))"

definition slots_ok :: "nat \<Rightarrow> CacheAlreadyPacket \<Rightarrow> bool" where
  "slots_ok lo cap \<longleftrightarrow> length (cachePackets cap) = 64 \<and> unat (last_of cap - recv_of cap) < 64
     \<and> (\<forall>i < 64. slot_ok lo (recv_of cap) (last_of cap) i (cachePackets cap ! i))"

abbreviation chan_ok :: "CacheAlreadyPacket \<Rightarrow> bool" where
  "chan_ok \<equiv> slots_ok 2"

lemmas channel_ops = upd_state_def bump_last_def keep_packet_def accept_next_def release_kept_def
  level_last_def UpdateRecvSequenceNo_def

lemma chan_ok_new: "chan_ok new_CacheAlreadyPacket"
  by (simp add: slots_ok_def slot_ok_def new_CacheAlreadyPacket_def new_ReliablePacketState_def no_cache_def)

lemma slots_keptD:
  assumes "slots_ok lo cap" "i < 64" "cp_isKeep (cachePackets cap ! i)"
  shows "slot (cp_sequenceNo (cachePackets cap ! i)) = i" 
    "lo \<le> unat (cp_sequenceNo (cachePackets cap ! i) - recv_of cap)"
    "unat (cp_sequenceNo (cachePackets cap ! i) - recv_of cap) \<le> unat (last_of cap - recv_of cap)"
    "unat (cp_sequenceNo (cachePackets cap ! i) - recv_of cap) < 64"
  using assms by (auto simp: slots_ok_def slot_ok_def)

lemma keptD:
  assumes "slots_ok lo cap" "kept cap q"
  shows "lo \<le> unat (q - recv_of cap)" "unat (q - recv_of cap) \<le> unat (last_of cap - recv_of cap)"
    "cp_buffer (cachePackets cap ! slot q) \<noteq> None"
  using assms slots_keptD [OF assms(1), of "slot q"] by (auto simp: kept_def slots_ok_def slot_ok_def)

text \<open>A number of the window that is not kept has an empty slot.\<close>

lemma free_slot:
  assumes ok: "slots_ok lo cap" and q: "unat (q - recv_of cap) < 64" "\<not> kept cap q"
  shows "\<not> cp_isKeep (cachePackets cap ! slot q)"
proof
  assume k: "cp_isKeep (cachePackets cap ! slot q)"
  note s = slots_keptD [OF ok slot_less k]
  have "cp_sequenceNo (cachePackets cap ! slot q) = q" by (rule slot_inj_near) (use s q in auto)
  then show False using k q by (simp add: kept_def)
qed

lemma last_bump:
  assumes "unat (last_of cap - recv_of cap) < 64" "unat (seq - recv_of cap) < 64"
  shows "unat (last_of (bump_last seq cap) - recv_of cap)
    = max (unat (last_of cap - recv_of cap)) (unat (seq - recv_of cap))"
proof -
  let ?l = "last_of cap - recv_of cap" and ?d = "seq - recv_of cap"
  have "seq - last_of cap < 64 \<longleftrightarrow> unat ?l \<le> unat ?d"
    using offset_ahead [OF assms] by simp
  then show ?thesis by (auto simp: channel_ops max_def)
qed

lemma recv_bump [simp]: "recv_of (bump_last seq cap) = recv_of cap"
  and caches_bump [simp]: "cachePackets (bump_last seq cap) = cachePackets cap"
  and kept_bump [simp]: "kept (bump_last seq cap) q = kept cap q"
  by (auto simp: channel_ops kept_def)

lemma slots_ok_bump:
  assumes "slots_ok lo cap" "unat (seq - recv_of cap) < 64"
  shows "slots_ok lo (bump_last seq cap) \<and> unat (seq - recv_of cap) \<le> unat (last_of (bump_last seq cap) - recv_of cap)"
  using assms last_bump [of cap seq] by (auto simp: slots_ok_def slot_ok_def)

lemma slots_ok_keep:
  assumes ok: "slots_ok lo cap" and d: "lo \<le> unat (seq - recv_of cap)" "unat (seq - recv_of cap) \<le> unat (last_of cap - recv_of cap)"
  shows "slots_ok lo (keep_packet seq p now cap)"
  using assms by (auto simp: slots_ok_def slot_ok_def channel_ops nth_list_update_if)

text \<open>Accepting the next number, and releasing the kept one, moves the window by one.\<close>

lemma slot_ok_shift:
  assumes "slot_ok 2 r l i cp" "1 \<le> unat (l - r)"
  shows "slot_ok 1 (r + 1) l i cp"
  using assms by (auto simp: slot_ok_def unat_pred_offset)

lemma slots_ok_accept:
  assumes "chan_ok cap" "last_of cap \<noteq> recv_of cap"
  shows "slots_ok 1 (accept_next (recv_of cap + 1) cap)"
proof -
  have "1 \<le> unat (last_of cap - recv_of cap)" using assms(2) by (simp add: Suc_le_eq unat_gt_0)
  then show ?thesis using assms(1) 
    by (auto simp: slots_ok_def channel_ops slot_ok_shift [simplified] unat_pred_offset)
qed

lemma slots_ok_release:
  assumes ok: "slots_ok 1 cap" and ne: "last_of cap \<noteq> recv_of cap" and k: "kept cap (recv_of cap + 1)"
  shows "slots_ok 1 (release_kept (recv_of cap + 1) cap)"
proof -
  have l: "1 \<le> unat (last_of cap - recv_of cap)" using ne by (simp add: Suc_le_eq unat_gt_0)
  have "slot_ok 2 (recv_of cap) (last_of cap) i (cachePackets (release_kept (recv_of cap + 1) cap) ! i)" if i: "i < 64" for i
  proof (cases "i = slot (recv_of cap + 1)")
    case True
    then show ?thesis using ok by (simp add: slots_ok_def slot_ok_def channel_ops)
  next
    case False
    have "unat (cp_sequenceNo (cachePackets cap ! i) - recv_of cap) \<noteq> 1" if k: "cp_isKeep (cachePackets cap ! i)"
    proof
      assume "unat (cp_sequenceNo (cachePackets cap ! i) - recv_of cap) = 1"
      then have "cp_sequenceNo (cachePackets cap ! i) = recv_of cap + 1"
        by (metis add.commute diff_add_cancel unat_1 word_unat_eq_iff)
      then show False using slots_keptD(1) [OF ok i k] False by simp
    qed
    then show ?thesis using ok i False by (auto simp: slots_ok_def slot_ok_def channel_ops Suc_le_eq)
  qed
  from slot_ok_shift [OF this l] show ?thesis using ok l
    by (auto simp: slots_ok_def channel_ops unat_pred_offset)
qed

lemma slots_ok_settled:
  assumes "slots_ok 1 cap" "last_of cap = recv_of cap \<or> \<not> kept cap (recv_of cap + 1)"
  shows "chan_ok cap"
proof -
  have "2 \<le> unat (cp_sequenceNo (cachePackets cap ! i) - recv_of cap)"
    if i: "i < 64" and k: "cp_isKeep (cachePackets cap ! i)" for i
  proof -
    note s = slots_keptD [OF assms(1) i k]
    have "unat (cp_sequenceNo (cachePackets cap ! i) - recv_of cap) \<noteq> 1"
    proof
      assume "unat (cp_sequenceNo (cachePackets cap ! i) - recv_of cap) = 1"
      then have "cp_sequenceNo (cachePackets cap ! i) = recv_of cap + 1"
        by (metis add.commute diff_add_cancel unat_1 word_unat_eq_iff)
      then have "kept cap (recv_of cap + 1)" using s(1) k by (auto simp: kept_def)
      then show False using assms(2) s by auto
    qed
    then show ?thesis using s(2) by linarith
  qed
  then show ?thesis using assms(1) by (auto simp: slots_ok_def slot_ok_def)
qed

lemma nothing_kept: "chan_ok cap \<Longrightarrow> last_of cap = recv_of cap \<Longrightarrow> i < 64 \<Longrightarrow> \<not> cp_isKeep (cachePackets cap ! i)"
  using slots_keptD(2,3) [of 2 cap i] by auto

lemma slots_ok_level:
  assumes "chan_ok cap" "last_of cap = recv_of cap"
  shows "chan_ok (level_last (accept_next seq cap))"
  using assms nothing_kept [OF assms] by (auto simp: slots_ok_def slot_ok_def channel_ops)

section \<open>What the receive path owns\<close>

datatype cache_loc = SlotLoc nat nat | ChunkLoc u32 nat

fun cache_at :: "'e Endpoint_scheme \<Rightarrow> cache_loc \<Rightarrow> ptr option" where
  "cache_at s (SlotLoc c i) =
     (if c < length (cacheAlreadyPackets s) \<and> i < length (cachePackets (channel s c))
      then cp_buffer (cachePackets (channel s c) ! i) else None)"
| "cache_at s (ChunkLoc k i) =
     (case chunckPakcetInj s k of None \<Rightarrow> None
      | Some ck \<Rightarrow> if i < length (ck_buffers ck) then ck_buffers ck ! i else None)"

definition own_ok :: "ptr set \<Rightarrow> 'e Endpoint_scheme \<Rightarrow> World \<Rightarrow> bool" where
  "own_ok F s w \<longleftrightarrow> cm_ok w \<and> F \<subseteq> cacheInUse w
     \<and> (\<forall>l p. cache_at s l = Some p \<longrightarrow> p \<in> cacheInUse w - F)
     \<and> (\<forall>l l' p. cache_at s l = Some p \<longrightarrow> cache_at s l' = Some p \<longrightarrow> l = l')"

definition rx_base :: "'a PacketStateBase_scheme \<Rightarrow> u32 \<times> u32 \<times> u64" where
  "rx_base ps = (recvRepeatSeq ps, lastRepeatSeq ps, cacheRepeatCount ps)"

definition rx_chan :: "CacheAlreadyPacket \<Rightarrow> (u32 \<times> u32 \<times> u64) \<times> CachePacket list" where
  "rx_chan cap = (rx_base (reliablePacketState cap), cachePackets cap)"

definition rx_view :: "'e Endpoint_scheme \<Rightarrow> _" where
  "rx_view s = (map rx_chan (cacheAlreadyPackets s), rx_base (rpsNo s), rx_base (rNopsNo s))"

definition quiet :: "'e Endpoint_scheme \<times> World \<Rightarrow> 'e Endpoint_scheme \<times> World \<Rightarrow> bool" where
  "quiet sw sw' \<longleftrightarrow> rx_view (fst sw') = rx_view (fst sw) \<and> chunckPakcetInj (fst sw') = chunckPakcetInj (fst sw)
     \<and> dispatched (fst sw') = dispatched (fst sw) \<and> caches (snd sw') = caches (snd sw)
     \<and> cacheManager (snd sw') = cacheManager (snd sw) \<and> config (snd sw') = config (snd sw)
     \<and> bigMemoryPtrs (snd sw') = bigMemoryPtrs (snd sw)"

definition careful :: "'e Endpoint_scheme \<times> World \<Rightarrow> 'e Endpoint_scheme \<times> World \<Rightarrow> bool" where
  "careful sw sw' \<longleftrightarrow> rx_view (fst sw') = rx_view (fst sw) \<and> dispatched (fst sw') = dispatched (fst sw)
     \<and> config (snd sw') = config (snd sw)
     \<and> (\<forall>F. own_ok F (fst sw) (snd sw) \<longrightarrow> own_ok F (fst sw') (snd sw')
          \<and> (\<forall>p \<in> F. caches (snd sw') p = caches (snd sw) p)
          \<and> (\<forall>c i p. cache_at (fst sw) (SlotLoc c i) = Some p \<longrightarrow> caches (snd sw') p = caches (snd sw) p))"

lemma quiet_refl [simp]: "quiet sw sw"
  by (simp add: quiet_def)

lemma quiet_trans [trans]: "quiet a b \<Longrightarrow> quiet b c \<Longrightarrow> quiet a c"
  by (simp add: quiet_def)

lemma rx_view_length: "rx_view s' = rx_view s \<Longrightarrow> length (cacheAlreadyPackets s') = length (cacheAlreadyPackets s)"
  by (auto simp: rx_view_def dest: map_eq_imp_length_eq)

lemma rx_view_chan:
  "rx_view s' = rx_view s \<Longrightarrow> c < length (cacheAlreadyPackets s) \<Longrightarrow> rx_chan (channel s' c) = rx_chan (channel s c)"
  using rx_view_length [of s' s] by (metis fst_conv nth_map rx_view_def)

lemma rx_chan_simps:
  assumes "rx_chan a = rx_chan b"
  shows "recv_of a = recv_of b" "last_of a = last_of b" "cachePackets a = cachePackets b"
    "kept a q = kept b q" "slots_ok lo a = slots_ok lo b"
  using assms by (auto simp: rx_chan_def rx_base_def kept_def slots_ok_def)

lemma cache_at_slot_view: "rx_view s' = rx_view s \<Longrightarrow> cache_at s' (SlotLoc c i) = cache_at s (SlotLoc c i)"
proof -
  assume v: "rx_view s' = rx_view s"
  have "c < length (cacheAlreadyPackets s) \<Longrightarrow> cachePackets (channel s' c) = cachePackets (channel s c)"
    by (rule rx_chan_simps(3) [OF rx_view_chan [OF v]])
  then show ?thesis by (cases "c < length (cacheAlreadyPackets s)") (simp_all add: rx_view_length [OF v])
qed

lemma quiet_cache_at: "quiet (s, w) (s', w') \<Longrightarrow> cache_at s' l = cache_at s l"
  using cache_at_slot_view [of s' s] by (cases l) (simp_all add: quiet_def del: cache_at.simps(1))

lemma quiet_own: "quiet (s, w) (s', w') \<Longrightarrow> own_ok F s' w' = own_ok F s w"
  using quiet_cache_at [of s w s' w'] by (auto simp: own_ok_def cm_ok_def quiet_def)

lemma quiet_careful: "quiet sw sw' \<Longrightarrow> careful sw sw'"
  using quiet_own [of "fst sw" "snd sw" "fst sw'" "snd sw'"] by (simp add: careful_def quiet_def)

lemma careful_trans: "careful a b \<Longrightarrow> careful b c \<Longrightarrow> careful a c"
  unfolding careful_def by (metis cache_at_slot_view)

lemma cache_at_cong:
  assumes "cacheAlreadyPackets s' = cacheAlreadyPackets s" "chunckPakcetInj s' = chunckPakcetInj s"
  shows "cache_at s' l = cache_at s l"
  by (cases l) (simp_all add: assms)

lemma own_ok_cong:
  assumes "cacheAlreadyPackets s' = cacheAlreadyPackets s" "chunckPakcetInj s' = chunckPakcetInj s"
    "cacheManager w' = cacheManager w"
  shows "own_ok F s' w' = own_ok F s w"
  using cache_at_cong [OF assms(1,2)] by (simp add: own_ok_def cm_ok_def assms(3))

text \<open>Taking a buffer for a location, and giving one back.\<close>

lemma own_ok_take:
  assumes own: "own_ok F s w" and pop: "Cache_PopPacketBuffer w = (p, w1)"
    and mgr: "cacheManager w' = cacheManager w1"
    and upd: "\<And>l. cache_at s' l = (if l = loc then Some p else cache_at s l)"
  shows "own_ok F s' w'"
proof -
  have fresh: "p \<notin> cacheInUse w" "cacheInUse w1 = insert p (cacheInUse w)" "cm_ok w1"
    using own cachePool.pop_fresh [of w] cachePool.pop_used [of w] cachePool.pop_inv [of w] pop by (auto simp: own_ok_def)
  have "cm_ok w'" "cacheInUse w' = insert p (cacheInUse w)" using fresh mgr by (simp_all add: cm_ok_def)
  then show ?thesis using own fresh(1) unfolding own_ok_def upd by (auto split: if_splits)
qed

lemma own_ok_give:
  assumes own: "own_ok F s w" and at: "cache_at s loc = Some p"
    and upd: "\<And>l. cache_at s' l = (if l = loc then None else cache_at s l)"
  shows "own_ok F s' (Cache_PushPacketBuffer p w)"
proof -
  have p: "p \<in> cacheInUse w" "p \<notin> F" using own at by (auto simp: own_ok_def)
  have uniq: "cache_at s l = Some p \<Longrightarrow> l = loc" for l using own at by (auto simp: own_ok_def)
  have "cm_ok (Cache_PushPacketBuffer p w)" using own p cachePool.push_inv by (auto simp: own_ok_def)
  then show ?thesis using own p uniq unfolding own_ok_def upd cachePool.push_used by (auto split: if_splits)
qed

section \<open>The invariant of the receive path\<close>

definition seq_of :: "bytes \<Rightarrow> u32" where
  "seq_of d = hSequenceNo (get_header d)"

definition on_channel :: "nat \<Rightarrow> bytes \<Rightarrow> bool" where
  "on_channel c d \<longleftrightarrow> has_flag (flags (get_header d)) REPEAT \<and> 0 < flags (get_header d) AND flag_value CHANNEL
     \<and> unat (channel_of (flags (get_header d))) = c"

definition chan_log :: "nat \<Rightarrow> bytes list \<Rightarrow> u32 list" where
  "chan_log c ds = map seq_of (filter (on_channel c) ds)"

definition in_order :: "nat \<Rightarrow> 'e Endpoint_scheme \<Rightarrow> bool" where
  "in_order c s \<longleftrightarrow> (let L = chan_log c (dispatched s)
     in L = map of_nat [1..<Suc (length L)] \<and> recv_of (channel s c) = of_nat (length L))"

definition cached :: "World \<Rightarrow> ptr \<Rightarrow> bytes" where
  "cached w p = take (unat (csize (caches w p))) (cbuffer (caches w p))"

definition content_ok :: "bytes set \<Rightarrow> 'e Endpoint_scheme \<Rightarrow> World \<Rightarrow> bool" where
  "content_ok R s w \<longleftrightarrow> (\<forall>c i p. cache_at s (SlotLoc c i) = Some p \<longrightarrow>
     cached w p \<in> R \<and> on_channel c (cached w p) \<and> seq_of (cached w p) = cp_sequenceNo (cachePackets (channel s c) ! i))"

definition store_ok :: "nat \<Rightarrow> nat \<Rightarrow> ptr set \<Rightarrow> bytes set \<Rightarrow> 'e Endpoint_scheme \<Rightarrow> World \<Rightarrow> bool" where
  "store_ok lo c F R s w \<longleftrightarrow> own_ok F s w \<and> content_ok R s w
     \<and> (\<forall>c' < length (cacheAlreadyPackets s). slots_ok (if c' = c then lo else 2) (channel s c'))"

lemma channel_upd [simp]:
  "c < length (cacheAlreadyPackets s) \<Longrightarrow>
     channel (upd_channel c f s) c' = (if c' = c then f (channel s c) else channel s c')"
  by (simp add: upd_channel_def nth_list_update_if)

lemma upd_channel_simps [simp]:
  "length (cacheAlreadyPackets (upd_channel c f s)) = length (cacheAlreadyPackets s)"
  "dispatched (upd_channel c f s) = dispatched s" "chunckPakcetInj (upd_channel c f s) = chunckPakcetInj s"
  "rpsNo (upd_channel c f s) = rpsNo s" "rNopsNo (upd_channel c f s) = rNopsNo s"
  by (simp_all add: upd_channel_def)

lemma store_ok_careful:
  assumes st: "store_ok lo c F R s w" and car: "careful (s, w) (s', w')"
  shows "store_ok lo c F R s' w' \<and> (\<forall>p \<in> F. caches w' p = caches w p)"
proof -
  have v: "rx_view s' = rx_view s" using car by (simp add: careful_def)
  have at: "cache_at s' (SlotLoc d i) = cache_at s (SlotLoc d i)" for d i by (rule cache_at_slot_view [OF v])
  have keep: "own_ok F s' w'" "\<And>d i p. cache_at s (SlotLoc d i) = Some p \<Longrightarrow> cached w' p = cached w p"
    "\<forall>p \<in> F. caches w' p = caches w p"
    using st car unfolding careful_def store_ok_def cached_def by (metis fst_conv snd_conv)+
  have cps: "cachePackets (channel s' d) = cachePackets (channel s d)" if "cache_at s (SlotLoc d i) = Some p" for d i p
    using that rx_chan_simps(3) [OF rx_view_chan [OF v]] by (auto split: if_splits)
  have "content_ok R s' w'" using st unfolding content_ok_def store_ok_def at by (metis cps keep(2))
  moreover have "slots_ok lo' (channel s' d)" if "d < length (cacheAlreadyPackets s')" "slots_ok lo' (channel s d)" for d lo'
    using that rx_chan_simps(5) [OF rx_view_chan [OF v]] rx_view_length [OF v] by auto
  ultimately show ?thesis using st keep rx_view_length [OF v] by (auto simp: store_ok_def)
qed

lemma cache_at_same_slots:
  assumes "cachePackets (f (channel s c)) = cachePackets (channel s c)" "c < length (cacheAlreadyPackets s)"
  shows "cache_at (upd_channel c f s) l = cache_at s l"
  using assms by (cases l) auto

lemma store_ok_same_slots:
  assumes st: "store_ok lo c F R s w" and cps: "cachePackets (f (channel s c)) = cachePackets (channel s c)"
    and c: "c < length (cacheAlreadyPackets s)" and ok: "slots_ok lo' (f (channel s c))"
  shows "store_ok lo' c F R (upd_channel c f s) w"
proof -
  note at = cache_at_same_slots [of f s c, OF cps c]
  have "own_ok F (upd_channel c f s) w" using st unfolding own_ok_def store_ok_def at by blast
  moreover have "content_ok R (upd_channel c f s) w"
    using st unfolding content_ok_def store_ok_def at by (simp add: c cps)
  ultimately show ?thesis using st ok c by (auto simp: store_ok_def)
qed

lemma store_ok_release:
  fixes s :: "'e Endpoint_scheme"
  assumes st: "store_ok 1 c F R s w" and c: "c < length (cacheAlreadyPackets s)"
    and k: "kept (channel s c) q" and q: "q = recv_of (channel s c) + 1" and ne: "last_of (channel s c) \<noteq> recv_of (channel s c)"
    and p: "cp_buffer (cachePackets (channel s c) ! slot q) = Some p"
  shows "store_ok 1 c F R (upd_channel c (release_kept q) s) (Cache_PushPacketBuffer p w)"
proof -
  let ?s = "upd_channel c (release_kept q) s"
  have ok: "slots_ok 1 (channel s c)" using st c by (auto simp: store_ok_def)
  have len: "length (cachePackets (channel s c)) = 64" using ok by (simp add: slots_ok_def)
  have cps: "cachePackets (release_kept q (channel s c)) = (cachePackets (channel s c))[slot q :=
      (cachePackets (channel s c) ! slot q)\<lparr>cp_isKeep := False, cp_buffer := None\<rparr>]"
    by (simp add: channel_ops)
  have at: "cache_at s (SlotLoc c (slot q)) = Some p" using p c len by simp
  have upd: "cache_at ?s l = (if l = SlotLoc c (slot q) then None else cache_at s l)" for l
    by (cases l) (auto simp: c cps nth_list_update_if len)
  have own: "own_ok F ?s (Cache_PushPacketBuffer p w)"
    by (rule own_ok_give [OF _ at upd]) (use st in \<open>simp add: store_ok_def\<close>)
  have same: "cached (Cache_PushPacketBuffer p w) p' = cached w p'" if "p' \<noteq> p" for p'
    using that by (simp add: cached_def cachePool.push_content)
  have "content_ok R ?s (Cache_PushPacketBuffer p w)"
    unfolding content_ok_def
  proof (intro allI impI)
    fix d i p' assume a: "cache_at ?s (SlotLoc d i) = Some p'"
    then have a': "cache_at s (SlotLoc d i) = Some p'" and n: "SlotLoc d i \<noteq> SlotLoc c (slot q)" 
      unfolding upd by (simp_all split: if_splits)
    have "p' \<noteq> p" using st a' at n unfolding store_ok_def own_ok_def by blast
    moreover have "cp_sequenceNo (cachePackets (channel ?s d) ! i) = cp_sequenceNo (cachePackets (channel s d) ! i)"
      using n c by (auto simp: cps nth_list_update_if)
    ultimately show "cached (Cache_PushPacketBuffer p w) p' \<in> R \<and> on_channel d (cached (Cache_PushPacketBuffer p w) p')
        \<and> seq_of (cached (Cache_PushPacketBuffer p w) p') = cp_sequenceNo (cachePackets (channel ?s d) ! i)"
      using st a' same [of p'] unfolding store_ok_def content_ok_def by metis
  qed
  then show ?thesis using st own slots_ok_release [OF ok ne] k q c by (auto simp: store_ok_def)
qed

lemma store_ok_keep:
  fixes s :: "'e Endpoint_scheme"
  assumes st: "store_ok 2 c F R s w" and c: "c < length (cacheAlreadyPackets s)"
    and off: "2 \<le> unat (seq - recv_of (channel s c))"
      "unat (seq - recv_of (channel s c)) \<le> unat (last_of (channel s c) - recv_of (channel s c))"
    and pop: "Cache_PopPacketBuffer w = (p, w1)" and mgr: "cacheManager w' = cacheManager w1"
    and others: "\<And>p'. p' \<noteq> p \<Longrightarrow> caches w' p' = caches w1 p'"
    and d: "cached w' p = d" "d \<in> R" "on_channel c d" "seq_of d = seq"
  shows "store_ok 2 c F R (upd_channel c (keep_packet seq p now) s) w' \<and> (\<forall>p \<in> F. caches w' p = caches w p)"
proof -
  let ?s = "upd_channel c (keep_packet seq p now) s"
  have ok: "slots_ok 2 (channel s c)" using st c by (auto simp: store_ok_def)
  have len: "length (cachePackets (channel s c)) = 64" using ok by (simp add: slots_ok_def)
  have cps: "cachePackets (keep_packet seq p now (channel s c)) = (cachePackets (channel s c))[slot seq :=
      \<lparr>cp_buffer = Some p, cp_timeStamp = now, cp_sequenceNo = seq, cp_isKeep = True\<rparr>]"
    by (simp add: channel_ops)
  have upd: "cache_at ?s l = (if l = SlotLoc c (slot seq) then Some p else cache_at s l)" for l
    by (cases l) (auto simp: c cps nth_list_update_if len)
  have own: "own_ok F ?s w'"
    by (rule own_ok_take [OF _ pop mgr upd]) (use st in \<open>simp add: store_ok_def\<close>)
  have cm: "cm_ok w" using st by (simp add: store_ok_def own_ok_def)
  have same: "caches w' p' = caches w p'" if "p' \<in> cacheInUse w" for p'
    using that others [of p'] cachePool.pop_keeps [OF cm that] cachePool.pop_fresh [OF cm] pop by auto
  have "content_ok R ?s w'"
    unfolding content_ok_def
  proof (intro allI impI)
    fix e i p' assume a: "cache_at ?s (SlotLoc e i) = Some p'"
    show "cached w' p' \<in> R \<and> on_channel e (cached w' p') \<and> seq_of (cached w' p') = cp_sequenceNo (cachePackets (channel ?s e) ! i)"
    proof (cases "SlotLoc e i = SlotLoc c (slot seq)")
      case True
      then have eq: "e = c" "i = slot seq" and p: "p' = p" using a unfolding upd by simp_all
      then show ?thesis using d by (simp add: c cps len)
    next
      case False
      then have a': "cache_at s (SlotLoc e i) = Some p'" using a unfolding upd by (simp only: if_False)
      have "p' \<in> cacheInUse w" using st a' unfolding store_ok_def own_ok_def by blast
      moreover have "cp_sequenceNo (cachePackets (channel ?s e) ! i) = cp_sequenceNo (cachePackets (channel s e) ! i)"
        using False c by (auto simp: cps nth_list_update_if)
      ultimately show ?thesis
        using st a' same [of p'] unfolding store_ok_def content_ok_def cached_def by metis
    qed
  qed
  moreover have "F \<subseteq> cacheInUse w" using st by (simp add: store_ok_def own_ok_def)
  ultimately show ?thesis using st own slots_ok_keep [OF ok off] c same by (auto simp: store_ok_def)
qed

end
