(* ===== verification/Dubu_Delivery.thy ===== *)
theory Dubu_Delivery
  imports Dubu_Channel "HOL-Library.Multiset"
begin

text \<open>
  What \<^verbatim>\<open>RecvDispatch\<close> delivers. The locale \<open>receiver\<close> states what the receive path
  needs of \<^verbatim>\<open>PacketParse\<close> and \<^verbatim>\<open>RecvChunckPacket\<close>: that they leave the receive
  state and the cached packets alone. Inside it every call of \<^verbatim>\<open>RecvDispatch\<close> is shown to
  keep \<open>dispatch_ok\<close>: each ordered channel has delivered 1, 2, 3, ... in order, the
  unordered packets each once, and the unreliable ones with increasing numbers.
\<close>

definition rx_ok :: "nat \<Rightarrow> nat \<Rightarrow> ptr set \<Rightarrow> bytes set \<Rightarrow> 'e Endpoint_scheme \<Rightarrow> World \<Rightarrow> bool" where
  "rx_ok lo c F R s w \<longleftrightarrow> store_ok lo c F R s w \<and> set (dispatched s) \<subseteq> R
     \<and> (\<forall>c' < length (cacheAlreadyPackets s). in_order c' s)"

text \<open>What work on channel \<open>c\<close> leaves alone.\<close>

definition chan_step :: "ptr set \<Rightarrow> nat \<Rightarrow> 'e Endpoint_scheme \<times> World \<Rightarrow> 'e Endpoint_scheme \<times> World \<Rightarrow> bool" where
  "chan_step F c sw sw' \<longleftrightarrow> length (cacheAlreadyPackets (fst sw')) = length (cacheAlreadyPackets (fst sw))
     \<and> rx_base (rpsNo (fst sw')) = rx_base (rpsNo (fst sw)) \<and> rx_base (rNopsNo (fst sw')) = rx_base (rNopsNo (fst sw))
     \<and> config (snd sw') = config (snd sw) \<and> (\<forall>p \<in> F. caches (snd sw') p = caches (snd sw) p)
     \<and> (\<exists>ds. dispatched (fst sw') = dispatched (fst sw) @ ds \<and> (\<forall>d \<in> set ds. on_channel c d))"

lemma chan_step_refl: "chan_step F c sw sw"
  by (simp add: chan_step_def)

lemma chan_step_trans: "chan_step F c a b \<Longrightarrow> chan_step F c b d \<Longrightarrow> chan_step F c a d"
  by (fastforce simp: chan_step_def)

lemma chan_step_upd: "chan_step F c sw (s, w) \<Longrightarrow> chan_step F c sw (upd_channel d f s, w)"
  by (simp add: chan_step_def)

lemma on_channel_unique: "on_channel c d \<Longrightarrow> on_channel c' d \<Longrightarrow> c = c'"
  by (simp add: on_channel_def)

lemma upt_Suc_of_nat: "map of_nat [1..<Suc (Suc n)] = map of_nat [1..<Suc n] @ [of_nat (Suc n) :: u32]"
  by simp

lemma in_order_deliver:
  assumes ord: "in_order c s" and log: "dispatched s' = dispatched s @ [d]" and d: "on_channel c d" "seq_of d = recv_of (channel s c) + 1"
    and recv: "recv_of (channel s' c) = recv_of (channel s c) + 1"
  shows "in_order c s'"
proof -
  have L: "chan_log c (dispatched s') = chan_log c (dispatched s) @ [seq_of d]" by (simp add: chan_log_def log d(1))
  have r: "recv_of (channel s c) = of_nat (length (chan_log c (dispatched s)))"
    and o: "chan_log c (dispatched s) = map of_nat [1..<Suc (length (chan_log c (dispatched s)))]"
    using ord by (simp_all add: in_order_def Let_def)
  have "chan_log c (dispatched s') = map of_nat [1..<Suc (length (chan_log c (dispatched s')))]"
    unfolding L using o d(2) r by (simp add: add.commute)
  then show ?thesis using recv r unfolding in_order_def Let_def by (simp add: L add.commute)
qed

lemma in_order_other:
  assumes "in_order c' s" and "dispatched s' = dispatched s @ ds" and "\<forall>d \<in> set ds. \<not> on_channel c' d"
    and "recv_of (channel s' c') = recv_of (channel s c')"
  shows "in_order c' s'"
proof -
  have "chan_log c' (dispatched s') = chan_log c' (dispatched s)" using assms(2,3) by (auto simp: chan_log_def filter_empty_conv)
  then show ?thesis using assms(1,4) by (simp add: in_order_def)
qed

lemma cache_at_dispatched [simp]: "cache_at (s\<lparr>dispatched := ds\<rparr>) = cache_at s"
  by (rule ext) (rule cache_at_cong, simp_all)

lemma store_ok_dispatched [simp]: "store_ok lo c F R (s\<lparr>dispatched := ds\<rparr>) w = store_ok lo c F R s w"
  by (simp add: store_ok_def content_ok_def own_ok_def del: cache_at.simps)

lemma store_ok_settle: "store_ok lo c F R s w \<Longrightarrow> chan_ok (channel s c) \<Longrightarrow> store_ok 2 d F R s w"
  unfolding store_ok_def by (metis)

section \<open>The receive path over any well-behaved parser\<close>

locale receiver =
  fixes parse :: "bytes \<Rightarrow> u16 \<Rightarrow> 'e Endpoint_scheme \<times> World \<Rightarrow> ('e Endpoint_scheme \<times> World) result"
    and chunk :: "bytes \<Rightarrow> u16 \<Rightarrow> 'e Endpoint_scheme \<times> World \<Rightarrow> ('e Endpoint_scheme \<times> World) result"
  assumes parse_quiet: "parse b n sw = Inr sw' \<Longrightarrow> quiet sw sw'"
    and chunk_careful: "chunk b n sw = Inr sw' \<Longrightarrow> careful sw sw'"
begin

lemma HandOn_careful:
  assumes "HandOn f b n (s, w) = Inr (s', w')" and "f = parse \<or> f = chunk"
  shows "careful (s\<lparr>dispatched := dispatched s @ [take (unat n) b]\<rparr>, w) (s', w')"
  using assms parse_quiet chunk_careful by (auto simp: HandOn_def intro: quiet_careful)

lemma HandOn_facts:
  assumes h: "HandOn f b n (s, w) = Inr (s', w')" and f: "f = parse \<or> f = chunk" and st: "store_ok lo c F R s w"
  shows "store_ok lo c F R s' w'" "rx_view s' = rx_view s" "dispatched s' = dispatched s @ [take (unat n) b]"
    "config w' = config w" "\<forall>p \<in> F. caches w' p = caches w p"
proof -
  note car = HandOn_careful [OF h f]
  show "store_ok lo c F R s' w'" "\<forall>p \<in> F. caches w' p = caches w p"
    using store_ok_careful [OF _ car] st by auto
  show "rx_view s' = rx_view s" "dispatched s' = dispatched s @ [take (unat n) b]" "config w' = config w"
    using car by (auto simp: careful_def rx_view_def)
qed

text \<open>Delivering the next packet of channel \<open>c\<close> and moving the window.\<close>

lemma deliver:
  assumes h: "HandOn parse b n (s, w) = Inr (s1, w1)" and ok: "rx_ok lo c F R s w" and c: "c < length (cacheAlreadyPackets s)"
    and d: "take (unat n) b \<in> R" "on_channel c (take (unat n) b)" "seq_of (take (unat n) b) = recv_of (channel s c) + 1"
    and f: "\<And>cap. recv_of cap = recv_of (channel s c) \<Longrightarrow> recv_of (f cap) = recv_of (channel s c) + 1"
  shows "rx_chan (channel s1 c) = rx_chan (channel s c)" "store_ok lo c F R s1 w1" "set (dispatched s1) \<subseteq> R"
    "\<forall>c' < length (cacheAlreadyPackets s1). in_order c' (upd_channel c f s1)"
    "chan_step F c (s, w) (s1, w1)" "length (cacheAlreadyPackets s1) = length (cacheAlreadyPackets s)"
proof -
  have st: "store_ok lo c F R s w" using ok by (simp add: rx_ok_def)
  note hf = HandOn_facts [OF h _ st, simplified]
  note len = rx_view_length [OF hf(2)]
  note vc = rx_view_chan [OF hf(2)]
  show "rx_chan (channel s1 c) = rx_chan (channel s c)" using vc c by simp
  then have r: "recv_of (f (channel s1 c)) = recv_of (channel s c) + 1" using f rx_chan_simps(1) by blast
  show "store_ok lo c F R s1 w1" "set (dispatched s1) \<subseteq> R" "length (cacheAlreadyPackets s1) = length (cacheAlreadyPackets s)"
    using hf ok d(1) len by (auto simp: rx_ok_def)
  show "chan_step F c (s, w) (s1, w1)" using hf d(2) len by (auto simp: chan_step_def rx_view_def)
  show "\<forall>c' < length (cacheAlreadyPackets s1). in_order c' (upd_channel c f s1)"
  proof (intro allI impI)
    fix c' assume c': "c' < length (cacheAlreadyPackets s1)"
    have o: "in_order c' s" using ok c' len by (simp add: rx_ok_def)
    show "in_order c' (upd_channel c f s1)"
    proof (cases "c' = c")
      case True
      then show ?thesis using in_order_deliver [of c s "upd_channel c f s1" "take (unat n) b"] o hf(3) d r c len by simp
    next
      case False
      then have "\<not> on_channel c' (take (unat n) b)" using d(2) on_channel_unique by blast
      then show ?thesis using in_order_other [OF o, of "upd_channel c f s1" "[take (unat n) b]"] hf(3) False c len
          rx_chan_simps(1) [OF vc [of c']] c' by simp
    qed
  qed
qed

lemma rx_ok_intro:
  "store_ok lo c F R s w \<Longrightarrow> set (dispatched s) \<subseteq> R \<Longrightarrow> \<forall>c' < length (cacheAlreadyPackets s). in_order c' s \<Longrightarrow> rx_ok lo c F R s w"
  by (simp add: rx_ok_def)

lemma drain_cache_ok:
  assumes "drain_cache parse c n idx (s, w) = Inr (s', w')" and "rx_ok 1 c F R s w" and "c < length (cacheAlreadyPackets s)"
    and "idx = recv_of (channel s c)"
  shows "rx_ok 2 c F R s' w' \<and> chan_step F c (s, w) (s', w')"
  using assms
proof (induction n arbitrary: idx s w)
  case (Suc n)
  let ?cap = "channel s c" and ?q = "idx + 1"
  have sok: "slots_ok 1 ?cap" using Suc.prems by (auto simp: rx_ok_def store_ok_def)
  show ?case
  proof (cases "last_of ?cap = idx \<or> \<not> kept ?cap ?q")
    case True
    then have eq: "s' = s" "w' = w" using Suc.prems(1) by (auto simp: kept_def Let_def split: if_splits)
    have "chan_ok ?cap" by (rule slots_ok_settled [OF sok]) (use True Suc.prems(4) in auto)
    then have "rx_ok 2 c F R s w" using Suc.prems(2) store_ok_settle by (auto simp: rx_ok_def)
    then show ?thesis using eq by (simp add: chan_step_refl)
  next
    case False
    then have k: "kept ?cap ?q" and ne: "last_of ?cap \<noteq> recv_of ?cap" using Suc.prems(4) by auto
    obtain p where p: "cp_buffer (cachePackets ?cap ! slot ?q) = Some p" using keptD(3) [OF sok k] by auto
    let ?b = "cbuffer (caches w p)" and ?n = "csize (caches w p)"
    from Suc.prems(1) False p obtain s1 w1 p1 where
      h: "HandOn parse ?b ?n (s, w) = Inr (s1, w1)" and p1: "cp_buffer (cachePackets (channel s1 c) ! slot ?q) = Some p1"
      and rec: "drain_cache parse c n ?q (upd_channel c (release_kept ?q) s1, Cache_PushPacketBuffer p1 w1) = Inr (s', w')"
      by (auto simp: kept_def Let_def split: option.splits)
    have "cache_at s (SlotLoc c (slot ?q)) = Some p" using p Suc.prems(3) sok by (simp add: slots_ok_def)
    then have "cached w p \<in> R \<and> on_channel c (cached w p) \<and> seq_of (cached w p) = ?q"
      using Suc.prems(2) k unfolding rx_ok_def store_ok_def content_ok_def by (simp only: kept_def)
    then have d: "take (unat ?n) ?b \<in> R" "on_channel c (take (unat ?n) ?b)"
      "seq_of (take (unat ?n) ?b) = recv_of ?cap + 1" using Suc.prems(4) by (simp_all add: cached_def)
    note dl = deliver [OF h Suc.prems(2,3) d, of "release_kept ?q"]
    have rk: "recv_of (release_kept ?q cap) = recv_of cap + 1" for cap by (simp add: channel_ops)
    note v = rx_chan_simps [OF dl(1)]
    have c1: "c < length (cacheAlreadyPackets s1)" using dl(6) Suc.prems(3) rk by simp
    have pp: "p1 = p" using p p1 v rk by simp
    have "store_ok 1 c F R (upd_channel c (release_kept ?q) s1) (Cache_PushPacketBuffer p1 w1)"
      by (rule store_ok_release [OF dl(2) c1 _ _ _ p1]) (use rk v k ne Suc.prems(4) in auto)
    then have ok1: "rx_ok 1 c F R (upd_channel c (release_kept ?q) s1) (Cache_PushPacketBuffer p1 w1)"
      using dl(3,4) rk by (simp add: rx_ok_def)
    have ih: "rx_ok 2 c F R s' w'" "chan_step F c (upd_channel c (release_kept ?q) s1, Cache_PushPacketBuffer p1 w1) (s', w')"
      using Suc.IH [OF rec ok1] c1 rk v(1) Suc.prems(4) by simp_all
    have "p1 \<notin> F" using Suc.prems(2) \<open>cache_at s (SlotLoc c (slot ?q)) = Some p\<close> pp
      unfolding rx_ok_def store_ok_def own_ok_def by blast
    then have "chan_step F c (s1, w1) (upd_channel c (release_kept ?q) s1, Cache_PushPacketBuffer p1 w1)"
      by (auto simp: chan_step_def Cache_PushPacketBuffer_def Let_def)
    then show ?thesis using ih chan_step_trans dl(5) rk by metis
  qed
qed simp

end

lemma cached_Copy:
  assumes "CachePacketBuffer_Copy p b n w = Inr w'"
  shows "cached w' p = take (unat n) b" "cacheManager w' = cacheManager w" "config w' = config w"
    "p' \<noteq> p \<Longrightarrow> caches w' p' = caches w p'"
  using assms by (auto simp: CachePacketBuffer_Copy_def cached_def memcpy_at_def split: if_splits)

lemma clock_frame [simp]:
  "caches (snd (GetRelativeTimeMs w)) = caches w" "cacheManager (snd (GetRelativeTimeMs w)) = cacheManager w"
  "config (snd (GetRelativeTimeMs w)) = config w" "cached (snd (GetRelativeTimeMs w)) = cached w"
  by (auto simp: GetRelativeTimeMs_def cached_def)

lemma store_ok_any: "store_ok 2 c F R s w \<Longrightarrow> store_ok 2 d F R s w"
  by (simp add: store_ok_def)

lemma rx_ok_any: "rx_ok 2 c F R s w \<Longrightarrow> rx_ok 2 d F R s w"
  using store_ok_any by (auto simp: rx_ok_def)

lemma config_pop: "Cache_PopPacketBuffer w = (p, w1) \<Longrightarrow> config w1 = config w"
  by (auto simp: Cache_PopPacketBuffer_def Let_def split_beta split: if_splits)

text \<open>A packet that is early enough to be kept.\<close>

lemma keep_early:
  assumes ok: "rx_ok 2 c F R s w" and c: "c < length (cacheAlreadyPackets s)"
    and off: "2 \<le> unat (seq - recv_of (channel s c))" "unat (seq - recv_of (channel s c)) < 64"
    and nk: "\<not> kept (channel s c) seq"
    and pop: "Cache_PopPacketBuffer w = (p, w1)" and copy: "CachePacketBuffer_Copy p b n w1 = Inr w2"
    and d: "take (unat n) b \<in> R" "on_channel c (take (unat n) b)" "seq_of (take (unat n) b) = seq"
  shows "rx_ok 2 c F R (upd_channel c (keep_packet seq p now) (upd_channel c (bump_last seq) s)) (snd (GetRelativeTimeMs w2))
    \<and> chan_step F c (s, w) (upd_channel c (keep_packet seq p now) (upd_channel c (bump_last seq) s), snd (GetRelativeTimeMs w2))
    \<and> kept (channel (upd_channel c (keep_packet seq p now) (upd_channel c (bump_last seq) s)) c) seq"
proof -
  let ?s1 = "upd_channel c (bump_last seq) s"
  have sok: "slots_ok 2 (channel s c)" and st: "store_ok 2 c F R s w" using ok c by (auto simp: rx_ok_def store_ok_def)
  note bump = slots_ok_bump [OF sok off(2)]
  have st1: "store_ok 2 c F R ?s1 w" by (rule store_ok_same_slots [OF st]) (use bump c in auto)
  note cp = cached_Copy [OF copy]
  have st2: "store_ok 2 c F R (upd_channel c (keep_packet seq p now) ?s1) (snd (GetRelativeTimeMs w2))
      \<and> (\<forall>p \<in> F. caches (snd (GetRelativeTimeMs w2)) p = caches w p)"
    by (rule store_ok_keep [OF st1 _ _ _ pop, where d = "take (unat n) b"]) (use c off bump cp d in auto)
  have "in_order c' (upd_channel c (keep_packet seq p now) ?s1)" if "c' < length (cacheAlreadyPackets s)" for c'
    by (rule in_order_other [of c' s _ "[]"]) (use that ok c in \<open>auto simp: rx_ok_def channel_ops\<close>)
  then show ?thesis using st2 ok c cp config_pop [OF pop] sok
    by (auto simp: rx_ok_def chan_step_def kept_def channel_ops slots_ok_def)
qed

lemma drain_stop:
  "0 < n \<Longrightarrow> \<not> kept (channel s c) (idx + 1) \<Longrightarrow> drain_cache f c n idx (s, w) = Inr (s, w)"
  by (cases n) (auto simp: kept_def Let_def)

text \<open>The four ways through \<open>RecvOrdered\<close>.\<close>

lemma RecvOrdered_elim:
  fixes b :: bytes and s :: "'e Endpoint_scheme"
  defines "seq \<equiv> hSequenceNo (get_header b)" and "c \<equiv> unat (channel_of (flags (get_header b)))"
  assumes r: "RecvOrdered f b n s w = Inr (ack, s', w')"
  obtains (same) "s' = s" "w' = w" "ack \<Longrightarrow> recv_of (channel s c) - seq < 64"
    | (dup) "s' = upd_channel c (bump_last seq) s" "w' = w" "c < length (cacheAlreadyPackets s)"
        "seq - recv_of (channel s c) < 64" "kept (channel s c) seq"
    | (early) p w1 w2 now where "c < length (cacheAlreadyPackets s)" "\<not> recv_of (channel s c) - seq < 64"
        "seq \<noteq> recv_of (channel s c) + 1" "seq - recv_of (channel s c) < 64"
        "\<not> kept (channel s c) seq" "Cache_PopPacketBuffer w = (p, w1)" "CachePacketBuffer_Copy p b n w1 = Inr w2"
        "s' = upd_channel c (keep_packet seq p now) (upd_channel c (bump_last seq) s)" "w' = snd (GetRelativeTimeMs w2)"
    | (nxt) s1 w1 s2 where "c < length (cacheAlreadyPackets s)" "seq = recv_of (channel s c) + 1"
        "HandOn f b n (s, w) = Inr (s1, w1)"
        "drain_cache f c DEFAULT_WINDOW_COUNT seq (upd_channel c (accept_next seq) s1, w1) = Inr (s2, w')"
        "s' = (if recv_of (channel s c) = last_of (channel s c) then upd_channel c level_last s2 else s2)"
proof -
  note r' = r [unfolded RecvOrdered_def Let_def, folded seq_def c_def]
  consider (a) "g_channelMask (config w) < ucast (channel_of (flags (get_header b)))"
    | (b) "\<not> g_channelMask (config w) < ucast (channel_of (flags (get_header b)))" "recv_of (channel s c) - seq < 64"
    | (c) "\<not> g_channelMask (config w) < ucast (channel_of (flags (get_header b)))" "\<not> recv_of (channel s c) - seq < 64"
        "seq \<noteq> recv_of (channel s c) + 1"
    | (d) "\<not> g_channelMask (config w) < ucast (channel_of (flags (get_header b)))" "\<not> recv_of (channel s c) - seq < 64"
        "seq = recv_of (channel s c) + 1" by blast
  then show ?thesis
  proof cases
    case a
    then show ?thesis using r' same by simp
  next
    case b
    then show ?thesis using r' same by (simp split: if_splits)
  next
    case c
    show ?thesis
    proof (cases "64 \<le> seq - recv_of (channel s c) \<or> kept (channel s c) seq")
      case True
      then show ?thesis using r' c same dup by (auto simp: kept_def not_le split: if_splits)
    next
      case False
      then have lt: "seq - recv_of (channel s c) < 64" by (simp add: not_le)
      have len: "c < length (cacheAlreadyPackets s)" using r' c by (simp split: if_splits)
      obtain p w1 where pop: "Cache_PopPacketBuffer w = (p, w1)" by force
      have nk: "\<not> (cp_isKeep (cachePackets (channel s c) ! slot seq) \<and> cp_sequenceNo (cachePackets (channel s c) ! slot seq) = seq)"
        using False by (simp add: kept_def)
      have nle: "\<not> 64 \<le> seq - recv_of (channel s c)" using False by simp
      from r' c nle len nk pop obtain w2 where "CachePacketBuffer_Copy p b n w1 = Inr w2"
        "s' = upd_channel c (keep_packet seq p (fst (GetRelativeTimeMs w2))) (upd_channel c (bump_last seq) s)"
        "w' = snd (GetRelativeTimeMs w2)"
        by (auto simp: split_beta)
      then show ?thesis using early c lt False len pop by blast
    qed
  next
    case d
    then have len: "c < length (cacheAlreadyPackets s)" using r' by (simp split: if_splits)
    from r' d len obtain s1 w1 s2 where "HandOn f b n (s, w) = Inr (s1, w1)"
      "drain_cache f c DEFAULT_WINDOW_COUNT seq (upd_channel c (accept_next seq) s1, w1) = Inr (s2, w')"
      "s' = (if recv_of (channel s c) = last_of (channel s c) then upd_channel c level_last s2 else s2)"
      by (auto simp: split_beta)
    then show ?thesis using nxt d len by blast
  qed
qed

context receiver
begin

lemma accept_ready:
  assumes ok: "rx_ok 2 c F R s w" and c: "c < length (cacheAlreadyPackets s)"
    and h: "HandOn parse b n (s, w) = Inr (s1, w1)" and seq: "seq = recv_of (channel s c) + 1"
    and d: "take (unat n) b \<in> R" "on_channel c (take (unat n) b)" "seq_of (take (unat n) b) = seq"
  defines "s2 \<equiv> upd_channel c (accept_next seq) s1"
  shows "recv_of (channel s2 c) = seq" "last_of (channel s2 c) = last_of (channel s c)" "c < length (cacheAlreadyPackets s2)"
    "chan_step F c (s, w) (s2, w1)"
    "recv_of (channel s c) \<noteq> last_of (channel s c) \<Longrightarrow> rx_ok 1 c F R s2 w1"
    "recv_of (channel s c) = last_of (channel s c) \<Longrightarrow>
       rx_ok 2 c F R (upd_channel c level_last s2) w1 \<and> \<not> kept (channel s2 c) (seq + 1)"
proof -
  have sok: "slots_ok 2 (channel s c)" using ok c by (auto simp: rx_ok_def store_ok_def)
  have an: "recv_of (accept_next seq cap) = recv_of (channel s c) + 1" for cap by (simp add: channel_ops seq)
  have ac: "cachePackets (accept_next seq cap) = cachePackets cap" "last_of (accept_next seq cap) = last_of cap" for cap
    by (simp_all add: channel_ops)
  note dl = deliver [OF h ok c d(1,2) d(3) [unfolded seq], of "accept_next seq", OF an]
  note v = rx_chan_simps [OF dl(1)]
  have c1: "c < length (cacheAlreadyPackets s1)" using c dl(6) by simp
  show "recv_of (channel s2 c) = seq" "last_of (channel s2 c) = last_of (channel s c)" "c < length (cacheAlreadyPackets s2)"
    using c1 an ac v seq by (simp_all add: s2_def)
  show step: "chan_step F c (s, w) (s2, w1)" unfolding s2_def by (rule chan_step_upd [OF dl(5)])
  show "rx_ok 1 c F R s2 w1" if ne: "recv_of (channel s c) \<noteq> last_of (channel s c)"
  proof -
    have "slots_ok 1 (accept_next seq (channel s1 c))"
      using slots_ok_accept [of "channel s1 c"] sok ne v seq by simp
    then have "store_ok 1 c F R s2 w1" unfolding s2_def by (intro store_ok_same_slots [OF dl(2) _ c1] ac)
    then show ?thesis using dl(3,4) by (simp add: rx_ok_def s2_def)
  qed
  show "rx_ok 2 c F R (upd_channel c level_last s2) w1 \<and> \<not> kept (channel s2 c) (seq + 1)"
    if eq: "recv_of (channel s c) = last_of (channel s c)"
  proof -
    have up: "upd_channel c level_last s2 = upd_channel c (level_last \<circ> accept_next seq) s1"
      using c1 by (simp add: s2_def upd_channel_def)
    have "slots_ok 2 (level_last (accept_next seq (channel s1 c)))"
      using slots_ok_level [of "channel s1 c" seq] sok eq v by simp
    then have "store_ok 2 c F R (upd_channel c level_last s2) w1"
      unfolding up by (intro store_ok_same_slots [OF dl(2) _ c1]) (auto simp: channel_ops)
    moreover have "in_order c' (upd_channel c level_last s2)" if "c' < length (cacheAlreadyPackets s1)" for c'
      by (rule in_order_other [of c' s2 _ "[]"]) (use dl(4) that c1 in \<open>auto simp: channel_ops s2_def\<close>)
    moreover have "\<not> kept (channel s2 c) (seq + 1)"
      using nothing_kept [OF sok eq [symmetric]] v(3) c1 ac by (simp add: s2_def kept_def)
    ultimately show ?thesis using dl(3) by (simp add: rx_ok_def s2_def)
  qed
qed

lemma accept_in_order:
  assumes ok: "rx_ok 2 c F R s w" and c: "c < length (cacheAlreadyPackets s)"
    and h: "HandOn parse b n (s, w) = Inr (s1, w1)" and seq: "seq = recv_of (channel s c) + 1"
    and dr: "drain_cache parse c DEFAULT_WINDOW_COUNT seq (upd_channel c (accept_next seq) s1, w1) = Inr (s2, w2)"
    and d: "take (unat n) b \<in> R" "on_channel c (take (unat n) b)" "seq_of (take (unat n) b) = seq"
  shows "rx_ok 2 c F R (if recv_of (channel s c) = last_of (channel s c) then upd_channel c level_last s2 else s2) w2
     \<and> chan_step F c (s, w) (if recv_of (channel s c) = last_of (channel s c) then upd_channel c level_last s2 else s2, w2)"
proof -
  note ar = accept_ready [OF ok c h seq d]
  show ?thesis
  proof (cases "recv_of (channel s c) = last_of (channel s c)")
    case True
    have "s2 = upd_channel c (accept_next seq) s1" "w2 = w1" using dr ar(6) [OF True] by (simp_all add: drain_stop)
    then show ?thesis using True ar(4,6) chan_step_upd by simp
  next
    case False
    have fin: "rx_ok 2 c F R s2 w2" "chan_step F c (upd_channel c (accept_next seq) s1, w1) (s2, w2)"
      using drain_cache_ok [OF dr ar(5) [OF False] ar(3) ar(1) [symmetric]] by auto
    show ?thesis using False fin chan_step_trans [OF ar(4) fin(2)] by simp
  qed
qed

lemma RecvOrdered_ok:
  assumes r: "RecvOrdered parse b n s w = Inr (ack, s', w')" and ok: "rx_ok 2 c0 F R s w"
    and n: "24 \<le> unat n" and R: "take (unat n) b \<in> R" and on: "on_channel c (take (unat n) b)"
  shows "rx_ok 2 c0 F R s' w' \<and> chan_step F c (s, w) (s', w')"
proof -
  define seq where "seq = hSequenceNo (get_header b)"
  have sq: "seq_of (take (unat n) b) = seq" by (simp add: seq_of_def get_header_take n seq_def)
  have cc: "c = unat (channel_of (flags (get_header b)))" using on n by (simp add: on_channel_def get_header_take)
  have okc: "rx_ok 2 c F R s w" by (rule rx_ok_any [OF ok])
  let ?cap = "channel s c"
  show ?thesis using r
  proof (cases rule: RecvOrdered_elim [where b = b, folded cc seq_def, consumes 1, case_names same dup early nxt])
    case same
    then show ?thesis using ok by (simp add: chan_step_refl)
  next
    case dup
    have sok: "slots_ok 2 ?cap" and st: "store_ok 2 c F R s w" using okc dup by (auto simp: rx_ok_def store_ok_def)
    have "store_ok 2 c F R s' w" unfolding dup(1)
      by (rule store_ok_same_slots [OF st]) (use slots_ok_bump [OF sok, of seq] dup(3,4) in \<open>auto simp: word_less_nat_alt\<close>)
    moreover have "in_order c' s'" if "c' < length (cacheAlreadyPackets s)" for c'
      by (rule in_order_other [of c' s _ "[]"]) (use that okc dup in \<open>auto simp: rx_ok_def channel_ops\<close>)
    ultimately have "rx_ok 2 c F R s' w" using okc dup by (auto simp: rx_ok_def)
    then show ?thesis using dup rx_ok_any chan_step_upd [OF chan_step_refl] by blast
  next
    case early
    have off: "2 \<le> unat (seq - recv_of ?cap)" "unat (seq - recv_of ?cap) < 64"
      using offset_two [OF early(2,3)] early(4) by (simp_all add: word_less_nat_alt)
    show ?thesis unfolding early(8,9)
      using keep_early [OF okc early(1) off early(5-7) R on sq] rx_ok_any by blast
  next
    case nxt
    show ?thesis unfolding nxt(5) using accept_in_order [OF okc nxt(1,3,2,4) R on sq] rx_ok_any by blast
  qed
qed

end

section \<open>Unordered reliable packets\<close>

definition unordered :: "bytes \<Rightarrow> bool" where
  "unordered d \<longleftrightarrow> has_flag (flags (get_header d)) REPEAT \<and> flags (get_header d) AND flag_value CHANNEL = 0"

definition unreliable :: "bytes \<Rightarrow> bool" where
  "unreliable d \<longleftrightarrow> \<not> has_flag (flags (get_header d)) REPEAT"

definition free_log :: "bytes list \<Rightarrow> u32 multiset" where
  "free_log ds = mset (map seq_of (filter unordered ds))"

text \<open>Every number up to \<open>recv\<close> once, and every marked number above it once.\<close>

definition once :: "u64 \<Rightarrow> u32 \<Rightarrow> u32 multiset \<Rightarrow> bool" where
  "once bits recv M \<longleftrightarrow> (\<exists>n. recv = of_nat n \<and>
     M = image_mset of_nat (mset [1..<Suc n]) + image_mset (\<lambda>k. recv + 1 + of_nat k) (mset_set {k. bit bits k}))"

lemma finite_bits: "finite {k. bit (bits :: u64) k}"
  by (rule finite_subset [of _ "{..<64}"]) (auto dest: bit_imp_le_length)

lemma once_mark:
  assumes "once bits recv M" "\<not> bit bits k" "k < 64"
  shows "once (bits OR push_bit k 1) recv (add_mset (recv + 1 + of_nat k) M)"
proof -
  have "{j. bit (bits OR push_bit k 1) j} = insert k {j. bit bits j}" using assms(3) by (auto simp: bit_simps)
  then show ?thesis using assms by (auto simp: once_def finite_bits intro!: exI)
qed

lemma bits_shift: "{k. bit (bits :: u64) (Suc k)} = (\<lambda>k. k - 1) ` ({k. bit bits k} - {0})"
proof (intro set_eqI iffI)
  fix k assume "k \<in> {k. bit bits (Suc k)}"
  then show "k \<in> (\<lambda>k. k - 1) ` ({k. bit bits k} - {0})" by (intro image_eqI [of _ _ "Suc k"]) auto
next
  fix k assume "k \<in> (\<lambda>k. k - 1) ` ({k. bit bits k} - {0})"
  then obtain j where "bit bits j" "j \<noteq> 0" "k = j - 1" by auto
  then show "k \<in> {k. bit bits (Suc k)}" by simp
qed

lemma shift_image:
  "image_mset (\<lambda>k. r + 1 + 1 + of_nat k) (mset_set {k. bit (bits :: u64) (Suc k)})
   = image_mset (\<lambda>k. r + 1 + (of_nat k :: u32)) (mset_set ({k. bit bits k} - {0}))"
proof -
  have inj: "inj_on (\<lambda>k. k - 1 :: nat) ({k. bit bits k} - {0})" by (auto simp: inj_on_def)
  have "mset_set {k. bit bits (Suc k)} = image_mset (\<lambda>k. k - 1) (mset_set ({k. bit bits k} - {0}))"
    unfolding bits_shift by (rule image_mset_mset_set [OF inj, symmetric])
  then have "image_mset (\<lambda>k. r + 1 + 1 + of_nat k) (mset_set {k. bit bits (Suc k)})
      = image_mset (\<lambda>k. r + 1 + 1 + of_nat (k - 1)) (mset_set ({k. bit bits k} - {0}))"
    by (simp add: multiset.map_comp o_def)
  also have "\<dots> = image_mset (\<lambda>k. r + 1 + of_nat k) (mset_set ({k. bit bits k} - {0}))"
    by (rule image_mset_cong) (auto simp: finite_bits of_nat_diff)
  finally show ?thesis .
qed

lemma once_shift:
  assumes "once bits recv M"
  shows "once (drop_bit 1 bits) (recv + 1) (if bit bits 0 then M else add_mset (recv + 1) M)"
proof -
  obtain n where n: "recv = of_nat n"
    and M: "M = image_mset of_nat (mset [1..<Suc n]) + image_mset (\<lambda>k. recv + 1 + of_nat k) (mset_set {k. bit bits k})"
    using assms unfolding once_def by blast
  let ?rest = "image_mset (\<lambda>k. recv + 1 + (of_nat k :: u32)) (mset_set ({k. bit bits k} - {0}))"
  have M0: "(if bit bits 0 then M else add_mset (recv + 1) M) = add_mset (recv + 1) (image_mset of_nat (mset [1..<Suc n]) + ?rest)"
  proof (cases "bit bits 0")
    case True
    then have "mset_set {k. bit bits k} = add_mset 0 (mset_set ({k. bit bits k} - {0}))"
      using mset_set.remove [OF finite_bits, of 0 bits] by simp
    then show ?thesis using M True by simp
  next
    case False
    then have "{k. bit bits k} - {0} = {k. bit bits k}" by auto
    then show ?thesis using M False by simp
  qed
  have bs: "{k. bit (drop_bit 1 bits) k} = {k. bit bits (Suc k)}" by (simp add: bit_simps)
  show ?thesis unfolding once_def M0 bs shift_image
    by (rule exI [of _ "Suc n"]) (simp add: n add.commute)
qed

lemma skip_received_once:
  assumes "once bits recv M"
  shows "once (fst (skip_received bits recv)) (snd (skip_received bits recv)) M
    \<and> \<not> bit (fst (skip_received bits recv)) 0"
  using assms
proof (induction bits recv rule: skip_received.induct)
  case (1 bits recv)
  show ?case
  proof (cases "bit bits 0")
    case True
    then have eq: "skip_received bits recv = skip_received (drop_bit 1 bits) (recv + 1)" by (subst skip_received.simps) (rule if_P)
    show ?thesis unfolding eq using "1.IH" [OF True] once_shift [OF "1.prems"] True by simp
  next
    case False
    then have "skip_received bits recv = (bits, recv)" by (subst skip_received.simps) (rule if_not_P)
    then show ?thesis using False "1.prems" by simp
  qed
qed

definition unordered_ok :: "'e Endpoint_scheme \<Rightarrow> bool" where
  "unordered_ok s \<longleftrightarrow> \<not> bit (cacheRepeatCount (rpsNo s)) 0
     \<and> once (cacheRepeatCount (rpsNo s)) (recvRepeatSeq (rpsNo s)) (free_log (dispatched s))"

definition free_list :: "bytes list \<Rightarrow> u32 list" where
  "free_list ds = map seq_of (filter unreliable ds)"

definition unreliable_ok :: "'e Endpoint_scheme \<Rightarrow> bool" where
  "unreliable_ok s \<longleftrightarrow>
     successively (\<lambda>a b. 0 < b - a \<and> b - a < NO_REPEAT_ACCEPT_RANGE) (0 # free_list (dispatched s))
     \<and> recvRepeatSeq (rNopsNo s) = last (0 # free_list (dispatched s))"

definition dispatch_ok :: "ptr set \<Rightarrow> bytes set \<Rightarrow> 'e Endpoint_scheme \<Rightarrow> World \<Rightarrow> bool" where
  "dispatch_ok F R s w \<longleftrightarrow> rx_ok 2 0 F R s w \<and> unordered_ok s \<and> unreliable_ok s"

lemma kinds_disjoint:
  "on_channel c d \<Longrightarrow> \<not> unordered d" "on_channel c d \<Longrightarrow> \<not> unreliable d" "unordered d \<Longrightarrow> \<not> unreliable d"
  by (auto simp: on_channel_def unordered_def unreliable_def)

lemma logs_frame:
  assumes "dispatched s' = dispatched s @ ds" "rx_base (rpsNo s') = rx_base (rpsNo s)" "rx_base (rNopsNo s') = rx_base (rNopsNo s)"
  shows "\<forall>d \<in> set ds. \<not> unordered d \<Longrightarrow> unordered_ok s' = unordered_ok s"
    and "\<forall>d \<in> set ds. \<not> unreliable d \<Longrightarrow> unreliable_ok s' = unreliable_ok s"
proof -
  have "\<forall>d \<in> set ds. \<not> P d \<Longrightarrow> filter P (dispatched s') = filter P (dispatched s)" for P
    using assms(1) by (simp add: filter_empty_conv)
  then show "\<forall>d \<in> set ds. \<not> unordered d \<Longrightarrow> unordered_ok s' = unordered_ok s"
    and "\<forall>d \<in> set ds. \<not> unreliable d \<Longrightarrow> unreliable_ok s' = unreliable_ok s"
    using assms(2,3) by (auto simp: unordered_ok_def unreliable_ok_def free_log_def free_list_def rx_base_def)
qed

lemma dispatch_ok_chan_step:
  assumes "chan_step F c (s, w) (s', w')" "rx_ok 2 0 F R s' w'" "dispatch_ok F R s w"
  shows "dispatch_ok F R s' w'"
proof -
  obtain ds where ds: "dispatched s' = dispatched s @ ds" "\<forall>d \<in> set ds. on_channel c d"
    and b: "rx_base (rpsNo s') = rx_base (rpsNo s)" "rx_base (rNopsNo s') = rx_base (rNopsNo s)"
    using assms(1) by (auto simp: chan_step_def)
  have "unordered_ok s' = unordered_ok s" "unreliable_ok s' = unreliable_ok s"
    by (rule logs_frame [OF ds(1) b], use ds(2) kinds_disjoint(1,2) in blast)+
  then show ?thesis using assms(2,3) by (simp add: dispatch_ok_def)
qed

lemma cache_at_rpsNo [simp]: "cache_at (s\<lparr>rpsNo := r\<rparr>) = cache_at s" "cache_at (s\<lparr>rNopsNo := r'\<rparr>) = cache_at s"
  "cache_at (s\<lparr>timestamp := t\<rparr>) = cache_at s"
  by (rule ext, rule cache_at_cong, simp_all)+

lemma rx_ok_upd [simp]: "rx_ok lo c F R (s\<lparr>rpsNo := r\<rparr>) w = rx_ok lo c F R s w"
  "rx_ok lo c F R (s\<lparr>rNopsNo := r'\<rparr>) w = rx_ok lo c F R s w" "rx_ok lo c F R (s\<lparr>timestamp := t\<rparr>) w = rx_ok lo c F R s w"
  by (simp_all add: rx_ok_def store_ok_def content_ok_def own_ok_def in_order_def del: cache_at.simps)

context receiver
begin

text \<open>Handing on a packet of no ordered channel.\<close>

lemma HandOn_other:
  assumes h: "HandOn f b n (s, w) = Inr (s', w')" and f: "f = parse \<or> f = chunk" and ok: "rx_ok 2 0 F R s w"
    and d: "take (unat n) b \<in> R" "\<And>c. \<not> on_channel c (take (unat n) b)"
  shows "rx_ok 2 0 F R s' w'" "rx_base (rpsNo s') = rx_base (rpsNo s)" "rx_base (rNopsNo s') = rx_base (rNopsNo s)"
    "dispatched s' = dispatched s @ [take (unat n) b]" "config w' = config w" "\<forall>p \<in> F. caches w' p = caches w p"
    "length (cacheAlreadyPackets s') = length (cacheAlreadyPackets s)"
proof -
  have st: "store_ok 2 0 F R s w" using ok by (simp add: rx_ok_def)
  note hf = HandOn_facts [OF h f st]
  have "in_order c s'" if "c < length (cacheAlreadyPackets s')" for c
    by (rule in_order_other [of c s _ "[take (unat n) b]"])
      (use that ok d(2) hf(3) rx_view_length [OF hf(2)] rx_chan_simps(1) [OF rx_view_chan [OF hf(2)]] in \<open>auto simp: rx_ok_def\<close>)
  then show "rx_ok 2 0 F R s' w'" using hf d(1) ok by (auto simp: rx_ok_def)
  show "rx_base (rpsNo s') = rx_base (rpsNo s)" "rx_base (rNopsNo s') = rx_base (rNopsNo s)"
    "dispatched s' = dispatched s @ [take (unat n) b]" "config w' = config w" "\<forall>p \<in> F. caches w' p = caches w p"
    "length (cacheAlreadyPackets s') = length (cacheAlreadyPackets s)"
    using hf rx_view_length [OF hf(2)] by (auto simp: rx_view_def)
qed

lemma RecvUnreliable_ok:
  assumes r: "RecvUnreliable parse b n s w = Inr (ack, s', w')" and ok: "dispatch_ok F R s w"
    and n: "24 \<le> unat n" and R: "take (unat n) b \<in> R" and on: "unreliable (take (unat n) b)"
  shows "dispatch_ok F R s' w' \<and> config w' = config w \<and> (\<forall>p \<in> F. caches w' p = caches w p)
    \<and> length (cacheAlreadyPackets s') = length (cacheAlreadyPackets s)"
proof (cases "ack")
  case False
  then show ?thesis using r ok by (auto simp: RecvUnreliable_def Let_def split: if_splits)
next
  case True
  let ?d = "take (unat n) b"
  let ?seq = "hSequenceNo (get_header b)"
  from r True obtain s1 where h: "HandOn parse b n (s, w) = Inr (s1, w')"
    and s': "s' = s1\<lparr>rNopsNo := UpdateRecvSequenceNo ?seq (rNopsNo s1)\<rparr>"
    and del: "\<not> ?seq - recvRepeatSeq (rNopsNo s) = 0" "\<not> 0x1fff \<le> ?seq - recvRepeatSeq (rNopsNo s)"
    by (auto simp: RecvUnreliable_def Let_def split: if_splits)
  have sq: "seq_of ?d = ?seq" using n by (simp add: seq_of_def get_header_take)
  have ok0: "rx_ok 2 0 F R s w" using ok by (simp add: dispatch_ok_def)
  have nc: "\<not> on_channel c ?d" for c using on kinds_disjoint by blast
  have nu: "\<not> unordered ?d" using on kinds_disjoint by blast
  note ho = HandOn_other [OF h _ ok0 R nc, simplified]
  have "unordered_ok s1" using logs_frame(1) [OF ho(4,2,3)] nu ok by (auto simp: dispatch_ok_def)
  moreover have "free_list (dispatched s1) = free_list (dispatched s) @ [?seq]" using ho(4) on sq by (simp add: free_list_def)
  moreover have "?seq - recvRepeatSeq (rNopsNo s) < 0x1fff" "0 < ?seq - recvRepeatSeq (rNopsNo s)"
    using del by (simp_all only: not_le word_neq_0_conv)
  ultimately have "unordered_ok s' \<and> unreliable_ok s'" using ok
    by (auto simp: unreliable_ok_def unordered_ok_def dispatch_ok_def s' UpdateRecvSequenceNo_def successively_append_iff
        simp flip: append_Cons)
  then show ?thesis using ho by (simp add: dispatch_ok_def s')
qed

lemma RecvUnordered_mark:
  assumes ok: "dispatch_ok F R s w" and R: "take (unat n) b \<in> R" and on: "unordered (take (unat n) b)"
    and seq: "seq_of (take (unat n) b) = seq" and f: "f = parse \<or> f = chunk"
    and off: "2 \<le> unat (seq - recvRepeatSeq (rpsNo s))" "unat (seq - recvRepeatSeq (rpsNo s)) < 64"
    and new: "\<not> bit (cacheRepeatCount (rpsNo s)) (unat (seq - recvRepeatSeq (rpsNo s) - 1))"
    and rps: "rx_base rps = (recvRepeatSeq (rpsNo s), l,
       cacheRepeatCount (rpsNo s) OR push_bit (unat (seq - recvRepeatSeq (rpsNo s) - 1)) 1)"
    and h: "HandOn f b n (s\<lparr>rpsNo := rps\<rparr>, w) = Inr (s', w')"
  shows "dispatch_ok F R s' w' \<and> config w' = config w \<and> (\<forall>p \<in> F. caches w' p = caches w p)
    \<and> length (cacheAlreadyPackets s') = length (cacheAlreadyPackets s)"
proof -
  let ?d = "take (unat n) b" and ?r = "recvRepeatSeq (rpsNo s)"
  let ?k = "unat (seq - ?r - 1)"
  have ok0: "rx_ok 2 0 F R s w" and un: "unordered_ok s" and nr: "unreliable_ok s" using ok by (simp_all add: dispatch_ok_def)
  have nc: "\<not> on_channel c ?d" for c using on kinds_disjoint by blast
  have ok1: "rx_ok 2 0 F R (s\<lparr>rpsNo := rps\<rparr>) w" using ok0 by simp
  note ho = HandOn_other [OF h f ok1 R nc, simplified]
  have k: "?k < 64" "0 < ?k" "?r + 1 + of_nat ?k = seq"
    using off unat_pred_offset [of seq ?r] by (simp_all add: diff_diff_eq)
  have "free_log (dispatched s') = add_mset seq (free_log (dispatched s))"
    using ho(4) on seq by (simp add: free_log_def)
  moreover have "once (cacheRepeatCount (rpsNo s) OR push_bit ?k 1) ?r (add_mset seq (free_log (dispatched s)))"
    using once_mark [OF _ new k(1), of ?r "free_log (dispatched s)"] un k(3) by (simp add: unordered_ok_def)
  moreover have "\<not> bit (cacheRepeatCount (rpsNo s) OR push_bit ?k 1) 0"
    using un k(2) by (simp add: unordered_ok_def bit_simps)
  ultimately have "unordered_ok s'" using ho(2) rps by (simp add: unordered_ok_def rx_base_def)
  moreover have "unreliable_ok s'"
    using nr ho(3,4) kinds_disjoint(3) [OF on] by (simp add: unreliable_ok_def free_list_def rx_base_def)
  ultimately show ?thesis using ho by (simp add: dispatch_ok_def)
qed

lemma RecvUnordered_next:
  assumes ok: "dispatch_ok F R s w" and R: "take (unat n) b \<in> R" and on: "unordered (take (unat n) b)"
    and seq: "seq_of (take (unat n) b) = recvRepeatSeq (rpsNo s) + 1" and f: "f = parse \<or> f = chunk"
    and rps: "rx_base rps = (recvRepeatSeq (rpsNo s) + 1, l, drop_bit 1 (cacheRepeatCount (rpsNo s)))"
    and h: "HandOn f b n (s\<lparr>rpsNo := rps\<rparr>, w) = Inr (s1, w')"
    and rps': "rx_base rps' = (snd (skip_received (cacheRepeatCount (rpsNo s1)) (recvRepeatSeq (rpsNo s1))), l',
         fst (skip_received (cacheRepeatCount (rpsNo s1)) (recvRepeatSeq (rpsNo s1))))"
  shows "dispatch_ok F R (s1\<lparr>rpsNo := rps'\<rparr>) w' \<and> config w' = config w \<and> (\<forall>p \<in> F. caches w' p = caches w p)
    \<and> length (cacheAlreadyPackets s1) = length (cacheAlreadyPackets s)"
proof -
  let ?d = "take (unat n) b" and ?r = "recvRepeatSeq (rpsNo s)"
  have ok0: "rx_ok 2 0 F R s w" and un: "unordered_ok s" and nr: "unreliable_ok s" using ok by (simp_all add: dispatch_ok_def)
  have nc: "\<not> on_channel c ?d" for c using on kinds_disjoint by blast
  have ok1: "rx_ok 2 0 F R (s\<lparr>rpsNo := rps\<rparr>) w" using ok0 by simp
  note ho = HandOn_other [OF h f ok1 R nc, simplified]
  have "once (drop_bit 1 (cacheRepeatCount (rpsNo s))) (?r + 1) (add_mset (?r + 1) (free_log (dispatched s)))"
    using once_shift [of "cacheRepeatCount (rpsNo s)" ?r "free_log (dispatched s)"] un by (simp add: unordered_ok_def)
  moreover have "free_log (dispatched s1) = add_mset (?r + 1) (free_log (dispatched s))"
    using ho(4) on seq by (simp add: free_log_def)
  ultimately have "once (cacheRepeatCount (rpsNo s1)) (recvRepeatSeq (rpsNo s1)) (free_log (dispatched s1))"
    using ho(2) rps by (simp add: rx_base_def)
  from skip_received_once [OF this] have "unordered_ok (s1\<lparr>rpsNo := rps'\<rparr>)"
    using rps' by (simp add: unordered_ok_def rx_base_def)
  moreover have "unreliable_ok (s1\<lparr>rpsNo := rps'\<rparr>)"
    using nr ho(3,4) kinds_disjoint(3) [OF on] by (simp add: unreliable_ok_def free_list_def rx_base_def)
  ultimately show ?thesis using ho by (simp add: dispatch_ok_def)
qed

lemma dispatch_ok_last: "rx_base r = (recvRepeatSeq (rpsNo s), l, cacheRepeatCount (rpsNo s)) \<Longrightarrow>
    dispatch_ok F R (s\<lparr>rpsNo := r\<rparr>) w = dispatch_ok F R s w"
  by (simp add: dispatch_ok_def unordered_ok_def unreliable_ok_def rx_base_def)

lemma RecvUnordered_ok:
  assumes r: "RecvUnordered parse chunk b n s w = Inr (ack, s', w')" and ok: "dispatch_ok F R s w"
    and n: "24 \<le> unat n" and R: "take (unat n) b \<in> R" and on: "unordered (take (unat n) b)"
  shows "dispatch_ok F R s' w' \<and> config w' = config w \<and> (\<forall>p \<in> F. caches w' p = caches w p)
    \<and> length (cacheAlreadyPackets s') = length (cacheAlreadyPackets s)"
proof -
  define seq where "seq = hSequenceNo (get_header b)"
  define f where "f = (if flags (get_header b) AND flag_value CHUNK = 0 then parse else chunk)"
  let ?r = "recvRepeatSeq (rpsNo s)"
  define rps1 where "rps1 = (if seq - lastRepeatSeq (rpsNo s) < DEFAULT_WINDOW_COUNT32
    then (rpsNo s)\<lparr>lastRepeatSeq := seq\<rparr> else rpsNo s)"
  have sq: "seq_of (take (unat n) b) = seq" using n by (simp add: seq_of_def get_header_take seq_def)
  have ff: "f = parse \<or> f = chunk" by (simp add: f_def)
  have b1: "\<exists>l. rx_base rps1 = (?r, l, cacheRepeatCount (rpsNo s))" by (simp add: rps1_def rx_base_def)
  note r' = r [unfolded RecvUnordered_def Let_def, folded seq_def f_def, folded rps1_def]
  consider (a) "?r - seq < 64 \<or> seq \<noteq> ?r + 1 \<and> 64 \<le> seq - ?r"
    | (b) "\<not> ?r - seq < 64" "seq \<noteq> ?r + 1" "\<not> 64 \<le> seq - ?r" "bit (cacheRepeatCount rps1) (unat (seq - ?r - 1))"
    | (c) "\<not> ?r - seq < 64" "seq \<noteq> ?r + 1" "\<not> 64 \<le> seq - ?r" "\<not> bit (cacheRepeatCount rps1) (unat (seq - ?r - 1))"
    | (d) "\<not> ?r - seq < 64" "seq = ?r + 1" by blast
  then show ?thesis
  proof cases
    case a
    then have "s' = s" "w' = w" using r' by (auto split: if_splits)
    then show ?thesis using ok by simp
  next
    case b
    then have "s' = s\<lparr>rpsNo := rps1\<rparr>" "w' = w" using r' by simp_all
    moreover obtain l where "rx_base rps1 = (?r, l, cacheRepeatCount (rpsNo s))" using b1 by blast
    ultimately show ?thesis using ok dispatch_ok_last [of rps1 s l F R w] by simp
  next
    case c
    let ?rps = "rps1\<lparr>cacheRepeatCount := cacheRepeatCount rps1 OR push_bit (unat (seq - ?r - 1)) 1\<rparr>"
    have h: "HandOn f b n (s\<lparr>rpsNo := ?rps\<rparr>, w) = Inr (s', w')"
      using r' c by (auto simp: split_beta)
    have bits: "cacheRepeatCount rps1 = cacheRepeatCount (rpsNo s)" "recvRepeatSeq rps1 = ?r" using b1 by (auto simp: rx_base_def)
    show ?thesis
      by (rule RecvUnordered_mark [OF ok R on sq ff _ _ _ _ h, where l = "lastRepeatSeq rps1"])
        (use offset_two [OF c(1,2)] c(3,4) bits in \<open>auto simp: word_le_nat_alt rx_base_def\<close>)
  next
    case d
    let ?rps = "(UpdateRecvSequenceNo seq (rpsNo s))\<lparr>cacheRepeatCount := drop_bit 1 (cacheRepeatCount (UpdateRecvSequenceNo seq (rpsNo s)))\<rparr>"
    from r' d obtain s1 where h: "HandOn f b n (s\<lparr>rpsNo := ?rps\<rparr>, w) = Inr (s1, w')"
      and s': "s' = (let (bits, recv) = skip_received (cacheRepeatCount (rpsNo s1)) (recvRepeatSeq (rpsNo s1));
          rps3 = (rpsNo s1)\<lparr>cacheRepeatCount := bits, recvRepeatSeq := recv\<rparr>
        in s1\<lparr>rpsNo := (if ?r = lastRepeatSeq (rpsNo s) then rps3\<lparr>lastRepeatSeq := recv\<rparr> else rps3)\<rparr>)"
      by (auto simp: split_beta Let_def)
    define sk where "sk = skip_received (cacheRepeatCount (rpsNo s1)) (recvRepeatSeq (rpsNo s1))"
    define rps' where "rps' = (let rps3 = (rpsNo s1)\<lparr>cacheRepeatCount := fst sk, recvRepeatSeq := snd sk\<rparr>
      in if ?r = lastRepeatSeq (rpsNo s) then rps3\<lparr>lastRepeatSeq := snd sk\<rparr> else rps3)"
    have s2: "s' = s1\<lparr>rpsNo := rps'\<rparr>" using s' by (simp add: rps'_def sk_def split_beta Let_def)
    show ?thesis using RecvUnordered_next [OF ok R on _ ff _ h, where rps' = rps' and l' = "lastRepeatSeq rps'"
          and l = "lastRepeatSeq (rpsNo s)"] sq d(2)
      by (simp add: s2 rx_base_def UpdateRecvSequenceNo_def rps'_def sk_def Let_def split: if_splits)
  qed
qed

lemma RecvDispatch_ok:
  assumes r: "RecvDispatch parse chunk b n s w = Inr (ack, s', w')" and ok: "dispatch_ok F R s w"
    and n: "24 \<le> unat n" and R: "take (unat n) b \<in> R"
  shows "dispatch_ok F R s' w' \<and> config w' = config w \<and> (\<forall>p \<in> F. caches w' p = caches w p)
    \<and> length (cacheAlreadyPackets s') = length (cacheAlreadyPackets s)"
proof -
  let ?s1 = "s\<lparr>timestamp := fst (GetRelativeTimeMs w)\<rparr>" and ?w1 = "snd (GetRelativeTimeMs w)"
  let ?fl = "flags (get_header b)"
  have h: "get_header (take (unat n) b) = get_header b" using n by (rule get_header_take)
  have ok1: "dispatch_ok F R ?s1 ?w1"
    using ok by (simp add: dispatch_ok_def unordered_ok_def unreliable_ok_def rx_ok_def store_ok_def content_ok_def
        own_ok_def cm_ok_def in_order_def del: cache_at.simps)
  show ?thesis
  proof (cases "has_flag ?fl REPEAT \<and> 0 < ?fl AND flag_value CHANNEL")
    case True
    then have on: "on_channel (unat (channel_of ?fl)) (take (unat n) b)" using h by (simp add: on_channel_def)
    have rr: "RecvOrdered parse b n ?s1 ?w1 = Inr (ack, s', w')"
      using r True by (simp add: RecvDispatch_def Let_def split_beta)
    have "rx_ok 2 0 F R s' w'" "chan_step F (unat (channel_of ?fl)) (?s1, ?w1) (s', w')"
      using RecvOrdered_ok [OF rr _ n R on] ok1 by (auto simp: dispatch_ok_def)
    then show ?thesis using dispatch_ok_chan_step [OF _ _ ok1] by (auto simp: chan_step_def)
  next
    case False
    show ?thesis
    proof (cases "has_flag ?fl REPEAT")
      case True
      then have nz: "\<not> 0 < ?fl AND flag_value CHANNEL" using False by blast
      then have "?fl AND flag_value CHANNEL = 0" by (metis word_neq_0_conv)
      with nz have "unordered (take (unat n) b)" "RecvUnordered parse chunk b n ?s1 ?w1 = Inr (ack, s', w')"
        using r True h by (auto simp: RecvDispatch_def Let_def split_beta unordered_def)
      then show ?thesis using RecvUnordered_ok [OF _ ok1 n R] by auto
    next
      case no: False
      then have "unreliable (take (unat n) b)" "RecvUnreliable parse b n ?s1 ?w1 = Inr (ack, s', w')"
        using r h by (auto simp: RecvDispatch_def Let_def split_beta unreliable_def)
      then show ?thesis using RecvUnreliable_ok [OF _ ok1 n R] by auto
    qed
  qed
qed

end

section \<open>Nothing goes wrong when the parser does not\<close>

context receiver
begin

lemma HandOn_total: "(\<And>sw. \<exists>sw'. f b n sw = Inr sw') \<Longrightarrow> \<exists>r. HandOn f b n (s, w) = Inr r"
  by (simp add: HandOn_def del: split_paired_Ex)

lemma drain_cache_total:
  assumes "rx_ok 1 c F R s w" and "c < length (cacheAlreadyPackets s)" and "idx = recv_of (channel s c)"
    and "unat (last_of (channel s c) - recv_of (channel s c)) < n"
    and tot: "\<And>b n sw. take (unat n) b \<in> R \<Longrightarrow> \<exists>sw'. parse b n sw = Inr sw'"
  shows "\<exists>s' w'. drain_cache parse c n idx (s, w) = Inr (s', w')"
  using assms(1-4)
proof (induction n arbitrary: idx s w)
  case (Suc n)
  let ?cap = "channel s c" and ?q = "idx + 1"
  have sok: "slots_ok 1 ?cap" using Suc.prems by (auto simp: rx_ok_def store_ok_def)
  show ?case
  proof (cases "last_of ?cap = idx \<or> \<not> kept ?cap ?q")
    case True
    then show ?thesis by (auto simp: kept_def Let_def)
  next
    case False
    then have k: "kept ?cap ?q" and ne: "last_of ?cap \<noteq> recv_of ?cap" using Suc.prems(3) by auto
    obtain p where p: "cp_buffer (cachePackets ?cap ! slot ?q) = Some p" using keptD(3) [OF sok k] by auto
    let ?b = "cbuffer (caches w p)" and ?n = "csize (caches w p)"
    have "cache_at s (SlotLoc c (slot ?q)) = Some p" using p Suc.prems(2) sok by (simp add: slots_ok_def)
    then have "cached w p \<in> R \<and> on_channel c (cached w p) \<and> seq_of (cached w p) = ?q"
      using Suc.prems(1) k unfolding rx_ok_def store_ok_def content_ok_def by (simp only: kept_def)
    then have d: "take (unat ?n) ?b \<in> R" "on_channel c (take (unat ?n) ?b)"
      "seq_of (take (unat ?n) ?b) = recv_of ?cap + 1" using Suc.prems(3) by (simp_all add: cached_def)
    obtain s1 w1 where h: "HandOn parse ?b ?n (s, w) = Inr (s1, w1)"
      using HandOn_total [of parse ?b ?n s w] tot [OF d(1)] by auto
    have rk: "recv_of (release_kept ?q cap) = recv_of cap + 1" "last_of (release_kept ?q cap) = last_of cap" for cap
      by (simp_all add: channel_ops)
    have rk': "recv_of cap = recv_of ?cap \<Longrightarrow> recv_of (release_kept ?q cap) = recv_of ?cap + 1" for cap by (simp add: rk)
    note dl = deliver [OF h Suc.prems(1,2) d rk']
    note v = rx_chan_simps [OF dl(1)]
    have p1: "cp_buffer (cachePackets (channel s1 c) ! slot ?q) = Some p" using p v by simp
    have c1: "c < length (cacheAlreadyPackets s1)" using dl(6) Suc.prems(2) by simp
    let ?s2 = "upd_channel c (release_kept ?q) s1"
    have "store_ok 1 c F R ?s2 (Cache_PushPacketBuffer p w1)"
      by (rule store_ok_release [OF dl(2) c1 _ _ _ p1]) (use v k ne Suc.prems(3) in auto)
    then have ok1: "rx_ok 1 c F R ?s2 (Cache_PushPacketBuffer p w1)" using dl(3,4) by (simp add: rx_ok_def)
    have off: "1 \<le> unat (last_of ?cap - recv_of ?cap)" using ne by (simp add: Suc_le_eq unat_gt_0)
    have "\<exists>s' w'. drain_cache parse c n ?q (?s2, Cache_PushPacketBuffer p w1) = Inr (s', w')"
      by (rule Suc.IH [OF ok1]) (use c1 rk v Suc.prems(3,4) unat_pred_offset [OF off] off in auto)
    then show ?thesis using False p h p1 by (auto simp: kept_def Let_def)
  qed
qed simp

lemma RecvOrdered_total:
  assumes ok: "rx_ok 2 c0 F R s w" and n: "24 \<le> unat n" "unat n \<le> length b" "unat n \<le> 1024"
    and R: "take (unat n) b \<in> R" and on: "on_channel c (take (unat n) b)"
    and len: "length (cacheAlreadyPackets s) = Suc (unat (g_channelMask (config w)))"
    and tot: "\<And>b n sw. take (unat n) b \<in> R \<Longrightarrow> \<exists>sw'. parse b n sw = Inr sw'"
  shows "\<exists>r. RecvOrdered parse b n s w = Inr r"
proof -
  define seq where "seq = hSequenceNo (get_header b)"
  have sq: "seq_of (take (unat n) b) = seq" by (simp add: seq_of_def get_header_take n seq_def)
  have cc: "c = unat (channel_of (flags (get_header b)))" using on n by (simp add: on_channel_def get_header_take)
  have okc: "rx_ok 2 c F R s w" by (rule rx_ok_any [OF ok])
  show ?thesis
  proof (cases "g_channelMask (config w) < ucast (channel_of (flags (get_header b)))")
    case True
    then show ?thesis by (simp add: RecvOrdered_def Let_def del: split_paired_Ex)
  next
    case False
    have "unat (ucast (channel_of (flags (get_header b))) :: u32) = c"
      using cc channel_of_less [of "flags (get_header b)"] by (simp add: unsigned_ucast_eq take_bit_nat_eq_self)
    then have c: "c < length (cacheAlreadyPackets s)" using False len by (simp add: word_less_nat_alt)
    show ?thesis
    proof (cases "\<not> recv_of (channel s c) - seq < 64 \<and> seq = recv_of (channel s c) + 1")
      case True
      obtain s1 w1 where h: "HandOn parse b n (s, w) = Inr (s1, w1)" using HandOn_total [of parse b n s w] tot [OF R] by auto
      have "\<exists>s2 w2. drain_cache parse c DEFAULT_WINDOW_COUNT seq (upd_channel c (accept_next seq) s1, w1) = Inr (s2, w2)"
      proof (cases "recv_of (channel s c) = last_of (channel s c)")
        case eq: True
        then show ?thesis using accept_ready(6) [OF okc c h _ R on sq] True by (simp add: drain_stop)
      next
        case ne: False
        have sq': "seq = recv_of (channel s c) + 1" using True by simp
        note ar = accept_ready [OF okc c h sq' R on sq]
        have "slots_ok 1 (channel (upd_channel c (accept_next seq) s1) c)"
          using ar(5) [OF ne] ar(3) by (auto simp: rx_ok_def store_ok_def)
        then show ?thesis
          by (intro drain_cache_total [OF ar(5) [OF ne] ar(3) ar(1) [symmetric] _ tot]) (auto simp: slots_ok_def)
      qed
      then show ?thesis using False True c h
        by (auto simp: RecvOrdered_def Let_def cc [symmetric] seq_def [symmetric])
    next
      case no: False
      show ?thesis using False no c n
        by (auto simp: RecvOrdered_def Let_def cc [symmetric] seq_def [symmetric] CachePacketBuffer_Copy_def split_beta)
    qed
  qed
qed

lemma RecvDispatch_total:
  assumes ok: "dispatch_ok F R s w" and n: "24 \<le> unat n" "unat n \<le> length b" "unat n \<le> 1024"
    and R: "take (unat n) b \<in> R" and len: "length (cacheAlreadyPackets s) = Suc (unat (g_channelMask (config w)))"
    and tot: "\<And>b n sw. take (unat n) b \<in> R \<Longrightarrow> \<exists>sw'. parse b n sw = Inr sw'"
    and tot': "\<And>b n sw. take (unat n) b \<in> R \<Longrightarrow> \<exists>sw'. chunk b n sw = Inr sw'"
  shows "\<exists>r. RecvDispatch parse chunk b n s w = Inr r"
proof -
  let ?s1 = "s\<lparr>timestamp := fst (GetRelativeTimeMs w)\<rparr>" and ?w1 = "snd (GetRelativeTimeMs w)"
  let ?fl = "flags (get_header b)"
  have h: "get_header (take (unat n) b) = get_header b" using n(1) by (rule get_header_take)
  have ok1: "rx_ok 2 0 F R ?s1 ?w1"
    using ok by (simp add: dispatch_ok_def rx_ok_def store_ok_def content_ok_def own_ok_def cm_ok_def in_order_def
        del: cache_at.simps)
  have ho: "\<exists>r. HandOn (if P then parse else chunk) b n (s0, w0) = Inr r" "\<exists>r. HandOn parse b n (s0, w0) = Inr r" for P s0 w0
    by (rule HandOn_total, use tot [OF R] tot' [OF R] in \<open>simp del: split_paired_Ex\<close>)+
  have 1: "\<exists>r. RecvUnreliable parse b n s0 w0 = Inr r" for s0 w0
    by (simp add: RecvUnreliable_def Let_def split_beta andThen_total ho del: split_paired_Ex)
  have 2: "\<exists>r. RecvUnordered parse chunk b n s0 w0 = Inr r" for s0 w0
    by (simp add: RecvUnordered_def Let_def split_beta andThen_total ho del: split_paired_Ex)
  have 3: "\<exists>r. RecvOrdered parse b n ?s1 ?w1 = Inr r"
    if "has_flag ?fl REPEAT" "0 < ?fl AND flag_value CHANNEL"
    by (rule RecvOrdered_total [OF ok1 n R _ _ tot, where c = "unat (channel_of ?fl)"])
      (use that h len in \<open>auto simp: on_channel_def\<close>)
  show ?thesis using 1 2 3 by (simp add: RecvDispatch_def Let_def split_beta del: split_paired_Ex)
qed

end

lemma distinct_of_mset_set:
  assumes "mset L = mset_set A" "finite A"
  shows "distinct L" "set L = A"
proof -
  show set: "set L = A" using assms by (metis finite_set_mset_mset_set set_mset_mset)
  show "distinct L" unfolding distinct_count_atmost_1 assms(1) set by (simp add: count_mset_set assms(2))
qed

lemma once_as_set:
  assumes "recv = of_nat m"
  shows "image_mset of_nat (mset [1..<Suc m]) + image_mset (\<lambda>k. recv + 1 + of_nat k) (mset_set {k. bit (bits :: u64) k})
    = image_mset of_nat (mset_set ({1..<Suc m} \<union> (\<lambda>k. Suc m + k) ` {k. bit bits k}))"
proof -
  let ?K = "(\<lambda>k. Suc m + k) ` {k. bit bits k}"
  have inj: "inj_on (\<lambda>k. Suc m + k) {k. bit bits k}" by (simp add: inj_on_def)
  have "image_mset (\<lambda>k. recv + 1 + of_nat k) (mset_set {k. bit bits k})
      = image_mset of_nat (image_mset (\<lambda>k. Suc m + k) (mset_set {k. bit bits k}))"
    unfolding multiset.map_comp by (rule image_mset_cong) (simp add: assms add_ac)
  also have "\<dots> = image_mset of_nat (mset_set ?K)" unfolding image_mset_mset_set [OF inj] ..
  finally have 1: "image_mset (\<lambda>k. recv + 1 + of_nat k) (mset_set {k. bit bits k}) = image_mset of_nat (mset_set ?K)" .
  have 2: "mset [1..<Suc m] = mset_set {1..<Suc m}" by (metis mset_set_set distinct_upt set_upt)
  have "mset_set ({1..<Suc m} \<union> ?K) = mset_set {1..<Suc m} + mset_set ?K"
    by (rule mset_set_Union) (use finite_bits in auto)
  then show ?thesis unfolding 1 2 by (simp only: image_mset_union)
qed

lemma once_distinct:
  assumes o: "once bits recv (mset L)" and n: "length L < 4294967232"
  shows "distinct L \<and> (\<forall>q. 0 < unat q \<and> unat q \<le> unat recv \<longrightarrow> q \<in> set L)"
proof -
  obtain m where m: "recv = of_nat m"
    and M: "mset L = image_mset of_nat (mset [1..<Suc m]) + image_mset (\<lambda>k. recv + 1 + of_nat k) (mset_set {k. bit bits k})"
    using o unfolding once_def by blast
  let ?S = "{1..<Suc m} \<union> (\<lambda>k. Suc m + k) ` {k. bit bits k}"
  have "length L = size (mset L)" by (rule size_mset [symmetric])
  also have "m \<le> \<dots>" unfolding M by simp
  finally have mn: "m < 4294967232" using n by simp
  have "k < 64" if "bit bits k" for k using that bit_imp_le_length [of bits k] by simp
  then have small: "x < 4294967296" if "x \<in> ?S" for x using that mn by force
  let ?A = "(of_nat :: nat \<Rightarrow> u32) ` ?S"
  have eq: "mset L = mset_set ?A"
    unfolding M once_as_set [OF m] by (rule image_mset_mset_set [OF inj_on_of_nat_u32 [OF small]])
  have finA: "finite ?A" using finite_bits by simp
  have "q \<in> set L" if q: "0 < unat q" "unat q \<le> unat recv" for q
  proof -
    have "unat recv = m" using m mn by (simp add: unat_of_nat_u32)
    then have "unat q \<in> ?S" using q by simp
    moreover have "q = of_nat (unat q)" by simp
    ultimately show ?thesis unfolding distinct_of_mset_set(2) [OF eq finA] by (rule rev_image_eqI)
  qed
  then show ?thesis using distinct_of_mset_set(1) [OF eq finA] by blast
qed


context receiver
begin

lemma HandOn_log:
  "HandOn parse b n (s, w) = Inr (s', w') \<Longrightarrow> dispatched s' = dispatched s @ [take (unat n) b]"
  using HandOn_careful [of parse b n s w s' w'] by (simp add: careful_def)

lemma drain_cache_log:
  "drain_cache parse c n idx (s, w) = Inr (s', w') \<Longrightarrow> set (dispatched s) \<subseteq> set (dispatched s')"
proof (induction n arbitrary: idx s w)
  case (Suc n)
  then show ?case
    by (fastforce simp: Let_def split: if_splits option.splits dest!: HandOn_log)
qed simp

lemma RecvOrdered_ack:
  assumes r: "RecvOrdered parse b n s w = Inr (True, s', w')" and n: "24 \<le> unat n"
    and on: "on_channel c (take (unat n) b)" and ok: "rx_ok 2 c0 F R s w"
  shows "s' = s \<and> recv_of (channel s c) - seq_of (take (unat n) b) < 64
    \<or> kept (channel s' c) (seq_of (take (unat n) b))
    \<or> take (unat n) b \<in> set (dispatched s')"
proof -
  define seq where "seq = hSequenceNo (get_header b)"
  have sq: "seq_of (take (unat n) b) = seq" by (simp add: seq_of_def get_header_take n seq_def)
  have cc: "c = unat (channel_of (flags (get_header b)))" using on n by (simp add: on_channel_def get_header_take)
  show ?thesis using r
  proof (cases rule: RecvOrdered_elim [where b = b, folded cc seq_def, consumes 1, case_names same dup early nxt])
    case same
    then show ?thesis by (simp add: sq)
  next
    case dup
    then show ?thesis by (simp add: sq)
  next
    case early
    have "slots_ok 2 (channel s c)" using ok early(1) by (simp add: rx_ok_def store_ok_def split: if_splits)
    then show ?thesis using early(1) unfolding early(8) by (auto simp: sq kept_def channel_ops slots_ok_def)
  next
    case (nxt s1 w1 s2)
    have "take (unat n) b \<in> set (dispatched s2)" using drain_cache_log [OF nxt(4)] HandOn_log [OF nxt(3)] by auto
    then show ?thesis unfolding nxt(5) by simp
  qed
qed

lemma RecvDispatch_ack:
  assumes r: "RecvDispatch parse chunk b n s w = Inr (True, s', w')" and n: "24 \<le> unat n"
    and on: "on_channel c (take (unat n) b)" and ok: "dispatch_ok F R s w"
  shows "dispatched s' = dispatched s \<and> recv_of (channel s c) - seq_of (take (unat n) b) < 64
    \<or> kept (channel s' c) (seq_of (take (unat n) b))
    \<or> take (unat n) b \<in> set (dispatched s')"
proof -
  let ?s1 = "s\<lparr>timestamp := fst (GetRelativeTimeMs w)\<rparr>" and ?w1 = "snd (GetRelativeTimeMs w)"
  have "get_header (take (unat n) b) = get_header b" using n by (rule get_header_take)
  then have rr: "RecvOrdered parse b n ?s1 ?w1 = Inr (True, s', w')"
    using r on by (simp add: RecvDispatch_def Let_def split_beta on_channel_def)
  have ok1: "rx_ok 2 0 F R ?s1 ?w1"
    using ok by (simp add: dispatch_ok_def rx_ok_def store_ok_def content_ok_def own_ok_def cm_ok_def in_order_def
        del: cache_at.simps)
  show ?thesis using RecvOrdered_ack [OF rr n on ok1] by auto
qed

end


end
