(* ===== verification/Dubu_Frame.thy ===== *)
theory Dubu_Frame
  imports Dubu_Send Dubu_Delivery
begin

text \<open>
  Sending, acknowledging and retransmitting do not touch the receive state or the cache
  buffers (such steps are \<open>calm\<close>), and reassembling chunks takes and returns cache
  buffers without disturbing those that hold early packets. These are the two laws of the locale
  \<open>receiver\<close>.
\<close>

section \<open>What the send path leaves alone\<close>

definition rx_world :: "World \<Rightarrow> _" where
  "rx_world w = (caches w, cacheManager w, config w, bigMemoryPtrs w)"

lemma quiet_iff:
  "quiet (s, w) (s', w') \<longleftrightarrow> rx_view s' = rx_view s \<and> chunckPakcetInj s' = chunckPakcetInj s
     \<and> dispatched s' = dispatched s \<and> rx_world w' = rx_world w"
  by (auto simp: quiet_def rx_world_def)

lemma rx_world_pool [frame_simps]:
  "rx_world (snd (PopPacketBuffer w)) = rx_world w" "rx_world (PushPacketBuffer p w) = rx_world w"
  "rx_world (SetType p t w) = rx_world w" "rx_world (snd (GetRelativeTimeMs w)) = rx_world w"
  "rx_world (OverlappedObj_Initialize p w) = rx_world w" "rx_world (drop_reliable p w) = rx_world w"
  "rx_world (w\<lparr>packets := f\<rparr>) = rx_world w"
  by (simp_all add: rx_world_def PopPacketBuffer_def new_packet_buffer_def PushPacketBuffer_def SetType_def
      GetRelativeTimeMs_def OverlappedObj_Initialize_def drop_reliable_def fetch_and_not_def Let_def split_beta)

lemma rx_world_send [frame_simps]:
  "WSASendTo a p w = Inr w' \<Longrightarrow> rx_world w' = rx_world w" "SendTo a p w = Inr w' \<Longrightarrow> rx_world w' = rx_world w"
  "SendToReliable a p w = Inr w' \<Longrightarrow> rx_world w' = rx_world w" "SendToRepeat a p w = Inr w' \<Longrightarrow> rx_world w' = rx_world w"
  by (auto simp: WSASendTo_def SendTo_def SendToReliable_def SendToRepeat_def Let_def rx_world_def SetType_def
      OverlappedObj_Initialize_def split: if_splits)

lemma rx_world_Pop: "PopPacketBuffer w = (p, w') \<Longrightarrow> rx_world w' = rx_world w"
  "GetRelativeTimeMs w = (now, w') \<Longrightarrow> rx_world w' = rx_world w"
  using rx_world_pool(1) [of w] rx_world_pool(4) [of w] by auto

lemma rx_base_send [frame_simps]:
  "rx_base (snd (UpdateSendSequenceNo ps)) = rx_base ps" "rx_base (snd (AddPendingPacket w p rps)) = rx_base rps"
  "rx_base (fst (AckProcess a rps rtt w)) = rx_base rps"
  by (auto simp: rx_base_def UpdateSendSequenceNo_def AddPendingPacket_def AckProcess_def Let_def split_beta
      split: option.splits if_splits)

lemma rx_view_rps:
  "rx_base r = rx_base (rpsNo s) \<Longrightarrow> rx_view (s\<lparr>rpsNo := r\<rparr>) = rx_view s"
  "rx_base r' = rx_base (rNopsNo s) \<Longrightarrow> rx_view (s\<lparr>rNopsNo := r'\<rparr>) = rx_view s"
  by (simp_all add: rx_view_def)

lemma rx_view_channel:
  "rx_chan (f (channel s c)) = rx_chan (channel s c) \<Longrightarrow> rx_view (upd_channel c f s) = rx_view s"
  by (simp add: rx_view_def upd_channel_def map_update list_update_same_conv)
    (metis list_update_beyond list_update_id map_update linorder_not_less nth_map)

lemma rx_view_channel_state:
  "rx_base r = rx_base (reliablePacketState (channel s c)) \<Longrightarrow> rx_view (upd_channel c (upd_state (\<lambda>_. r)) s) = rx_view s"
  by (rule rx_view_channel) (simp add: rx_chan_def upd_state_def)

lemma next_sequence_quiet: "next_sequence opt s = Inr (q, s') \<Longrightarrow> quiet (s, w) (s', w)"
  using rx_base_send(1) [of "rpsNo s"] rx_base_send(1) [of "rNopsNo s"]
    rx_base_send(1) [of "reliablePacketState (channel s (unat (channelID opt)))"]
  by (auto simp: next_sequence_def quiet_iff Let_def split_beta rx_view_rps rx_view_channel_state split: if_splits)

lemma register_pending_quiet: "quiet (s, w) (snd (register_pending opt p w0 s), w)"
  using rx_base_send(2) [of w0 p "rpsNo s"] rx_base_send(2) [of w0 p "reliablePacketState (channel s (unat (channelID opt)))"]
  by (auto simp: register_pending_def quiet_iff Let_def split_beta rx_view_rps rx_view_channel_state)

lemma quiet_world: "rx_world w' = rx_world w \<Longrightarrow> quiet (s, w) (s, w')"
  by (simp add: quiet_iff)

definition calm :: "'e step \<Rightarrow> bool" where
  "calm f \<longleftrightarrow> (\<forall>sw sw'. f sw = Inr sw' \<longrightarrow> quiet sw sw')"

lemma calmI [intro]: "(\<And>s w s' w'. f (s, w) = Inr (s', w') \<Longrightarrow> quiet (s, w) (s', w')) \<Longrightarrow> calm f"
  by (auto simp: calm_def)

lemma calmD: "calm f \<Longrightarrow> f sw = Inr sw' \<Longrightarrow> quiet sw sw'"
  unfolding calm_def by blast

lemma calm_seq: "calm f \<Longrightarrow> calm g \<Longrightarrow> calm (\<lambda>sw. andThen (f sw) g)"
  unfolding calm_def using quiet_trans by blast

lemma transmit_calm:
  assumes "\<And>p. calm (ovf p)"
  shows "calm (transmit ovf opt p)"
proof
  fix s w s' w' assume r: "transmit ovf opt p (s, w) = Inr (s', w')"
  have q: "quiet (s, w) (snd (register_pending opt p w s), w)" by (rule register_pending_quiet)
  consider "SendToReliable (addr s') p w = Inr w'" "s' = snd (register_pending opt p w s)"
    | "ovf p (snd (register_pending opt p w s), w) = Inr (s', w')"
    | "SendTo (addr s) p w = Inr w'" "s' = s"
    using r by (auto simp: transmit_def split_beta split: if_splits)
  then show "quiet (s, w) (s', w')"
  proof cases
    case 1
    then show ?thesis using q quiet_world [OF rx_world_send(3)] quiet_trans by blast
  next
    case 2
    then show ?thesis using q calmD [OF assms] quiet_trans by blast
  next
    case 3
    then show ?thesis using quiet_world [OF rx_world_send(2)] by blast
  qed
qed

lemma SendOne_calm:
  assumes ovf: "\<And>p. calm (ovf p)"
  shows "calm (SendOne ovf payload code sz opt sub)"
proof
  fix s w s' w' assume r: "SendOne ovf payload code sz opt sub (s, w) = Inr (s', w')"
  obtain p w1 where pop: "PopPacketBuffer w = (p, w1)" by force
  obtain now w2 where tm: "GetRelativeTimeMs w1 = (now, w2)" by force
  obtain q s1 n b where seq: "next_sequence opt s = Inr (q, s1)"
    and tr: "transmit ovf opt p (s1, store_packet p n b w2) = Inr (s', w')"
    using r pop tm by (auto simp: SendOne_def split_beta split: if_splits)
  have "rx_world (store_packet p n b w2) = rx_world w"
    using rx_world_Pop(1) [OF pop] rx_world_Pop(2) [OF tm] by (simp add: store_packet_def frame_simps)
  then have "quiet (s, w) (s1, store_packet p n b w2)"
    using next_sequence_quiet [OF seq, of w] quiet_world [of _ w s1] quiet_trans by blast
  then show "quiet (s, w) (s', w')" using calmD [OF transmit_calm [of ovf, OF ovf] tr] quiet_trans by blast
qed

lemma send_chunks_calm:
  assumes ovf: "\<And>p. calm (ovf p)"
  shows "calm (send_chunks ovf payload code sz cs sub k i lb)"
proof (induction k arbitrary: i lb)
  case (Suc k)
  show ?case unfolding send_chunks.simps Let_def
    by (intro calm_seq SendOne_calm ovf Suc.IH)
qed (simp add: calm_def)

lemma SendPacket_calm:
  assumes ovf: "\<And>p. calm (ovf p)"
  shows "calm (SendPacket ovf payload code sz opt sub)"
  using calmD [OF SendOne_calm [of ovf, OF ovf]] calmD [OF send_chunks_calm [of ovf, OF ovf]]
  by (auto simp: calm_def SendPacket_def SendPacketChunk_def Let_def split: if_splits)

lemma RecvDispatchACK_quiet:
  assumes "RecvDispatchACK b n s w = Inr (r, s', w')"
  shows "quiet (s, w) (s', w')"
proof -
  have rw: "rx_world (snd (snd (AckProcess a rps rtt w))) = rx_world w" for a rps rtt
    by (auto simp: AckProcess_def Let_def split_beta frame_simps split: option.splits)
  have "rx_view (upd_channel c (upd_state (\<lambda>_. fst (AckProcess a (reliablePacketState (channel s c)) rtt w))) (s\<lparr>rttMillisec := t\<rparr>)) = rx_view s" for c a rtt t
    using rx_view_channel_state [of "fst (AckProcess a (reliablePacketState (channel s c)) rtt w)" "s\<lparr>rttMillisec := t\<rparr>" c]
    by (simp add: frame_simps) (simp add: rx_view_def)
  moreover have "rx_view (s\<lparr>rpsNo := fst (AckProcess a (rpsNo s) rtt w), rttMillisec := t\<rparr>) = rx_view s" for a rtt t
    by (simp add: rx_view_def frame_simps)
  ultimately show ?thesis using assms rw
    by (auto simp: RecvDispatchACK_def Let_def split_beta quiet_iff split: if_splits)
qed

lemma repeat_from_world:
  "repeat_from to d now lim cur (pend, w) = Inr (pend', w') \<Longrightarrow> rx_world w' = rx_world w"
proof (induction to d now lim cur "(pend, w)" arbitrary: pend w rule: repeat_from.induct)
  case (1 to d now lim cur)
  show ?case
  proof (cases "cur = lim")
    case True
    then show ?thesis using "1.prems" by (subst (asm) repeat_from.simps) simp
  next
    case False
    from "1.prems" False obtain pend1 w1 where
      one: "(case pp_buffer (pend ! slot cur) of
              None \<Rightarrow> Inr (pend, w)
            | Some p \<Rightarrow>
                if otype (packets w p) AND obj_type SENDING = 0 \<and> d \<le> now - pp_timeStamp (pend ! slot cur)
                then andThen (SendToRepeat to p w)
                  (\<lambda>w1. Inr (pend[slot cur := (pend ! slot cur)\<lparr>pp_timeStamp := now\<rparr>], w1))
                else Inr (pend, w)) = Inr (pend1, w1)"
      and rest: "repeat_from to d now lim (cur + 1) (pend1, w1) = Inr (pend', w')"
      by (subst (asm) repeat_from.simps) auto
    have "rx_world w1 = rx_world w" using one rx_world_send(4) by (auto split: option.splits if_splits)
    then show ?thesis using "1.hyps" [OF False _ rest] one by simp
  qed
qed

lemma RepeatMessage_frame:
  assumes "RepeatMessage to d now (rps, w) = Inr (rps', w')"
  shows "rx_base rps' = rx_base rps \<and> rx_world w' = rx_world w"
  using assms repeat_from_world by (fastforce simp: RepeatMessage_def rx_base_def)

lemma repeat_if_pending_frame:
  "repeat_if_pending to d now (rps, w) = Inr (rps', w') \<Longrightarrow> rx_base rps' = rx_base rps \<and> rx_world w' = rx_world w"
  using RepeatMessage_frame by (auto simp: repeat_if_pending_def split: if_splits)

lemma over_channels_calm:
  assumes f: "\<And>cap w cap' w'. f (cap, w) = Inr (cap', w') \<Longrightarrow> rx_chan cap' = rx_chan cap \<and> rx_world w' = rx_world w"
  shows "calm (over_channels f cs :: 'e step)"
proof (induction cs)
  case (Cons c cs)
  show ?case
  proof
    fix s :: "'e Endpoint_scheme" and w s' w' assume r: "over_channels f (c # cs) (s, w) = Inr (s', w')"
    then obtain cap w1 where one: "f (channel s c, w) = Inr (cap, w1)"
      and rest: "over_channels f cs (upd_channel c (\<lambda>_. cap) s, w1) = Inr (s', w')" by (auto split: if_splits)
    have "quiet (s, w) (upd_channel c (\<lambda>_. cap) s, w1)"
      using f [OF one] rx_view_channel [of "\<lambda>_. cap" s c] by (simp add: quiet_iff)
    then show "quiet (s, w) (s', w')" using calmD [OF Cons.IH rest] quiet_trans by blast
  qed
qed (simp add: calm_def)

lemma RepeatMessageAll_calm: "calm (RepeatMessageAll d)"
proof
  fix s :: "'a Endpoint_scheme" and w s' w' assume r: "RepeatMessageAll d (s, w) = Inr (s', w')"
  obtain now w1 where tm: "GetRelativeTimeMs w = (now, w1)" by force
  from r tm obtain rps w2 where one: "repeat_if_pending (addr s) d now (rpsNo s, w1) = Inr (rps, w2)"
    and rest: "over_channels (repeat_channel (addr s) d now) [0..<Suc (unat (g_channelMask (config w)))] (s\<lparr>rpsNo := rps\<rparr>, w2) = Inr (s', w')"
    by (auto simp: RepeatMessageAll_def)
  have c: "calm (over_channels (repeat_channel (addr s) d now) cs)" for cs
    by (rule over_channels_calm) (use repeat_if_pending_frame in \<open>fastforce simp: repeat_channel_def rx_chan_def\<close>)
  have "quiet (s, w) (s\<lparr>rpsNo := rps\<rparr>, w2)"
    using repeat_if_pending_frame [OF one] rx_world_Pop(2) [OF tm] by (simp add: quiet_iff rx_view_rps)
  then show "quiet (s, w) (s', w')" using calmD [OF c rest] quiet_trans by blast
qed

section \<open>Reassembly and the cache buffers\<close>

definition owns :: "ptr set \<Rightarrow> ('l \<rightharpoonup> ptr) \<Rightarrow> World \<Rightarrow> bool" where
  "owns F own w \<longleftrightarrow> cm_ok w \<and> F \<subseteq> cacheInUse w \<and> ran own \<subseteq> cacheInUse w - F \<and> inj_on own (dom own)"

lemma own_ok_owns: "own_ok F s w \<longleftrightarrow> owns F (cache_at s) w"
  unfolding own_ok_def owns_def inj_on_def ran_def dom_def by (auto simp: set_eq_iff)

lemma owns_mono: "owns F own w \<Longrightarrow> m \<subseteq>\<^sub>m own \<Longrightarrow> owns F m w"
  unfolding owns_def map_le_def inj_on_def ran_def dom_def by (auto simp: subset_iff) metis+

lemma owns_give:
  assumes "owns F own w" "own l = Some p"
  shows "owns F (own(l := None)) (Cache_PushPacketBuffer p w)"
proof -
  have p: "p \<in> cacheInUse w" "p \<notin> F" using assms by (auto simp: owns_def ran_def)
  have "own l' \<noteq> Some p" if "l' \<noteq> l" for l' using assms that by (auto simp: owns_def inj_on_def dom_def)
  then have "ran (own(l := None)) \<subseteq> cacheInUse (Cache_PushPacketBuffer p w) - F"
    using assms by (auto simp: owns_def ran_def cachePool.push_used split: if_splits)
  moreover have "cm_ok (Cache_PushPacketBuffer p w)" using assms(1) p cachePool.push_inv by (simp add: owns_def)
  ultimately show ?thesis using assms p
    by (auto simp: owns_def cachePool.push_used inj_on_def dom_def)
qed

lemma assemble_owns:
  assumes "assemble hs cap bufs n i acc w = Inr (msg, w')" and "owns F own w"
    and "\<And>j. i \<le> j \<Longrightarrow> j < i + n \<Longrightarrow> j < length bufs \<Longrightarrow> own (L j) = bufs ! j" and "inj L"
  shows "owns F (own |` (- L ` {i..<i+n})) w' \<and> config w' = config w
    \<and> (\<forall>q. (\<forall>j. i \<le> j \<and> j < i + n \<longrightarrow> own (L j) \<noteq> Some q) \<longrightarrow> caches w' q = caches w q)"
  using assms
proof (induction n arbitrary: i acc w own)
  case 0
  then show ?case by (simp add: restrict_map_def)
next
  case (Suc n)
  from Suc.prems(1) obtain p acc1 where i: "i < length bufs" "bufs ! i = Some p"
    and rest: "assemble hs cap bufs n (Suc i) acc1 (Cache_PushPacketBuffer p w) = Inr (msg, w')"
    by (auto simp: Let_def split: if_splits option.splits)
  have own: "own (L i) = Some p" using Suc.prems(3) [of i] i by simp
  have o1: "owns F (own(L i := None)) (Cache_PushPacketBuffer p w)" by (rule owns_give [OF Suc.prems(2) own])
  have o2: "(own(L i := None)) (L j) = bufs ! j" if "Suc i \<le> j" "j < Suc i + n" "j < length bufs" for j
    using Suc.prems(3) [of j] that Suc.prems(4) by (auto dest: injD)
  have ih: "owns F (own(L i := None) |` (- L ` {Suc i..<Suc i + n})) w' \<and> config w' = config (Cache_PushPacketBuffer p w)
    \<and> (\<forall>q. (\<forall>j. Suc i \<le> j \<and> j < Suc i + n \<longrightarrow> (own(L i := None)) (L j) \<noteq> Some q) \<longrightarrow>
         caches w' q = caches (Cache_PushPacketBuffer p w) q)"
    by (rule Suc.IH [OF rest o1 _ Suc.prems(4)]) (rule o2)
  have eq: "own(L i := None) |` (- L ` {Suc i..<Suc i + n}) = own |` (- L ` {i..<i + Suc n})"
    by (auto simp: restrict_map_def fun_eq_iff image_iff Suc_le_eq less_Suc_eq_le)
  have same: "caches w' q = caches w q" if none: "\<forall>j. i \<le> j \<and> j < i + Suc n \<longrightarrow> own (L j) \<noteq> Some q" for q
  proof -
    have "caches w' q = caches (Cache_PushPacketBuffer p w) q" using ih none by auto
    also have "\<dots> = caches w q" using none own by (intro cachePool.push_content) auto
    finally show ?thesis .
  qed
  have "config (Cache_PushPacketBuffer p w) = config w" by (simp add: Cache_PushPacketBuffer_def Let_def)
  then show ?case using ih same unfolding eq by metis
qed


lemma cache_at_inj_upd:
  "cache_at (s\<lparr>chunckPakcetInj := m\<rparr>) (SlotLoc c i) = cache_at s (SlotLoc c i)"
  "cache_at (s\<lparr>chunckPakcetInj := m\<rparr>) (ChunkLoc k i) =
     (case m k of None \<Rightarrow> None | Some ck \<Rightarrow> if i < length (ck_buffers ck) then ck_buffers ck ! i else None)"
  by simp_all

text \<open>Storing a chunk: at most one location gets the fresh buffer.\<close>

lemma Inj_Update_at:
  assumes "Inj_Update seq flag m = (key, m1)"
  shows "key = StartSequnceNum seq flag" "m1 key \<noteq> None" "k \<noteq> key \<Longrightarrow> m1 k = m k"
  using assms by (auto simp: Inj_Update_def Let_def split: option.splits)

lemma cache_at_Inj_Update:
  assumes "Inj_Update seq flag (chunckPakcetInj s) = (key, m1)"
  shows "cache_at (s\<lparr>chunckPakcetInj := m1\<rparr>) l = cache_at s l"
proof (cases l)
  case (ChunkLoc k i)
  have "m1 = chunckPakcetInj s \<or> chunckPakcetInj s key = None \<and> m1 = (chunckPakcetInj s)(key \<mapsto> new_ChunkPacket)"
    using assms by (auto simp: Inj_Update_def Let_def split: option.splits)
  then show ?thesis by (auto simp: ChunkLoc new_ChunkPacket_def)
qed simp

lemma SetBuffer_at:
  obtains "ck_buffers (snd (SetBuffer flag p ck)) = ck_buffers ck"
    | j where "ck_buffers (snd (SetBuffer flag p ck)) = (ck_buffers ck)[j := Some p]" "j < length (ck_buffers ck)"
proof -
  have "ck_buffers (snd (SetBuffer flag p ck)) = ck_buffers ck
    \<or> ck_buffers (snd (SetBuffer flag p ck)) = (ck_buffers ck)[unat (lowest_bit flag 0) := Some p]"
    by (auto simp: SetBuffer_def Let_def)
  then show ?thesis using that by (cases "unat (lowest_bit flag 0) < length (ck_buffers ck)") (auto simp: list_update_beyond)
qed

lemma chunk_entry_owns:
  assumes own: "own_ok F s w" and upd: "Inj_Update seq flag (chunckPakcetInj s) = (key, m1)"
    and pop: "Cache_PopPacketBuffer w = (p, w1)" and copy: "CachePacketBuffer_Copy p b n w1 = Inr w2"
    and ck: "ck_buffers ck1 = ck_buffers (snd (SetBuffer flag p (the (m1 key))))"
  shows "own_ok F (s\<lparr>chunckPakcetInj := m1(key \<mapsto> ck1)\<rparr>) w2"
    "\<And>q. q \<in> cacheInUse w \<Longrightarrow> caches w2 q = caches w q" "config w2 = config w"
proof -
  have cm: "cm_ok w" using own by (simp add: own_ok_def)
  note cp = cached_Copy [OF copy]
  note up = cache_at_Inj_Update [OF upd]
  obtain ck0 where ck0: "m1 key = Some ck0" using Inj_Update_at(2) [OF upd] by blast
  have same: "cache_at (s\<lparr>chunckPakcetInj := m1(key \<mapsto> ck1)\<rparr>) l = cache_at s l" if "\<And>i. l \<noteq> ChunkLoc key i" for l
    using that up [of l] by (cases l) auto
  have at: "cache_at (s\<lparr>chunckPakcetInj := m1(key \<mapsto> ck1)\<rparr>) (ChunkLoc key i) = (if i < length (ck_buffers ck1) then ck_buffers ck1 ! i else None)"
    "cache_at s (ChunkLoc key i) = (if i < length (ck_buffers ck0) then ck_buffers ck0 ! i else None)" for i
    using up [of "ChunkLoc key i"] ck0 by simp_all
  show "own_ok F (s\<lparr>chunckPakcetInj := m1(key \<mapsto> ck1)\<rparr>) w2"
  proof (cases rule: SetBuffer_at [of flag p ck0])
    case 1
    have "cache_at (s\<lparr>chunckPakcetInj := m1(key \<mapsto> ck1)\<rparr>) l = cache_at s l" for l
      by (cases "\<exists>i. l = ChunkLoc key i") (use same at 1 ck ck0 in auto)
    moreover have "cm_ok w2" "cacheInUse w2 = insert p (cacheInUse w)"
      using cachePool.pop_inv [OF cm] cachePool.pop_used [of w] pop cp(2) by (auto simp: cm_ok_def)
    ultimately show ?thesis using own unfolding own_ok_def by auto
  next
    case (2 j)
    show ?thesis
    proof (rule own_ok_take [OF own pop cp(2), where loc = "ChunkLoc key j"])
      fix l show "cache_at (s\<lparr>chunckPakcetInj := m1(key \<mapsto> ck1)\<rparr>) l = (if l = ChunkLoc key j then Some p else cache_at s l)"
      proof (cases "\<exists>i. l = ChunkLoc key i")
        case True
        then obtain i where l: "l = ChunkLoc key i" by blast
        have "ck_buffers ck1 = (ck_buffers ck0)[j := Some p]" using 2 ck ck0 by simp
        then show ?thesis unfolding l at using 2 by (simp add: nth_list_update_if)
      qed (use same in auto)
    qed
  qed
  show "caches w2 q = caches w q" if "q \<in> cacheInUse w" for q
    using that cp(4) [of q] cachePool.pop_keeps [OF cm that] cachePool.pop_fresh [OF cm] pop by auto
  show "config w2 = config w" using cp(3) config_pop [OF pop] by simp
qed


lemma store_chunk_owns:
  assumes st: "store_chunk b n s w = Inr (ck, s1, w1)" and own: "own_ok F s w"
  shows "own_ok F s1 w1" "\<And>q. q \<in> cacheInUse w \<Longrightarrow> caches w1 q = caches w q"
proof -
  let ?flag = "ci_flag (chunkInfo (get_header b))"
  obtain key m1 where upd: "Inj_Update (hSequenceNo (get_header b)) ?flag (chunckPakcetInj s) = (key, m1)" by force
  obtain p w0 where pop: "Cache_PopPacketBuffer w = (p, w0)" by force
  from st upd pop have copy: "CachePacketBuffer_Copy p b n w0 = Inr w1"
    and ck: "ck_buffers ck = ck_buffers (snd (SetBuffer ?flag p (the (m1 key))))"
    and s1: "s1 = s\<lparr>chunckPakcetInj := m1(key \<mapsto> ck)\<rparr>"
    by (auto simp: store_chunk_def Let_def)
  note ow = chunk_entry_owns [OF own upd pop copy ck]
  show "own_ok F s1 w1" "\<And>q. q \<in> cacheInUse w \<Longrightarrow> caches w1 q = caches w q"
    using ow unfolding s1 by auto
qed

lemma store_chunk_frame:
  assumes "store_chunk b n s w = Inr (ck, s1, w1)"
  shows "rx_view s1 = rx_view s" "dispatched s1 = dispatched s" "config w1 = config w"
    "\<And>c i. cache_at s1 (SlotLoc c i) = cache_at s (SlotLoc c i)"
    "chunckPakcetInj s1 (StartSequnceNum (hSequenceNo (get_header b)) (ci_flag (chunkInfo (get_header b)))) = Some ck"
  using assms Inj_Update_at(1) [of "hSequenceNo (get_header b)" "ci_flag (chunkInfo (get_header b))" "chunckPakcetInj s"]
    config_pop [of w] cached_Copy(3)
  by (auto simp: store_chunk_def Let_def rx_view_def split: prod.splits dest!: cached_Copy(3))

lemma assemble_config: "assemble hs cap bufs n i acc w = Inr (msg, w') \<Longrightarrow> config w' = config w"
proof (induction n arbitrary: i acc w)
  case (Suc n)
  then show ?case by (fastforce simp: Let_def Cache_PushPacketBuffer_def split: if_splits option.splits)
qed simp

lemma deliver_chunks_frame:
  fixes parse :: "bytes \<Rightarrow> u16 \<Rightarrow> 'e step"
  assumes parse: "\<And>b n. calm (parse b n)" and r: "deliver_chunks parse b ck (s, w) = Inr (s', w')"
  shows "rx_view s' = rx_view s" "dispatched s' = dispatched s" "config w' = config w"
proof -
  obtain hs big w1 w2 cap message s1 w3 m where big: "PopBig (ck_size ck + hs) w = Inr (big, w1)"
    and asm: "assemble hs cap (ck_buffers ck) (unat (ck_count ck)) 0 [] w1 = Inr (message, w2)"
    and ps: "parse message (of_nat (length message)) (s, w2) = Inr (s1, w3)"
    and pb: "PushBig big w3 = Inr w'" and s': "s' = s1\<lparr>chunckPakcetInj := m\<rparr>"
    using r by (auto simp: deliver_chunks_def Let_def)
  have qp: "quiet (s, w2) (s1, w3)" by (rule calmD [OF parse ps])
  show "rx_view s' = rx_view s" "dispatched s' = dispatched s" using qp by (simp_all add: s' quiet_def rx_view_def)
  have "config w' = config w3" "config w1 = config w" using big pb by (auto simp: PopBig_def PushBig_def split: if_splits)
  then show "config w' = config w" using qp assemble_config [OF asm] by (simp add: quiet_def)
qed

lemma deliver_chunks_owns:
  fixes parse :: "bytes \<Rightarrow> u16 \<Rightarrow> 'e step"
  assumes parse: "\<And>b n. calm (parse b n)" and r: "deliver_chunks parse b ck (s, w) = Inr (s', w')" and own: "own_ok F s w"
    and ck: "chunckPakcetInj s (StartSequnceNum (hSequenceNo (get_header b)) (ci_flag (chunkInfo (get_header b)))) = Some ck"
  shows "own_ok F s' w'" "\<forall>q. q \<in> F \<or> (\<exists>c i. cache_at s (SlotLoc c i) = Some q) \<longrightarrow> caches w' q = caches w q"
proof -
  let ?key = "StartSequnceNum (hSequenceNo (get_header b)) (ci_flag (chunkInfo (get_header b)))"
  obtain hs big w1 w2 cap message s1 w3 where big: "PopBig (ck_size ck + hs) w = Inr (big, w1)"
    and asm: "assemble hs cap (ck_buffers ck) (unat (ck_count ck)) 0 [] w1 = Inr (message, w2)"
    and ps: "parse message (of_nat (length message)) (s, w2) = Inr (s1, w3)"
    and pb: "PushBig big w3 = Inr w'" and s': "s' = s1\<lparr>chunckPakcetInj := (chunckPakcetInj s1)(?key := None)\<rparr>"
    using r by (auto simp: deliver_chunks_def Let_def Inj_Remove_def)
  have w1: "caches w1 = caches w" "cacheManager w1 = cacheManager w" "config w1 = config w"
    using big by (auto simp: PopBig_def split: if_splits)
  have w': "caches w' = caches w3" "cacheManager w' = cacheManager w3" "config w' = config w3"
    using pb by (auto simp: PushBig_def split: if_splits)
  have qp: "quiet (s, w2) (s1, w3)" by (rule calmD [OF parse ps])
  have o1: "owns F (cache_at s) w1" using own w1 by (simp add: own_ok_owns owns_def cm_ok_def)
  let ?L = "ChunkLoc ?key"
  have o2: "owns F (cache_at s |` (- ?L ` {0..<0 + unat (ck_count ck)})) w2 \<and> config w2 = config w1
    \<and> (\<forall>q. (\<forall>j. 0 \<le> j \<and> j < 0 + unat (ck_count ck) \<longrightarrow> cache_at s (?L j) \<noteq> Some q) \<longrightarrow> caches w2 q = caches w1 q)"
    by (rule assemble_owns [OF asm o1]) (use ck in \<open>auto simp: inj_def\<close>)
  have "cache_at s' \<subseteq>\<^sub>m cache_at s |` (- ?L ` {0..<0 + unat (ck_count ck)})"
    unfolding map_le_def
  proof
    fix l assume "l \<in> dom (cache_at s')"
    moreover have "cache_at s' (ChunkLoc ?key i) = None" for i by (simp add: s')
    ultimately have l: "\<And>i. l \<noteq> ?L i" by auto
    have "cache_at s' l = cache_at s1 l" using l by (cases l) (auto simp: s')
    also have "\<dots> = cache_at s l" using quiet_cache_at [OF qp] by simp
    finally show "cache_at s' l = (cache_at s |` (- ?L ` {0..<0 + unat (ck_count ck)})) l"
      using l by (auto simp: restrict_map_def)
  qed
  then have "owns F (cache_at s') w2" using o2 owns_mono by blast
  then show "own_ok F s' w'" using qp w' by (simp add: own_ok_owns owns_def cm_ok_def quiet_def)
  have "caches w2 q = caches w q" if "q \<in> F \<or> (\<exists>c i. cache_at s (SlotLoc c i) = Some q)" for q
  proof -
    have "cache_at s (?L j) \<noteq> Some q" for j
      using that own unfolding own_ok_def by (metis DiffD2 cache_loc.distinct(1))
    then show ?thesis using o2 w1(1) by simp
  qed
  then show "\<forall>q. q \<in> F \<or> (\<exists>c i. cache_at s (SlotLoc c i) = Some q) \<longrightarrow> caches w' q = caches w q"
    using qp w'(1) by (simp add: quiet_def)
qed

lemma RecvChunckPacket_careful:
  fixes parse :: "bytes \<Rightarrow> u16 \<Rightarrow> 'e step"
  assumes parse: "\<And>b n. calm (parse b n)" and r: "RecvChunckPacket parse b n (s, w) = Inr (s', w')"
  shows "careful (s, w) (s', w')"
proof (cases "has_flag (flags (get_header b)) CHUNK")
  case False
  then show ?thesis using r by (simp add: RecvChunckPacket_def quiet_careful)
next
  case True
  then obtain ck s1 w1 where st: "store_chunk b n s w = Inr (ck, s1, w1)"
    and rest: "(if IsPull ck then deliver_chunks parse b ck (s1, w1) else Inr (s1, w1)) = Inr (s', w')"
    using r by (auto simp: RecvChunckPacket_def)
  note fr = store_chunk_frame [OF st]
  have "own_ok F s1 w1 \<and> (\<forall>p \<in> F. caches w1 p = caches w p)
      \<and> (\<forall>c i p. cache_at s (SlotLoc c i) = Some p \<longrightarrow> caches w1 p = caches w p)" if own: "own_ok F s w" for F
  proof -
    have "F \<subseteq> cacheInUse w" "\<And>l p. cache_at s l = Some p \<Longrightarrow> p \<in> cacheInUse w" using own unfolding own_ok_def by blast+
    then show ?thesis using store_chunk_owns [OF st own] by blast
  qed
  then have 1: "careful (s, w) (s1, w1)" using fr by (simp add: careful_def del: cache_at.simps)
  have 2: "careful (s1, w1) (s', w')"
  proof (cases "IsPull ck")
    case True
    then have d: "deliver_chunks parse b ck (s1, w1) = Inr (s', w')" using rest by simp
    have "own_ok F s' w' \<and> (\<forall>p \<in> F. caches w' p = caches w1 p)
      \<and> (\<forall>c i p. cache_at s1 (SlotLoc c i) = Some p \<longrightarrow> caches w' p = caches w1 p)" if own: "own_ok F s1 w1" for F
      using deliver_chunks_owns [of parse, OF parse d own fr(5)] by blast
    then show ?thesis using deliver_chunks_frame [of parse, OF parse d] by (simp add: careful_def del: cache_at.simps)
  qed (use rest in \<open>simp add: quiet_careful\<close>)
  from 1 2 show ?thesis by (rule careful_trans)
qed

end
