(* ===== verification/Dubu_Session.thy ===== *)
theory Dubu_Session
  imports Dubu_Frame
begin

text \<open>
  \<^verbatim>\<open>Session.h/.cpp\<close>: the server's end of a connection. The record extends the shared
  members with those only a session has; its operations are the shared ones of
  \<^verbatim>\<open>Dubu_Receive\<close> and \<^verbatim>\<open>Dubu_Send\<close> with the session's own answer to a full window
  (the packet is dropped) and its own echo. Subclasses extend the record further.
\<close>

section \<open>Definitions\<close>

record Session = Endpoint +
  retryCount :: u32
  lastPingSentTime :: u32
  pingCount :: u32
  pongCount :: u32
  awaysConnect :: bool
  readyDisconnect :: bool

type_synonym 'x session_ext = "'x Session_ext"

definition new_Session :: "Config \<Rightarrow> Session" where
  "new_Session cfg =
     \<lparr>rNopsNo = new_PacketStateBase, rpsNo = new_ReliablePacketState,
      cacheAlreadyPackets = replicate (unat (g_channelMask cfg + 1)) new_CacheAlreadyPacket,
      chunckPakcetInj = Map.empty, hasSocket = False, addr = \<lparr>sin_addr = 0, sin_port = 0\<rparr>,
      endpointId = 0, rttMillisec = g_defaultRttMs cfg, timestamp = 0, isConnect = False,
      lastPongSeq = 0, dispatched = [], retryCount = 0, lastPingSentTime = 0, pingCount = 0, pongCount = 0,
      awaysConnect = False, readyDisconnect = False\<rparr>"

definition SetSockAddr :: "SOCKADDR_IN \<Rightarrow> 'x Session_scheme \<Rightarrow> World \<Rightarrow> 'x Session_scheme \<times> World" where
  "SetSockAddr a s w =
     (let (now, w1) = GetRelativeTimeMs w in (s\<lparr>addr := a, isConnect := True, timestamp := now\<rparr>, w1))"

definition SetSessionId :: "u32 \<Rightarrow> 'x Session_scheme \<Rightarrow> 'x Session_scheme" where
  "SetSessionId i s = s\<lparr>endpointId := i\<rparr>"

definition SetSocket :: "bool \<Rightarrow> 'x Session_scheme \<Rightarrow> 'x Session_scheme" where
  "SetSocket sock s = s\<lparr>hasSocket := sock\<rparr>"

definition SetTimestamp :: "u32 \<Rightarrow> 'x Session_scheme \<Rightarrow> 'x Session_scheme" where
  "SetTimestamp t s = s\<lparr>timestamp := t\<rparr>"

definition Session_Disconnect :: "'x Session_scheme \<Rightarrow> 'x Session_scheme" where
  "Session_Disconnect s = s\<lparr>isConnect := False\<rparr>"

definition SetLastPingSentTime :: "u32 \<Rightarrow> 'x Session_scheme \<Rightarrow> 'x Session_scheme" where
  "SetLastPingSentTime t s = s\<lparr>lastPingSentTime := t\<rparr>"

definition SetReadyDisconnect :: "bool \<Rightarrow> 'x Session_scheme \<Rightarrow> 'x Session_scheme" where
  "SetReadyDisconnect b s = s\<lparr>readyDisconnect := b\<rparr>"

definition SetAwaysConnect :: "bool \<Rightarrow> 'x Session_scheme \<Rightarrow> 'x Session_scheme" where
  "SetAwaysConnect b s = s\<lparr>awaysConnect := b\<rparr>"

definition AddPingCount :: "'x Session_scheme \<Rightarrow> 'x Session_scheme" where
  "AddPingCount s = s\<lparr>pingCount := pingCount s + 1\<rparr>"

definition AddPongCount :: "'x Session_scheme \<Rightarrow> 'x Session_scheme" where
  "AddPongCount s = s\<lparr>pongCount := pongCount s + 1\<rparr>"

definition AccSequnceNo :: "'x Session_scheme \<Rightarrow> u32 \<times> 'x Session_scheme" where
  "AccSequnceNo s = (lastPongSeq s + 1, s\<lparr>lastPongSeq := lastPongSeq s + 1\<rparr>)"

definition Session_Reset :: "'x Session_ext step" where
  "Session_Reset sw =
     (case sw of (s, w) \<Rightarrow>
       (let (now, w1) = GetRelativeTimeMs w
        in reset_states (s\<lparr>isConnect := False, endpointId := 0, timestamp := now, lastPingSentTime := 0,
             rttMillisec := g_defaultRttMs (config w), hasSocket := False, readyDisconnect := False\<rparr>, w1)))"

definition Session_overflow :: "ptr \<Rightarrow> 'x Session_ext step" where
  "Session_overflow p sw = (case sw of (s, w) \<Rightarrow> Inr (s, PushPacketBuffer p w))"

definition Session_SendPacket :: "bytes \<Rightarrow> u8 \<Rightarrow> u16 \<Rightarrow> PacketOpctions \<Rightarrow> bytes \<Rightarrow> 'x Session_ext step" where
  "Session_SendPacket = SendPacket Session_overflow"

definition SendEchoMessage :: "bytes \<Rightarrow> u16 \<Rightarrow> 'x Session_ext step" where
  "SendEchoMessage buffer sz = Session_SendPacket buffer 0 sz (mk_opt True True 0) []"

definition Session_PacketParse :: "'x Session_ext handlers \<Rightarrow> bytes \<Rightarrow> u16 \<Rightarrow> 'x Session_ext step" where
  "Session_PacketParse hs buffer sz sw =
     (let header = get_header buffer
      in if packetCode header = 0
         then SendEchoMessage (drop sizeof_PacketHeader buffer) (totalSize header - of_nat sizeof_PacketHeader) sw
         else parse_handlers hs buffer sz sw)"

definition Session_RecvChunckPacket :: "'x Session_ext handlers \<Rightarrow> bytes \<Rightarrow> u16 \<Rightarrow> 'x Session_ext step" where
  "Session_RecvChunckPacket hs = RecvChunckPacket (Session_PacketParse hs)"

definition Session_RecvDispatch :: "'x Session_ext handlers \<Rightarrow> bytes \<Rightarrow> u16 \<Rightarrow> 'x Session_scheme \<Rightarrow> World
    \<Rightarrow> (bool \<times> 'x Session_scheme \<times> World) result" where
  "Session_RecvDispatch hs = RecvDispatch (Session_PacketParse hs) (Session_RecvChunckPacket hs)"

definition RecvDispatchPong :: "bytes \<Rightarrow> u16 \<Rightarrow> 'x Session_scheme \<Rightarrow> World \<Rightarrow> bool \<times> 'x Session_scheme \<times> World" where
  "RecvDispatchPong buffer sz s w =
     (let (now, w1) = GetRelativeTimeMs w; s1 = s\<lparr>timestamp := now\<rparr>
      in (True, if lastPongSeq s1 = hSequenceNo (get_header buffer) then AddPongCount s1 else s1, w1))"

section \<open>The session meets the contract of the receive path\<close>

text \<open>
  What is asked of the application: a handler may send, and may change whatever else it likes of the
  session and the world, but leaves the receive state and the cache buffers alone.
\<close>

definition good_handlers :: "'e handlers \<Rightarrow> bool" where
  "good_handlers hs \<longleftrightarrow> (\<forall>table code h. hs = Some table \<longrightarrow> table code = Some h \<longrightarrow>
     (\<forall>f b n. handler h = Some f \<longrightarrow> calm (f b n)) \<and> (\<forall>f b n sub t. handler2 h = Some f \<longrightarrow> calm (f b n sub t)))"

lemma good_handlersD:
  assumes "good_handlers (Some table)" "table code = Some h"
  shows "handler h = Some f \<Longrightarrow> calm (f b n)" "handler2 h = Some g \<Longrightarrow> calm (g b n sub t)"
  using assms unfolding good_handlers_def by blast+

lemma parse_handlers_calm:
  assumes "good_handlers hs"
  shows "calm (parse_handlers hs b n)"
  using assms unfolding calm_def parse_handlers_def Let_def
  by (auto split: option.splits if_splits dest: good_handlersD [THEN calmD])

lemma Session_overflow_calm: "calm (Session_overflow p)"
  by (auto simp: Session_overflow_def quiet_iff frame_simps)

lemma Session_SendPacket_calm: "calm (Session_SendPacket payload code sz opt sub)"
  unfolding Session_SendPacket_def by (rule SendPacket_calm [OF Session_overflow_calm])

lemma Session_PacketParse_calm: "good_handlers hs \<Longrightarrow> calm (Session_PacketParse hs b n)"
  by (rule calmI) (auto simp: Session_PacketParse_def SendEchoMessage_def Let_def split: if_splits
    dest: calmD [OF Session_SendPacket_calm] calmD [OF parse_handlers_calm])

lemma session_receiver:
  assumes "good_handlers hs"
  shows "receiver (Session_PacketParse hs) (Session_RecvChunckPacket hs)"
proof
  fix b n sw sw' assume "Session_PacketParse hs b n sw = Inr sw'"
  then show "quiet sw sw'" by (rule calmD [OF Session_PacketParse_calm [OF assms]])
next
  fix b n sw sw' assume r: "Session_RecvChunckPacket hs b n sw = Inr sw'"
  obtain s w s' w' where "sw = (s, w)" "sw' = (s', w')" by force
  then show "careful sw sw'"
    using r RecvChunckPacket_careful [of "Session_PacketParse hs", OF Session_PacketParse_calm [OF assms]]
    by (simp add: Session_RecvChunckPacket_def)
qed

end
