(* ===== verification/Dubu_Reliability.thy ===== *)
theory Dubu_Reliability
  imports Dubu_Session
begin

text \<open>
  What a session guarantees over its whole life: the step relation \<open>session_run\<close> lists everything
  that can happen to it, and the theorems state what it has delivered in any state it reaches.
\<close>

section \<open>The life of a session\<close>

text \<open>
  Everything that happens to a session between its creation and its removal, in any
  order: datagrams handed to \<^verbatim>\<open>RecvDispatch\<close> (the list \<open>ds\<close> grows by one),
  acknowledgements, pongs, sends, retransmissions, and activity of other
  connections, which use the same pools but not the buffers this session owns.
\<close>

definition elsewhere :: "'e Endpoint_scheme \<Rightarrow> World \<Rightarrow> World \<Rightarrow> bool" where
  "elsewhere s w w' \<longleftrightarrow> cm_ok w' \<and> config w' = config w
     \<and> (\<forall>l p. cache_at s l = Some p \<longrightarrow> p \<in> cacheInUse w' \<and> caches w' p = caches w p)"

inductive session_run ::
  "'x Session_ext handlers \<Rightarrow> 'x Session_scheme \<Rightarrow> World \<Rightarrow> bytes list \<Rightarrow> 'x Session_scheme \<Rightarrow> World \<Rightarrow> bool"
  for hs s0 w0 where
  start: "session_run hs s0 w0 [] s0 w0"
| recv: "session_run hs s0 w0 ds s w \<Longrightarrow> 24 \<le> unat n \<Longrightarrow> Session_RecvDispatch hs b n s w = Inr (ack, s', w') \<Longrightarrow>
    session_run hs s0 w0 (ds @ [take (unat n) b]) s' w'"
| acked: "session_run hs s0 w0 ds s w \<Longrightarrow> RecvDispatchACK b n s w = Inr (r, s', w') \<Longrightarrow> session_run hs s0 w0 ds s' w'"
| pong: "session_run hs s0 w0 ds s w \<Longrightarrow> RecvDispatchPong b n s w = (r, s', w') \<Longrightarrow> session_run hs s0 w0 ds s' w'"
| send: "session_run hs s0 w0 ds s w \<Longrightarrow> Session_SendPacket payload code sz opt sub (s, w) = Inr (s', w') \<Longrightarrow>
    session_run hs s0 w0 ds s' w'"
| resend: "session_run hs s0 w0 ds s w \<Longrightarrow> RepeatMessageAll d (s, w) = Inr (s', w') \<Longrightarrow> session_run hs s0 w0 ds s' w'"
| other: "session_run hs s0 w0 ds s w \<Longrightarrow> elsewhere s w w' \<Longrightarrow> session_run hs s0 w0 ds s w'"

lemma dispatch_ok_mono: "dispatch_ok F R s w \<Longrightarrow> R \<subseteq> R' \<Longrightarrow> dispatch_ok F R' s w"
  by (auto simp: dispatch_ok_def rx_ok_def store_ok_def content_ok_def simp del: cache_at.simps)

lemma dispatch_ok_quiet:
  assumes ok: "dispatch_ok F R s w" and q: "quiet (s, w) (s', w')"
  shows "dispatch_ok F R s' w'"
proof -
  have v: "rx_view s' = rx_view s" "dispatched s' = dispatched s" using q by (simp_all add: quiet_def)
  have "store_ok 2 0 F R s' w'" using store_ok_careful [OF _ quiet_careful [OF q]] ok by (auto simp: dispatch_ok_def rx_ok_def)
  moreover have "in_order c s'" if "c < length (cacheAlreadyPackets s')" for c
    by (rule in_order_other [of c s _ "[]"])
      (use that ok v rx_view_length [OF v(1)] rx_chan_simps(1) [OF rx_view_chan [OF v(1)]]
        in \<open>auto simp: dispatch_ok_def rx_ok_def\<close>)
  moreover have "unordered_ok s'" "unreliable_ok s'"
    using ok logs_frame [of s' s "[]"] v by (auto simp: dispatch_ok_def rx_view_def)
  ultimately show ?thesis using ok v by (simp add: dispatch_ok_def rx_ok_def)
qed

lemma dispatch_ok_elsewhere:
  assumes ok: "dispatch_ok {} R s w" and el: "elsewhere s w w'"
  shows "dispatch_ok {} R s w'"
proof -
  have "own_ok {} s w'" using ok el unfolding dispatch_ok_def rx_ok_def store_ok_def own_ok_def elsewhere_def by auto
  moreover have "content_ok R s w'"
    using ok el unfolding dispatch_ok_def rx_ok_def store_ok_def content_ok_def elsewhere_def cached_def by metis
  ultimately show ?thesis using ok by (auto simp: dispatch_ok_def rx_ok_def store_ok_def)
qed

lemma RecvDispatchPong_quiet: "RecvDispatchPong b n s w = (r, s', w') \<Longrightarrow> quiet (s, w) (s', w')"
  by (auto simp: RecvDispatchPong_def quiet_iff Let_def split_beta rx_view_def AddPongCount_def frame_simps)

lemma dispatch_ok_new:
  assumes "cm_ok w"
  shows "dispatch_ok {} {} (new_Session cfg) w"
proof -
  have n: "cache_at (new_Session cfg) l = None" for l
    by (cases l) (auto simp: new_Session_def new_CacheAlreadyPacket_def no_cache_def simp del: replicate.simps)
  have ch: "channel (new_Session cfg) c = new_CacheAlreadyPacket" if "c < length (cacheAlreadyPackets (new_Session cfg))" for c
    using that by (simp add: new_Session_def del: replicate.simps)
  have "store_ok 2 0 {} {} (new_Session cfg) w"
    using assms n ch chan_ok_new by (auto simp: store_ok_def own_ok_def content_ok_def simp del: cache_at.simps)
  moreover have "in_order c (new_Session cfg)" if "c < length (cacheAlreadyPackets (new_Session cfg))" for c
    using ch [OF that] by (simp add: in_order_def chan_log_def) (simp add: new_Session_def new_CacheAlreadyPacket_def new_ReliablePacketState_def)
  moreover have "unordered_ok (new_Session cfg)"
    unfolding unordered_ok_def once_def by (auto simp: new_Session_def new_ReliablePacketState_def free_log_def bot_fun_def intro!: exI [of _ 0])
  moreover have "unreliable_ok (new_Session cfg)"
    by (simp add: unreliable_ok_def new_Session_def new_PacketStateBase_def free_list_def)
  ultimately show ?thesis by (simp add: dispatch_ok_def rx_ok_def) (simp add: new_Session_def)
qed

definition run_ok :: "Config \<Rightarrow> bytes list \<Rightarrow> 'e Endpoint_scheme \<Rightarrow> World \<Rightarrow> bool" where
  "run_ok cfg ds s w \<longleftrightarrow> dispatch_ok {} (set ds) s w \<and> length (cacheAlreadyPackets s) = unat (g_channelMask cfg + 1)"

lemma run_ok_quiet: "run_ok cfg ds s w \<Longrightarrow> quiet (s, w) (s', w') \<Longrightarrow> run_ok cfg ds s' w'"
  unfolding run_ok_def using dispatch_ok_quiet [of "{}" "set ds" s w s' w'] rx_view_length [of s' s] by (simp add: quiet_def)

lemma run_ok_recv:
  assumes "good_handlers hs" "run_ok cfg ds s w" "24 \<le> unat n" "Session_RecvDispatch hs b n s w = Inr (ack, s', w')"
  shows "run_ok cfg (ds @ [take (unat n) b]) s' w'"
proof -
  have ok: "dispatch_ok {} (set (ds @ [take (unat n) b])) s w"
    by (rule dispatch_ok_mono [of _ "set ds"]) (use assms(2) in \<open>auto simp: run_ok_def\<close>)
  note rd = receiver.RecvDispatch_ok [OF session_receiver [OF assms(1)] assms(4) [unfolded Session_RecvDispatch_def] ok assms(3)]
  show ?thesis unfolding run_ok_def using rd assms(2) by (simp add: run_ok_def)
qed

lemma session_run_ok:
  assumes "session_run hs (new_Session cfg) w0 ds s w" and hs: "good_handlers hs" and cm: "cm_ok w0"
  shows "run_ok cfg ds s w"
  using assms(1)
proof (induction rule: session_run.induct)
  case start
  show ?case using dispatch_ok_new [OF cm] by (simp add: run_ok_def) (simp add: new_Session_def)
next
  case (recv ds s w n b ack s' w')
  then show ?case using run_ok_recv [OF hs] by blast
next
  case (acked ds s w b n r s' w')
  then show ?case using run_ok_quiet RecvDispatchACK_quiet by blast
next
  case (pong ds s w b n r s' w')
  then show ?case using run_ok_quiet RecvDispatchPong_quiet by blast
next
  case (send ds s w payload code sz opt sub s' w')
  then show ?case using run_ok_quiet calmD [OF Session_SendPacket_calm] by blast
next
  case (resend ds s w d s' w')
  then show ?case using run_ok_quiet calmD [OF RepeatMessageAll_calm] by blast
next
  case (other ds s w w')
  then show ?case using dispatch_ok_elsewhere by (auto simp: run_ok_def)
qed

section \<open>An example run\<close>

text \<open>Datagrams for the witnesses, and the receive steps of a list of them.\<close>

definition example_packet :: "u8 \<Rightarrow> u32 \<Rightarrow> bytes" where
  "example_packet fl seq = header_bytes \<lparr>totalSize = 24, packetCode = 1, flags = fl, hSessionId = 7,
     hSequenceNo = seq, hTimestamp = 0, checksum = 0, chunkInfo = \<lparr>ci_size = 0, ci_flag = 0\<rparr>\<rparr>"

definition example_world :: World where
  "example_world = new_World default_config (\<lambda>n. of_nat n) (\<lambda>_. None)"

fun receive_list :: "'x Session_ext handlers \<Rightarrow> bytes list \<Rightarrow> 'x Session_scheme \<times> World \<Rightarrow> ('x Session_scheme \<times> World) result" where
  "receive_list hs [] sw = Inr sw"
| "receive_list hs (d # ds) (s, w) =
     andThen (Session_RecvDispatch hs d (of_nat (length d)) s w) (\<lambda>(ack, s1, w1). receive_list hs ds (s1, w1))"


lemma receive_list_run:
  assumes "session_run hs s0 w0 ds0 s w" and "receive_list hs ds (s, w) = Inr (s', w')"
    and "\<forall>d \<in> set ds. 24 \<le> length d \<and> length d \<le> 1024"
  shows "session_run hs s0 w0 (ds0 @ ds) s' w'"
  using assms
proof (induction ds arbitrary: ds0 s w)
  case (Cons d ds)
  from Cons.prems(2) obtain ack s1 w1 where one: "Session_RecvDispatch hs d (of_nat (length d)) s w = Inr (ack, s1, w1)"
    and rest: "receive_list hs ds (s1, w1) = Inr (s', w')" by auto
  have len: "unat (of_nat (length d) :: u16) = length d"
    using Cons.prems(3) by (simp add: unsigned_of_nat take_bit_nat_eq_self)
  have "session_run hs s0 w0 (ds0 @ [take (unat (of_nat (length d) :: u16)) d]) s1 w1"
    by (rule session_run.recv [OF Cons.prems(1) _ one]) (use Cons.prems(3) len in simp)
  then have "session_run hs s0 w0 (ds0 @ [d]) s1 w1" by (simp add: len)
  from Cons.IH [OF this rest] Cons.prems(3) show ?case by simp
qed simp

lemma example_run:
  assumes "case receive_list None ds (new_Session default_config, example_world) of Inl _ \<Rightarrow> False | Inr (s, w) \<Rightarrow> P s"
    and "\<forall>d \<in> set ds. 24 \<le> length d \<and> length d \<le> 1024"
  obtains s w where "session_run None (new_Session default_config) example_world ds s w" "P s"
proof -
  obtain s w where r: "receive_list None ds (new_Session default_config, example_world) = Inr (s, w)" "P s"
    using assms(1) by (auto split: sum.splits)
  show ?thesis using that receive_list_run [OF session_run.start r(1) assms(2)] r(2) by simp
qed

lemma good_None: "good_handlers None"
  by (simp add: good_handlers_def)

text \<open>The session of a server without packet handlers, which only answers echo requests.\<close>

interpretation echoSession: receiver "Session_PacketParse None" "Session_RecvChunckPacket None"
  by (rule session_receiver [OF good_None])

lemma cm_ok_example: "cm_ok example_world"
  using pools_ok_new_World by (simp add: example_world_def)

lemma run_ordered: "\<exists>s w. session_run None (new_Session default_config) example_world
    (map (example_packet 5) [3, 2, 2, 1]) s w \<and> dispatched s = map (example_packet 5) [1, 2, 3]"
proof -
  have e: "case receive_list None (map (example_packet 5) [3, 2, 2, 1]) (new_Session default_config, example_world) of
      Inl _ \<Rightarrow> False | Inr (s, w) \<Rightarrow> dispatched s = map (example_packet 5) [1, 2, 3]"
    by code_simp
  show ?thesis by (rule example_run [OF e]) (simp add: example_packet_def header_bytes_def le16_def le32_def, blast)
qed

lemma run_mixed: "\<exists>s w. session_run None (new_Session default_config) example_world
    [example_packet 1 2, example_packet 0 4, example_packet 1 2, example_packet 1 1, example_packet 0 3] s w
    \<and> dispatched s = [example_packet 1 2, example_packet 0 4, example_packet 1 1]"
proof -
  have e: "case receive_list None [example_packet 1 2, example_packet 0 4, example_packet 1 2, example_packet 1 1, example_packet 0 3]
      (new_Session default_config, example_world) of
      Inl _ \<Rightarrow> False | Inr (s, w) \<Rightarrow> dispatched s = [example_packet 1 2, example_packet 0 4, example_packet 1 1]"
    by code_simp
  show ?thesis by (rule example_run [OF e]) (simp add: example_packet_def header_bytes_def le16_def le32_def, blast)
qed

section \<open>What is delivered\<close>

lemma run_log:
  assumes "session_run hs (new_Session cfg) w0 ds s w" and "good_handlers hs" and "cm_ok w0"
    and "unat c < unat (g_channelMask cfg + 1)"
  defines "L \<equiv> filter (on_channel (unat c)) (dispatched s)"
  shows "map seq_of L = map of_nat [1..<Suc (length L)]"
    and "recvRepeatSeq (reliablePacketState (channel s (unat c))) = of_nat (length L)" and "set (dispatched s) \<subseteq> set ds"
proof -
  have ok: "run_ok cfg ds s w" by (rule session_run_ok [OF assms(1-3)])
  then have "in_order (unat c) s" using assms(4) by (auto simp: run_ok_def dispatch_ok_def rx_ok_def)
  then show "map seq_of L = map of_nat [1..<Suc (length L)]"
    "recvRepeatSeq (reliablePacketState (channel s (unat c))) = of_nat (length L)"
    unfolding L_def by (auto simp: in_order_def chan_log_def Let_def)
  show "set (dispatched s) \<subseteq> set ds" using ok by (auto simp: run_ok_def dispatch_ok_def rx_ok_def)
qed

text \<open>
  C2. In-order, exactly-once, uncorrupted delivery on an ordered channel (a channel the
  session has). Whatever
  datagrams of the channel arrive (lost, duplicated, reordered, interleaved with other traffic),
  as long as all copies of number \<open>q\<close> are the same datagram \<open>pkt q\<close>, the session has
  handed on exactly \<open>pkt 1, pkt 2, ..., pkt n\<close> for the number \<open>n\<close> it has reached.
\<close>

theorem ordered_delivery:
  assumes "session_run hs (new_Session cfg) w0 ds s w" and "good_handlers hs" and "cm_ok w0"
    and "unat c < unat (g_channelMask cfg + 1)"
    and "\<forall>d \<in> set ds. on_channel (unat c) d \<longrightarrow> d = pkt (seq_of d)"
  shows "\<exists>n. filter (on_channel (unat c)) (dispatched s) = map (\<lambda>i. pkt (of_nat i)) [1..<Suc n]
     \<and> recvRepeatSeq (reliablePacketState (channel s (unat c))) = of_nat n"
proof -
  let ?L = "filter (on_channel (unat c)) (dispatched s)"
  note l = run_log [OF assms(1-4)]
  have "?L = map (pkt \<circ> seq_of) ?L" using l(3) assms(5) by (intro nth_equalityI) (auto dest!: nth_mem)
  also have "\<dots> = map pkt (map seq_of ?L)" by simp
  also have "\<dots> = map (\<lambda>i. pkt (of_nat i)) [1..<Suc (length ?L)]" unfolding l(1) by simp
  finally show ?thesis using l(2) by blast
qed

theorem ordered_delivery_witness:
  "\<exists>s w n. session_run None (new_Session default_config) example_world (map (example_packet 5) [3, 2, 2, 1]) s w
     \<and> filter (on_channel 0) (dispatched s) = map (\<lambda>i. example_packet 5 (of_nat i)) [1..<Suc n] \<and> length (dispatched s) = 3"
proof -
  let ?ds = "map (example_packet 5) [3, 2, 2, 1]"
  obtain s w where run: "session_run None (new_Session default_config) example_world ?ds s w"
    and d: "dispatched s = map (example_packet 5) [1, 2, 3]" using run_ordered by blast
  have pk: "\<forall>d \<in> set ?ds. on_channel (unat (0 :: u8)) d \<longrightarrow> d = example_packet 5 (seq_of d)" by code_simp
  have "\<exists>n. filter (on_channel (unat (0 :: u8))) (dispatched s) = map (\<lambda>i. example_packet 5 (of_nat i)) [1..<Suc n]
     \<and> recvRepeatSeq (reliablePacketState (channel s (unat (0 :: u8)))) = of_nat n"
    by (rule ordered_delivery [OF run good_None cm_ok_example _ pk]) (simp add: default_config_def)
  moreover have "length (dispatched s) = 3" by (simp add: d)
  ultimately show ?thesis using run by (metis unat_0)
qed

text \<open>
  C3. Exactly-once delivery of unordered reliable packets: no number is handed on twice, however often
  and in whatever order its copies arrive, and every number up to \<open>recvRepeatSeq\<close> has
  been handed on (for the first \<open>2 ^ 32 - 64\<close> packets, before numbers repeat).
\<close>

theorem unordered_exactly_once:
  assumes "session_run hs (new_Session cfg) w0 ds s w" and "good_handlers hs" and "cm_ok w0"
    and "length (filter unordered (dispatched s)) < 4294967232"
  shows "distinct (map seq_of (filter unordered (dispatched s)))
    \<and> (\<forall>q. 0 < unat q \<and> unat q \<le> unat (recvRepeatSeq (rpsNo s)) \<longrightarrow> q \<in> set (map seq_of (filter unordered (dispatched s))))
    \<and> set (dispatched s) \<subseteq> set ds"
proof -
  have ok: "run_ok cfg ds s w" by (rule session_run_ok [OF assms(1-3)])
  then have "once (cacheRepeatCount (rpsNo s)) (recvRepeatSeq (rpsNo s)) (mset (map seq_of (filter unordered (dispatched s))))"
    by (simp add: run_ok_def dispatch_ok_def unordered_ok_def free_log_def)
  moreover have "set (dispatched s) \<subseteq> set ds" using ok by (auto simp: run_ok_def dispatch_ok_def rx_ok_def)
  ultimately show ?thesis using once_distinct assms(4) by (metis length_map)
qed

theorem unordered_exactly_once_witness:
  "\<exists>s w. session_run None (new_Session default_config) example_world
      [example_packet 1 2, example_packet 0 4, example_packet 1 2, example_packet 1 1, example_packet 0 3] s w
    \<and> distinct (map seq_of (filter unordered (dispatched s))) \<and> length (filter unordered (dispatched s)) = 2"
proof -
  obtain s w where run: "session_run None (new_Session default_config) example_world
      [example_packet 1 2, example_packet 0 4, example_packet 1 2, example_packet 1 1, example_packet 0 3] s w"
    and d: "dispatched s = [example_packet 1 2, example_packet 0 4, example_packet 1 1]" using run_mixed by blast
  have len: "length (filter unordered (dispatched s)) = 2" unfolding d by code_simp
  then show ?thesis using unordered_exactly_once [OF run good_None cm_ok_example] run by auto
qed

text \<open>
  C10. Unreliable packets are handed on with increasing numbers: each number is ahead of the
  one before it, by less than 8191, so a late or repeated packet is never handed on.
\<close>

theorem unreliable_increasing:
  assumes "session_run hs (new_Session cfg) w0 ds s w" and "good_handlers hs" and "cm_ok w0"
  shows "successively (\<lambda>a b. 0 < b - a \<and> b - a < 0x1fff) (0 # map seq_of (filter unreliable (dispatched s)))
    \<and> recvRepeatSeq (rNopsNo s) = last (0 # map seq_of (filter unreliable (dispatched s)))"
  using session_run_ok [OF assms] by (simp add: run_ok_def dispatch_ok_def unreliable_ok_def free_list_def)


theorem unreliable_increasing_witness:
  "\<exists>s w. session_run None (new_Session default_config) example_world
      [example_packet 1 2, example_packet 0 4, example_packet 1 2, example_packet 1 1, example_packet 0 3] s w
    \<and> recvRepeatSeq (rNopsNo s) = 4"
proof -
  obtain s w where run: "session_run None (new_Session default_config) example_world
      [example_packet 1 2, example_packet 0 4, example_packet 1 2, example_packet 1 1, example_packet 0 3] s w"
    and d: "dispatched s = [example_packet 1 2, example_packet 0 4, example_packet 1 1]" using run_mixed by blast
  have "last (0 # map seq_of (filter unreliable (dispatched s))) = 4" unfolding d by code_simp
  then show ?thesis using unreliable_increasing [OF run good_None cm_ok_example] run by auto
qed

text \<open>
  C11. An acknowledgement is never premature: when \<^verbatim>\<open>RecvDispatch\<close> returns true for a packet
  of an ordered channel, that number has been handed on, or the packet is kept in its slot
  until its turn comes (for numbers below \<open>2 ^ 31\<close>).
\<close>

theorem acknowledged_is_safe:
  assumes "session_run hs (new_Session cfg) w0 ds s w" and "good_handlers hs" and "cm_ok w0"
    and "24 \<le> unat n" and "on_channel c (take (unat n) b)" and "c < unat (g_channelMask cfg + 1)"
    and "Session_RecvDispatch hs b n s w = Inr (True, s', w')"
    and "0 < unat (seq_of (take (unat n) b))" and "unat (seq_of (take (unat n) b)) < 2147483648"
    and "length (filter (on_channel c) (dispatched s)) < 2147483648"
  shows "seq_of (take (unat n) b) \<in> set (map seq_of (filter (on_channel c) (dispatched s')))
    \<or> kept (channel s' c) (seq_of (take (unat n) b))"
proof -
  let ?d = "take (unat n) b" and ?L = "chan_log c (dispatched s)"
  have ok: "run_ok cfg ds s w" by (rule session_run_ok [OF assms(1-3)])
  then have dok: "dispatch_ok {} (set ds) s w" by (simp add: run_ok_def)
  have "in_order c s" using ok assms(6) by (auto simp: run_ok_def dispatch_ok_def rx_ok_def)
  then have o: "?L = map of_nat [1..<Suc (length ?L)]" and r: "recv_of (channel s c) = of_nat (length ?L)"
    unfolding in_order_def Let_def by blast+
  have len: "length ?L < 2147483648" using assms(10) by (simp add: chan_log_def)
  then have ur: "unat (recv_of (channel s c)) = length ?L" unfolding r by (intro unat_of_nat_u32) simp
  note ack = receiver.RecvDispatch_ack [OF session_receiver [OF assms(2)] assms(7) [unfolded Session_RecvDispatch_def] assms(4,5) dok]
  show ?thesis using ack
  proof (elim disjE conjE)
    assume a: "dispatched s' = dispatched s" "recv_of (channel s c) - seq_of ?d < 64"
    have e: "of_nat (unat (seq_of ?d)) = seq_of ?d" by simp
    have "unat (seq_of ?d) \<le> length ?L" using behind_window [OF a(2)] ur len assms(9) by simp
    then have "unat (seq_of ?d) \<in> set [1..<Suc (length ?L)]" using assms(8) by auto
    then have "of_nat (unat (seq_of ?d)) \<in> set (map of_nat [1..<Suc (length ?L)] :: u32 list)" unfolding set_map by (rule imageI)
    then have "seq_of ?d \<in> set (map of_nat [1..<Suc (length ?L)])" 
      unfolding e .
    then have "seq_of ?d \<in> set ?L" unfolding o [symmetric] .
    then show ?thesis unfolding a(1) by (simp add: chan_log_def)
  next
    assume "?d \<in> set (dispatched s')"
    then have "?d \<in> set (filter (on_channel c) (dispatched s'))" using assms(5) by simp
    then show ?thesis by simp
  qed simp
qed

theorem acknowledged_is_safe_witness:
  "\<exists>s' w'. Session_RecvDispatch None (example_packet 5 2) 24 (new_Session default_config) example_world = Inr (True, s', w')
    \<and> (seq_of (take 24 (example_packet 5 2)) \<in> set (map seq_of (filter (on_channel 0) (dispatched s')))
       \<or> kept (channel s' 0) (seq_of (take 24 (example_packet 5 2))))"
proof -
  have "case Session_RecvDispatch None (example_packet 5 2) 24 (new_Session default_config) example_world of
      Inl _ \<Rightarrow> False | Inr (a, s, w) \<Rightarrow> a" by code_simp
  then obtain s' w' where r: "Session_RecvDispatch None (example_packet 5 2) 24 (new_Session default_config) example_world = Inr (True, s', w')"
    by (auto split: sum.splits)
  have on: "on_channel 0 (take (unat (24 :: u16)) (example_packet 5 2))"
    "0 < unat (seq_of (take (unat (24 :: u16)) (example_packet 5 2)))"
    "unat (seq_of (take (unat (24 :: u16)) (example_packet 5 2))) < 2147483648"
    by code_simp (code_simp, simp add: seq_of_def get_header_def rd32_def example_packet_def header_bytes_def le16_def le32_def)
  have le0: "length (filter (on_channel 0) (dispatched (new_Session default_config))) < 2147483648" by (simp add: new_Session_def)
  have u: "unat (24 :: u16) = 24" by simp
  have "seq_of (take 24 (example_packet 5 2)) \<in> set (map seq_of (filter (on_channel 0) (dispatched s')))
      \<or> kept (channel s' 0) (seq_of (take 24 (example_packet 5 2)))"
    by (rule acknowledged_is_safe [OF session_run.start good_None cm_ok_example _ on(1) _ r on(2,3) le0, unfolded u]) (simp_all add: default_config_def)
  with r show ?thesis by blast
qed



end
