(* ===== verification/Dubu_Client.thy ===== *)
theory Dubu_Client
  imports Dubu_Frame
begin

text \<open>
  \<^verbatim>\<open>Client.h/.cpp\<close>: the client's end of a connection. Its receive and send paths are those of
  \<^verbatim>\<open>Dubu_Receive\<close> and \<^verbatim>\<open>Dubu_Send\<close>; when the window of unacknowledged packets is full it
  disconnects. The address of the peer is the socket's.
\<close>

section \<open>Definitions\<close>

record Client = Endpoint +
  connNo :: u32

abbreviation (input) DEFAULT_REQUEST_CONNECT_NO :: u32 where "DEFAULT_REQUEST_CONNECT_NO \<equiv> 10"

text \<open>The constructor: the socket of the client and a first posted receive.\<close>

definition new_Client :: "SOCKADDR_IN \<Rightarrow> World \<Rightarrow> (Client \<times> World) result" where
  "new_Client server w =
     andThen (RecvFrom w) (\<lambda>w1. Inr (
       \<lparr>rNopsNo = new_PacketStateBase, rpsNo = new_ReliablePacketState,
        cacheAlreadyPackets = replicate (unat (g_channelMask (config w) + 1)) new_CacheAlreadyPacket,
        chunckPakcetInj = Map.empty, hasSocket = True, addr = server, endpointId = 0,
        rttMillisec = g_defaultRttMs (config w), timestamp = 0, isConnect = False, lastPongSeq = 0,
        dispatched = [], connNo = 0\<rparr>, w1))"

definition Client_Reset :: "'x Client_ext step" where
  "Client_Reset sw = (case sw of (s, w) \<Rightarrow> reset_states (s\<lparr>isConnect := False\<rparr>, w))"

definition Client_ConnectMessage :: "'x Client_ext step" where
  "Client_ConnectMessage sw =
     (case sw of (s, w) \<Rightarrow>
      if DEFAULT_REQUEST_CONNECT_NO \<le> connNo s then Inr (s, w)
      else andThen (send_header (addr s)
             (\<lambda>h. h\<lparr>flags := flag_value SESSION, hSessionId := 0, hSequenceNo := 0, hTimestamp := 0\<rparr>) w)
             (\<lambda>w1. Inr (s\<lparr>connNo := connNo s + 1\<rparr>, w1)))"

definition Client_DisconnectMessage :: "'x Client_scheme \<Rightarrow> World \<Rightarrow> World result" where
  "Client_DisconnectMessage s w =
     send_header (addr s) (\<lambda>h. h\<lparr>flags := flag_value DISCONNECT, hSessionId := endpointId s,
       hSequenceNo := 0, hTimestamp := 0\<rparr>) w"

definition Client_Disconnect :: "'x Client_ext step" where
  "Client_Disconnect sw =
     (case sw of (s, w) \<Rightarrow> andThen (Client_DisconnectMessage s w) (\<lambda>w1. Client_Reset (s, w1)))"

definition Client_Connect :: "'x Client_ext step" where
  "Client_Connect sw =
     andThen (Client_ConnectMessage sw) (\<lambda>(s, w).
       let (now, w1) = GetRelativeTimeMs w in Inr (s\<lparr>timestamp := now\<rparr>, w1))"

definition Client_overflow :: "ptr \<Rightarrow> 'x Client_ext step" where
  "Client_overflow p sw = (case sw of (s, w) \<Rightarrow> Client_Disconnect (s, PushPacketBuffer p w))"

definition Client_SendPacket :: "bytes \<Rightarrow> u8 \<Rightarrow> u16 \<Rightarrow> PacketOpctions \<Rightarrow> bytes \<Rightarrow> 'x Client_ext step" where
  "Client_SendPacket = SendPacket Client_overflow"

definition Client_SendPacketChunk :: "bytes \<Rightarrow> u8 \<Rightarrow> u16 \<Rightarrow> bytes \<Rightarrow> 'x Client_ext step" where
  "Client_SendPacketChunk = SendPacketChunk Client_overflow"

text \<open>The bytes of \<^verbatim>\<open>"ECHO TEST !!!"\<close>.\<close>

definition Client_SendEchoMessage :: "'x Client_ext step" where
  "Client_SendEchoMessage =
     Client_SendPacket [69, 67, 72, 79, 32, 84, 69, 83, 84, 32, 33, 33, 33] 0 13 (mk_opt True True 0) []"

definition Client_SendAck :: "u32 \<Rightarrow> PacketOpctions \<Rightarrow> 'x Client_scheme \<Rightarrow> World \<Rightarrow> World result" where
  "Client_SendAck seqNo opt s w =
     (let (now, w1) = GetRelativeTimeMs w
      in send_header (addr s) (\<lambda>h. h\<lparr>flags := ack_flags opt, hSessionId := endpointId s,
           hSequenceNo := seqNo, hTimestamp := now, packetCode := 0\<rparr>) w1)"

text \<open>The buffer is taken before the test, and not returned when the test fails.\<close>

definition Client_RepeatPongMessage :: "bytes \<Rightarrow> u16 \<Rightarrow> 'x Client_ext step" where
  "Client_RepeatPongMessage buffer sz sw =
     (case sw of (s, w) \<Rightarrow>
       (let (p, w1) = PopPacketBuffer w; seq = hSequenceNo (get_header buffer)
        in if lastPongSeq s \<le> seq then
             andThen (SendTo (addr s) p (SetType p (obj_type SENDTO)
                 (seal_header p (\<lambda>h. h\<lparr>flags := flag_value PONG, hSessionId := endpointId s,
                    hSequenceNo := seq, hTimestamp := 0\<rparr>) w1)))
               (\<lambda>w2. Inr (s\<lparr>lastPongSeq := seq\<rparr>, w2))
           else Inr (s, w1)))"

definition Client_PacketParse :: "'x Client_ext handlers \<Rightarrow> bytes \<Rightarrow> u16 \<Rightarrow> 'x Client_ext step" where
  "Client_PacketParse hs buffer sz sw =
     (if packetCode (get_header buffer) = 0 then Inr sw else parse_handlers hs buffer sz sw)"

definition Client_RecvChunckPacket :: "'x Client_ext handlers \<Rightarrow> bytes \<Rightarrow> u16 \<Rightarrow> 'x Client_ext step" where
  "Client_RecvChunckPacket hs = RecvChunckPacket (Client_PacketParse hs)"

definition Client_RecvDispatch :: "'x Client_ext handlers \<Rightarrow> bytes \<Rightarrow> u16 \<Rightarrow> 'x Client_scheme \<Rightarrow> World
    \<Rightarrow> (bool \<times> 'x Client_scheme \<times> World) result" where
  "Client_RecvDispatch hs = RecvDispatch (Client_PacketParse hs) (Client_RecvChunckPacket hs)"

definition Client_RecvDispatchACK :: "bytes \<Rightarrow> u16 \<Rightarrow> 'x Client_scheme \<Rightarrow> World
    \<Rightarrow> (bool \<times> 'x Client_scheme \<times> World) result" where
  "Client_RecvDispatchACK = RecvDispatchACK"

definition Client_RepeatMessageAll :: "u32 \<Rightarrow> 'x Client_ext step" where
  "Client_RepeatMessageAll = RepeatMessageAll"

definition Client_RepeatMessage :: "SOCKADDR_IN \<Rightarrow> u32 \<Rightarrow> u32 \<Rightarrow> ReliablePacketState \<times> World
    \<Rightarrow> (ReliablePacketState \<times> World) result" where
  "Client_RepeatMessage = RepeatMessage"

definition Client_CheckPending :: "'x Client_ext step" where
  "Client_CheckPending sw =
     (case sw of (s, w) \<Rightarrow>
       (let (now, w1) = GetRelativeTimeMs w
        in andThen (if g_defaultDisconnectTimeoutMs (config w) < now - timestamp s
                    then Client_Disconnect (s, w1) else Inr (s, w1))
             (\<lambda>(s1, w2). RepeatMessageAll (rttMillisec s1 * 2 + g_defaultRttMsDelay (config w)) (s1, w2))))"

text \<open>The branches of \<^verbatim>\<open>OnRecvFrom\<close>, in the order the code tests them.\<close>

definition Client_handle :: "'x Client_ext handlers \<Rightarrow> bytes \<Rightarrow> u16 \<Rightarrow> 'x Client_ext step" where
  "Client_handle hs buffer sz sw =
     (case sw of (s, w) \<Rightarrow>
       (let header = get_header buffer; flag = flags header
        in if flag = flag_value SESSION then Inr (s\<lparr>endpointId := hSessionId header, isConnect := True\<rparr>, w)
           else if flag = flag_value PING then Client_RepeatPongMessage buffer sz (s, w)
           else if flag = flag_value DISCONNECT then Client_Disconnect (s, w)
           else if flag = flag_value NONE then
             andThen (Client_RecvDispatch hs buffer sz s w) (\<lambda>(_, s1, w1). Inr (s1, w1))
           else if has_flag flag REPEAT then
             andThen (Client_RecvDispatch hs buffer sz s w) (\<lambda>(result, s1, w1).
               if result then
                 let opt = (if has_flag flag CHANNEL then mk_opt True True (channel_of flag) else mk_opt True False 0)
                 in andThen (Client_SendAck (hSequenceNo header) opt s1 w1) (\<lambda>w2. Inr (s1, w2))
               else Inr (s1, w1))
           else if has_flag flag ACK then
             andThen (Client_RecvDispatchACK buffer sz s w) (\<lambda>(_, s1, w1). Inr (s1, w1))
           else Inr (s, w)))"

definition Client_OnRecvFrom :: "'x Client_ext handlers \<Rightarrow> SOCKADDR_IN \<Rightarrow> ptr \<Rightarrow> u16 \<Rightarrow> 'x Client_ext step" where
  "Client_OnRecvFrom hs from p sz sw =
     (case sw of (s, w) \<Rightarrow>
       (let (now, w1) = GetRelativeTimeMs w
        in andThen (Client_handle hs (obuffer (packets w p)) sz (s\<lparr>timestamp := now\<rparr>, w1))
             (\<lambda>(s1, w2). Inr (s1, PushPacketBuffer p w2))))"

text \<open>\<open>completion\<close> is what the completion port returns: nothing, or a buffer and a byte count.\<close>

definition Client_Dispatch :: "'x Client_ext handlers \<Rightarrow> (ptr \<times> int) option \<Rightarrow> 'x Client_scheme \<times> World
    \<Rightarrow> (bool \<times> 'x Client_scheme \<times> World) result" where
  "Client_Dispatch hs completion sw =
     (case completion of
        None \<Rightarrow> andThen (Client_CheckPending sw) (\<lambda>(s, w). Inr (False, s, w))
      | Some (p, sz) \<Rightarrow>
          let t = otype (packets (snd sw) p)
          in if t AND obj_type RECVEFROM = obj_type RECVEFROM then
               andThen (RecvFromComplete (Some (Client_OnRecvFrom hs)) p sz sw) (\<lambda>(s, w). Inr (True, s, w))
             else if t AND obj_type SENDTO = obj_type SENDTO then Inr (True, fst sw, SendToComplete p (snd sw))
             else Inr (True, sw))"

text \<open>\<^verbatim>\<open>ConnectTimes\<close>: one element of \<open>completions\<close> per turn of the loop.\<close>

fun Client_ConnectTimes :: "'x Client_ext handlers \<Rightarrow> (ptr \<times> int) option list \<Rightarrow> 'x Client_ext step" where
  "Client_ConnectTimes hs [] sw = Inr sw"
| "Client_ConnectTimes hs (completion # rest) sw =
     (if isConnect (fst sw) then Inr sw
      else andThen (Client_Connect sw) (\<lambda>sw1.
             andThen (Client_Dispatch hs completion sw1) (\<lambda>(_, s, w). Client_ConnectTimes hs rest (s, w))))"

end
