(* ===== verification/Dubu_Server.thy ===== *)
theory Dubu_Server
  imports Dubu_Session
begin

text \<open>
  The server: \<^verbatim>\<open>SessionManager.h/.cpp\<close>, \<^verbatim>\<open>Server.h/.cpp\<close> and
  \<^verbatim>\<open>SessionWorker.h/.cpp\<close>. Sessions are objects in a heap, named by the session map (by
  id) and by the peer map (by address); the workers take datagrams from bounded
  queues and call the session they belong to. Packet handlers act on their own
  session and the world.
\<close>

section \<open>Data\<close>

record Peer =
  peer_key :: u64
  peer_addr :: SOCKADDR_IN
  peer_session :: ptr

record SessionJob =
  job_key :: u32
  job_opb :: ptr

record SessionWorker =
  queue :: "SessionJob list"
  isStart :: bool
  lastCheckTime :: u32

text \<open>
  \<open>sessionMap\<close> is a \<^verbatim>\<open>std::map\<close>: its entries in the order of their keys. \<open>draws\<close> are
  the values the random distribution will return.
\<close>

record Server =
  sessionMap :: "(u32 \<times> ptr) list"
  sessionHeap :: "ptr \<rightharpoonup> Session"
  sessionPool :: ObjectPool
  sessionCount :: u32
  draws :: "u32 list"
  peerMap :: "u64 \<rightharpoonup> Peer"
  isRunning :: bool
  workers :: "SessionWorker list"

definition new_SessionWorker :: SessionWorker where
  "new_SessionWorker = \<lparr>queue = [], isStart = True, lastCheckTime = 0\<rparr>"

definition new_Server :: "u32 list \<Rightarrow> nat \<Rightarrow> Server" where
  "new_Server ids n = \<lparr>sessionMap = [], sessionHeap = Map.empty, sessionPool = \<lparr>freeList = [], brk = 0\<rparr>,
     sessionCount = 0, draws = ids, peerMap = Map.empty, isRunning = False,
     workers = replicate n new_SessionWorker\<rparr>"

type_synonym server_step = "Server \<times> World \<Rightarrow> (Server \<times> World) result"

definition upd_session :: "ptr \<Rightarrow> Session \<Rightarrow> Server \<Rightarrow> Server" where
  "upd_session p s sv = sv\<lparr>sessionHeap := (sessionHeap sv)(p \<mapsto> s)\<rparr>"

section \<open>SessionManager\<close>

text \<open>The loop draws until an unused id comes up; it has not ended when the draws run out.\<close>

fun GenerateId :: "(u32 \<times> ptr) list \<Rightarrow> u32 list \<Rightarrow> (u32 \<times> u32 list) result" where
  "GenerateId m [] = Inl LoopBound"
| "GenerateId m (i # is) = (if map_of m i \<noteq> None then GenerateId m is else Inr (i, is))"

definition AddSession :: "Config \<Rightarrow> Server \<Rightarrow> (ptr \<times> Server) result" where
  "AddSession cfg sv =
     andThen (GenerateId (sessionMap sv) (draws sv)) (\<lambda>(i, is).
       let (p, pool) = ObjectPool_Pop (sessionPool sv)
       in Inr (p, sv\<lparr>draws := is, sessionCount := sessionCount sv + 1, sessionPool := pool,
                     sessionHeap := (sessionHeap sv)(p \<mapsto> SetSessionId i (new_Session cfg)),
                     sessionMap := insort_key fst (i, p) (sessionMap sv)\<rparr>))"

definition GetSession :: "u32 \<Rightarrow> Server \<Rightarrow> ptr option" where
  "GetSession i sv = map_of (sessionMap sv) i"

definition Manager_RemoveSession :: "u32 \<Rightarrow> Server \<Rightarrow> Server" where
  "Manager_RemoveSession i sv = sv\<lparr>sessionMap := filter (\<lambda>e. fst e \<noteq> i) (sessionMap sv)\<rparr>"

section \<open>Server\<close>

definition PeerKey :: "SOCKADDR_IN \<Rightarrow> u64" where
  "PeerKey a = push_bit 16 (ucast (sin_addr a)) OR ucast (sin_port a)"

definition CreateSession :: "SOCKADDR_IN \<Rightarrow> Server \<Rightarrow> World \<Rightarrow> (ptr \<times> Server \<times> World) result" where
  "CreateSession a sv w =
     andThen (AddSession (config w) sv) (\<lambda>(p, sv1).
       let (s, w1) = SetSockAddr a (the (sessionHeap sv1 p)) w;
           (now, w2) = GetRelativeTimeMs w1
       in Inr (p, upd_session p (SetTimestamp now (SetSocket True s)) sv1, w2))"

text \<open>Pushing the object back runs the destructor, which resets it once more.\<close>

definition DestroySession :: "ptr \<Rightarrow> server_step" where
  "DestroySession p sw =
     (case sw of (sv, w) \<Rightarrow>
       (case sessionHeap sv p of
          None \<Rightarrow> Inl NullPointer
        | Some s \<Rightarrow>
            andThen (andThen (Session_Reset (if isConnect s then Session_Disconnect s else s, w)) Session_Reset) (\<lambda>(_, w1).
              Inr (sv\<lparr>sessionHeap := (sessionHeap sv)(p := None),
                      sessionPool := ObjectPool_Push p (sessionPool sv)\<rparr>, w1))))"

definition RemoveSession :: "u32 \<Rightarrow> server_step" where
  "RemoveSession i sw =
     (case sw of (sv, w) \<Rightarrow>
       (case GetSession i sv of
          None \<Rightarrow> Inr (sv, w)
        | Some p \<Rightarrow>
            (case sessionHeap sv p of
               None \<Rightarrow> Inl NullPointer
             | Some s \<Rightarrow> DestroySession p (Manager_RemoveSession i
                 (sv\<lparr>peerMap := (peerMap sv)(PeerKey (addr s) := None)\<rparr>), w))))"

definition Server_ConnectMessage :: "Session \<Rightarrow> World \<Rightarrow> World result" where
  "Server_ConnectMessage s w =
     send_header (addr s) (\<lambda>h. h\<lparr>flags := flag_value SESSION, hSessionId := endpointId s,
       hSequenceNo := 0, hTimestamp := 0\<rparr>) w"

definition Server_DisconnectMessage :: "Session \<Rightarrow> World \<Rightarrow> World result" where
  "Server_DisconnectMessage s w =
     (let (now, w1) = GetRelativeTimeMs w
      in send_header (addr s) (\<lambda>h. h\<lparr>flags := flag_value DISCONNECT, hSessionId := endpointId s,
           hSequenceNo := 0, hTimestamp := now\<rparr>) w1)"

definition SendPing :: "Session \<Rightarrow> World \<Rightarrow> (Session \<times> World) result" where
  "SendPing s w =
     (let (seq, s1) = AccSequnceNo s; (now, w1) = GetRelativeTimeMs w
      in andThen (send_header (addr s1) (\<lambda>h. h\<lparr>flags := flag_value PING, hSessionId := endpointId s1,
             hSequenceNo := seq, hTimestamp := now, packetCode := 0\<rparr>) w1)
           (\<lambda>w2. Inr (AddPingCount s1, w2)))"

definition Server_SendAck :: "u32 \<Rightarrow> 'x Session_scheme \<Rightarrow> PacketOpctions \<Rightarrow> World \<Rightarrow> World result" where
  "Server_SendAck seqNo s opt w =
     (let (now, w1) = GetRelativeTimeMs w
      in send_header (addr s) (\<lambda>h. h\<lparr>flags := ack_flags opt, hSessionId := endpointId s,
           hSequenceNo := seqNo, hTimestamp := now, packetCode := 0\<rparr>) w1)"

section \<open>SessionWorker\<close>

text \<open>\<open>try_push\<close> on a queue of capacity 8192; a job that does not fit is dropped.\<close>

definition Worker_Push :: "SessionJob \<Rightarrow> SessionWorker \<Rightarrow> World \<Rightarrow> SessionWorker \<times> World" where
  "Worker_Push job wk w =
     (if length (queue wk) < 8192 then (wk\<lparr>queue := queue wk @ [job]\<rparr>, w)
      else (wk, PushPacketBuffer (job_opb job) w))"

definition Server_OnRecvFrom :: "SOCKADDR_IN \<Rightarrow> ptr \<Rightarrow> u16 \<Rightarrow> server_step" where
  "Server_OnRecvFrom from p sz sw =
     (case sw of (sv, w) \<Rightarrow>
       (let header = get_header (obuffer (packets w p))
        in if workers sv = [] then Inr (sv, PushPacketBuffer p w)
           else if totalSize header \<noteq> sz then Inr (sv, PushPacketBuffer p w)
           else let target = unat (hSessionId header) mod length (workers sv);
                    (wk, w1) = Worker_Push \<lparr>job_key = hSessionId header, job_opb = p\<rparr> (workers sv ! target) w
                in Inr (sv\<lparr>workers := (workers sv)[target := wk]\<rparr>, w1)))"

text \<open>A SESSION request: a known address gets its answer again, a new one a new session.\<close>

definition accept_session :: "ptr \<Rightarrow> SOCKADDR_IN \<Rightarrow> server_step" where
  "accept_session opb from sw =
     (case sw of (sv, w) \<Rightarrow>
       (case peerMap sv (PeerKey from) of
          None \<Rightarrow>
            andThen (CreateSession from sv w) (\<lambda>(p, sv1, w1).
              let s = the (sessionHeap sv1 p); b = obuffer (packets w1 opb);
                  w2 = w1\<lparr>packets := (packets w1)(opb := (packets w1 opb)\<lparr>obuffer :=
                         set_header ((get_header b)\<lparr>hSessionId := endpointId s\<rparr>) b\<rparr>)\<rparr>
              in andThen (Server_ConnectMessage s w2) (\<lambda>w3.
                   Inr (sv1\<lparr>peerMap := (peerMap sv1)(PeerKey from \<mapsto>
                     \<lparr>peer_key = PeerKey from, peer_addr = from, peer_session = p\<rparr>)\<rparr>, w3)))
        | Some peer \<Rightarrow>
            (case sessionHeap sv (peer_session peer) of
               None \<Rightarrow> Inl NullPointer
             | Some s \<Rightarrow> andThen (Server_ConnectMessage s w) (\<lambda>w1. Inr (sv, w1)))))"

text \<open>
  A datagram of a known session from an unknown address moves the session there; \<open>False\<close> means that
  the session was cut off because it had no peer entry.
\<close>

definition move_session :: "u32 \<Rightarrow> SOCKADDR_IN \<Rightarrow> Server \<times> World \<Rightarrow> (bool \<times> Server \<times> World) result" where
  "move_session i from sw =
     (case sw of (sv, w) \<Rightarrow>
       (case GetSession i sv of
          None \<Rightarrow> Inr (True, sv, w)
        | Some p \<Rightarrow>
            if peerMap sv (PeerKey from) \<noteq> None then Inr (True, sv, w)
            else (case sessionHeap sv p of
              None \<Rightarrow> Inl NullPointer
            | Some s \<Rightarrow>
                (case peerMap sv (PeerKey (addr s)) of
                   None \<Rightarrow> andThen (RemoveSession (endpointId s) (upd_session p (Session_Disconnect s) sv, w))
                             (\<lambda>(sv1, w1). Inr (False, sv1, w1))
                 | Some peer \<Rightarrow>
                     let (s1, w1) = SetSockAddr from s w
                     in Inr (True, (upd_session p s1 sv)\<lparr>peerMap := (peerMap sv)
                          (PeerKey from \<mapsto> peer\<lparr>peer_addr := from, peer_key := PeerKey from\<rparr>,
                           PeerKey (addr s) := None)\<rparr>, w1)))))"

definition session_packet :: "'x Session_ext handlers \<Rightarrow> bytes \<Rightarrow> u16 \<Rightarrow> 'x Session_ext step" where
  "session_packet hs buffer sz sw =
     (case sw of (s, w) \<Rightarrow>
       (let header = get_header buffer; flag = flags header
        in if flag = flag_value PONG then
             (case RecvDispatchPong buffer sz s w of (_, s1, w1) \<Rightarrow> Inr (s1, w1))
           else if flag = flag_value PING then Inr (s, w)
           else if flag = flag_value NONE then
             andThen (Session_RecvDispatch hs buffer sz s w) (\<lambda>(_, s1, w1). Inr (s1, w1))
           else if has_flag flag REPEAT then
             andThen (Session_RecvDispatch hs buffer sz s w) (\<lambda>(result, s1, w1).
               if result then
                 let opt = (if has_flag flag CHANNEL then mk_opt True True (channel_of flag) else mk_opt True False 0)
                 in andThen (Server_SendAck (hSequenceNo header) s1 opt w1) (\<lambda>w2. Inr (s1, w2))
               else Inr (s1, w1))
           else if has_flag flag ACK then
             andThen (RecvDispatchACK buffer sz s w) (\<lambda>(_, s1, w1). Inr (s1, w1))
           else Inr (s, w)))"

definition ProcessPacket :: "unit Session_ext handlers \<Rightarrow> ptr \<Rightarrow> u16 \<Rightarrow> SOCKADDR_IN \<Rightarrow> server_step" where
  "ProcessPacket hs opb sz from sw =
     (case sw of (sv, w) \<Rightarrow>
       (let buffer = obuffer (packets w opb); header = get_header buffer; sessionId = hSessionId header
        in if flags header = flag_value SESSION then accept_session opb from (sv, w)
           else if sessionId = 0 then Inr (sv, w)
           else andThen (move_session sessionId from (sv, w)) (\<lambda>(go, sv1, w1).
             if \<not> go then Inr (sv1, w1)
             else (case GetSession sessionId sv1 of
                     None \<Rightarrow> Inr (sv1, w1)
                   | Some p \<Rightarrow>
                       (case sessionHeap sv1 p of
                          None \<Rightarrow> Inl NullPointer
                        | Some s \<Rightarrow>
                            let (now, w2) = GetRelativeTimeMs w1
                            in andThen (session_packet hs buffer sz (SetTimestamp now s, w2))
                                 (\<lambda>(s1, w3). Inr (upd_session p s1 sv1, w3)))))))"

text \<open>The periodic check of one session: does it time out, is it pinged, what is retransmitted.\<close>

definition check_session :: "nat \<Rightarrow> nat \<Rightarrow> u32 \<Rightarrow> u32 \<times> ptr \<Rightarrow> u32 list \<times> Server \<times> World
    \<Rightarrow> (u32 list \<times> Server \<times> World) result" where
  "check_session workerCount num now e st =
     (case (e, st) of ((i, p), (removed, sv, w)) \<Rightarrow>
       (case sessionHeap sv p of
          None \<Rightarrow> Inl NullPointer
        | Some s \<Rightarrow>
            if unat (endpointId s) mod workerCount \<noteq> num \<or> \<not> isConnect s \<or> awaysConnect s then Inr st
            else
              let delayTime = now - timestamp s;
                  gone = g_defaultDisconnectTimeoutMs (config w) < delayTime \<or> readyDisconnect s;
                  removed1 = (if gone \<and> length removed < DEFAULT_WINDOW_COUNT then removed @ [i] else removed)
              in andThen
                   (if \<not> gone \<and> g_defaultPingTimeoutMs (config w) < delayTime
                       \<and> g_defaultPingTimeoutMs (config w) \<le> now - lastPingSentTime s
                    then andThen (SendPing s w) (\<lambda>(s1, w1). Inr (SetLastPingSentTime now s1, w1))
                    else Inr (s, w))
                   (\<lambda>(s1, w1). andThen (RepeatMessageAll (rttMillisec s1 * 2 + g_defaultRttMsDelay (config w)) (s1, w1))
                     (\<lambda>(s2, w2). Inr (removed1, upd_session p s2 sv, w2)))))"

fun check_all :: "nat \<Rightarrow> nat \<Rightarrow> u32 \<Rightarrow> (u32 \<times> ptr) list \<Rightarrow> u32 list \<times> Server \<times> World
    \<Rightarrow> (u32 list \<times> Server \<times> World) result" where
  "check_all n num now [] st = Inr st"
| "check_all n num now (e # es) st = andThen (check_session n num now e st) (check_all n num now es)"

fun remove_all :: "u32 list \<Rightarrow> server_step" where
  "remove_all [] sw = Inr sw"
| "remove_all (i # is) (sv, w) =
     andThen
       (case GetSession i sv of
          None \<Rightarrow> Inr (sv, w)
        | Some p \<Rightarrow>
            (case sessionHeap sv p of
               None \<Rightarrow> Inl NullPointer
             | Some s \<Rightarrow> andThen (Server_DisconnectMessage s w)
                 (\<lambda>w1. Inr (upd_session p (Session_Disconnect s) sv, w1))))
       (\<lambda>sw1. andThen (RemoveSession i sw1) (remove_all is))"

definition CheckSessions :: "nat \<Rightarrow> server_step" where
  "CheckSessions num sw =
     (case sw of (sv, w) \<Rightarrow>
      if workers sv = [] then Inr (sv, w)
      else let (now, w1) = GetRelativeTimeMs w
           in andThen (check_all (length (workers sv)) num now (sessionMap sv) ([], sv, w1))
                (\<lambda>(removed, sv1, w2). remove_all removed (sv1, w2)))"

text \<open>At most 64 jobs of the worker's queue.\<close>

fun process_jobs :: "unit Session_ext handlers \<Rightarrow> nat \<Rightarrow> nat \<Rightarrow> server_step" where
  "process_jobs hs num 0 sw = Inr sw"
| "process_jobs hs num (Suc n) (sv, w) =
     (case queue (workers sv ! num) of
        [] \<Rightarrow> Inr (sv, w)
      | job # rest \<Rightarrow>
          let p = job_opb job; sv1 = sv\<lparr>workers := (workers sv)[num := (workers sv ! num)\<lparr>queue := rest\<rparr>]\<rparr>
          in andThen (ProcessPacket hs p (totalSize (get_header (obuffer (packets w p)))) (remoteAddr (packets w p)) (sv1, w))
               (\<lambda>(sv2, w1). process_jobs hs num n (sv2, PushPacketBuffer p w1)))"

definition Process :: "unit Session_ext handlers \<Rightarrow> nat \<Rightarrow> server_step" where
  "Process hs num sw =
     andThen (process_jobs hs num DEFAULT_WINDOW_COUNT sw) (\<lambda>(sv, w).
       let (now, w1) = GetRelativeTimeMs w
       in if 50 \<le> now - lastCheckTime (workers sv ! num)
          then CheckSessions num (sv\<lparr>workers := (workers sv)[num := (workers sv ! num)\<lparr>lastCheckTime := now\<rparr>]\<rparr>, w1)
          else Inr (sv, w1))"

definition Worker_ReturnBuffers :: "SessionWorker \<Rightarrow> World \<Rightarrow> SessionWorker \<times> World" where
  "Worker_ReturnBuffers wk w = (wk\<lparr>queue := []\<rparr>, fold (\<lambda>job. PushPacketBuffer (job_opb job)) (queue wk) w)"

definition Worker_Stop :: "SessionWorker \<Rightarrow> SessionWorker" where
  "Worker_Stop wk = wk\<lparr>isStart := False\<rparr>"

definition Server_Stop :: "Server \<Rightarrow> Server" where
  "Server_Stop sv = (if \<not> isRunning sv then sv
     else sv\<lparr>isRunning := False, workers := map Worker_Stop (workers sv)\<rparr>)"

definition Server_Initialize :: "server_step" where
  "Server_Initialize sw =
     (case sw of (sv, w) \<Rightarrow>
        andThen (post_receives (unat (g_firstClientCount (config w))) w) (\<lambda>w1. Inr (sv\<lparr>isRunning := True\<rparr>, w1)))"

definition Server_Dispatch :: "(ptr \<times> int) option \<Rightarrow> server_step" where
  "Server_Dispatch completion sw =
     (case completion of
        None \<Rightarrow> Inr sw
      | Some (p, sz) \<Rightarrow>
          let t = otype (packets (snd sw) p)
          in if t AND obj_type RECVEFROM = obj_type RECVEFROM
             then RecvFromComplete (Some Server_OnRecvFrom) p sz sw
             else if t AND obj_type SENDTO = obj_type SENDTO then Inr (fst sw, SendToComplete p (snd sw))
             else Inr sw)"

end
