(* ===== verification/Dubu_Invariant.thy ===== *)
theory Dubu_Invariant
  imports Dubu_Server
begin

text \<open>
  Invariants that the connection code itself cannot break. A \<open>view\<close> of a connection end is some part of it that no
  operation of the framework writes; an invariant of that part and of the configuration then holds after an
  operation whenever the handlers the operation calls keep it. The servers use this for what the sessions carry:
  their identity, and the state of the application.
\<close>

definition keeps :: "('e Endpoint_scheme \<Rightarrow> 'a) \<Rightarrow> ('a \<Rightarrow> Config \<Rightarrow> bool) \<Rightarrow> 'e step \<Rightarrow> bool" where
  "keeps view P f \<longleftrightarrow> (\<forall>s w s' w'. f (s, w) = Inr (s', w') \<longrightarrow> P (view s) (config w) \<longrightarrow> P (view s') (config w'))"

lemma keepsI: "(\<And>s w s' w'. f (s, w) = Inr (s', w') \<Longrightarrow> P (view s) (config w) \<Longrightarrow> P (view s') (config w')) \<Longrightarrow> keeps view P f"
  by (simp add: keeps_def)

lemma keepsD: "keeps view P f \<Longrightarrow> f (s, w) = Inr (s', w') \<Longrightarrow> P (view s) (config w) \<Longrightarrow> P (view s') (config w')"
  unfolding keeps_def by blast

lemma keeps_seq: "keeps view P f \<Longrightarrow> keeps view P g \<Longrightarrow> keeps view P (\<lambda>sw. andThen (f sw) g)"
  by (rule keepsI) (auto dest!: keepsD)

text \<open>What the application's handlers must keep.\<close>

definition keeping_handlers :: "('e Endpoint_scheme \<Rightarrow> 'a) \<Rightarrow> ('a \<Rightarrow> Config \<Rightarrow> bool) \<Rightarrow> 'e handlers \<Rightarrow> bool" where
  "keeping_handlers view P hs \<longleftrightarrow> (\<forall>table code h. hs = Some table \<longrightarrow> table code = Some h \<longrightarrow>
     (\<forall>f b n. handler h = Some f \<longrightarrow> keeps view P (f b n)) \<and> (\<forall>f b n sub t. handler2 h = Some f \<longrightarrow> keeps view P (f b n sub t)))"

lemma keeping_handlersD:
  assumes "keeping_handlers view P (Some table)" "table code = Some h"
  shows "handler h = Some f \<Longrightarrow> keeps view P (f b n)" "handler2 h = Some g \<Longrightarrow> keeps view P (g b n sub t)"
  using assms unfolding keeping_handlers_def by blast+

lemma parse_handlers_keeps: "keeping_handlers view P hs \<Longrightarrow> keeps view P (parse_handlers hs b n)"
  unfolding parse_handlers_def Let_def
  by (rule keepsI) (auto split: option.splits if_splits dest: keeping_handlersD [THEN keepsD])

text \<open>No operation on the world's buffers, clock and sockets changes the configuration.\<close>

lemma rx_world_config: "rx_world w' = rx_world w \<Longrightarrow> config w' = config w"
  by (simp add: rx_world_def)

lemma config_clock: "GetRelativeTimeMs w = (t, w') \<Longrightarrow> config w' = config w"
  by (auto simp: GetRelativeTimeMs_def)

lemma config_cache_push [frame_simps]: "config (Cache_PushPacketBuffer p w) = config w"
  by (simp add: Cache_PushPacketBuffer_def Let_def)

lemma config_Copy: "CachePacketBuffer_Copy p b n w = Inr w' \<Longrightarrow> config w' = config w"
  by (auto dest: cached_Copy(3))

lemma config_PopBig: "PopBig n w = Inr (big, w') \<Longrightarrow> config w' = config w"
  by (auto simp: PopBig_def Let_def split: if_splits list.splits)

lemma config_PushBig: "PushBig big w = Inr w' \<Longrightarrow> config w' = config w"
  by (auto simp: PushBig_def Let_def split: if_splits)

lemma config_send_header: "send_header to f w = Inr w' \<Longrightarrow> config w' = config w"
  by (rule rx_world_config)
    (auto simp: send_header_def seal_header_def store_packet_def Let_def frame_simps split: prod.splits
      dest!: rx_world_Pop(1) rx_world_send)

lemma config_Ack: "AckProcess q rps rtt w = (rps', rtt', w') \<Longrightarrow> config w' = config w"
  by (rule rx_world_config) (auto simp: AckProcess_def Let_def frame_simps split: option.splits if_splits prod.splits dest: rx_world_Pop(2))

text \<open>Nor does a reset.\<close>

lemma config_fold: "(\<And>i a. config (snd (f i a)) = config (snd a)) \<Longrightarrow> config (snd (fold f xs a)) = config (snd a)"
  by (induction xs arbitrary: a) simp_all

lemma config_drop_reliable [frame_simps]: "config (drop_reliable p w) = config w"
  using rx_world_config [OF rx_world_pool(6)] .

lemma config_slots:
  "config (snd (fold return_slot xs a)) = config (snd a)" "config (snd (fold reset_slot xs c)) = config (snd c)"
  by (rule config_fold; simp add: return_slot_def reset_slot_def frame_simps split: prod.splits option.splits)+

lemma config_State_Reset: "ReliablePacketState_Reset rps w = (rps', w') \<Longrightarrow> config w' = config w"
  by (auto simp: ReliablePacketState_Reset_def ReturnBuffers_def Let_def config_slots split_beta)

lemma config_over_channels:
  assumes "\<And>cap w cap' w'. f (cap, w) = Inr (cap', w') \<Longrightarrow> config w' = config w"
  shows "over_channels f cs (s, w) = Inr (s', w') \<Longrightarrow> config w' = config w"
  by (induction cs arbitrary: s w) (auto split: if_splits dest!: assms)

lemma config_reset_channel: "reset_channel (cap, w) = Inr (cap', w') \<Longrightarrow> config w' = config w"
  by (cases "ReliablePacketState_Reset (reliablePacketState cap) w")
    (auto simp: reset_channel_def Let_def config_slots split_beta config_State_Reset)

lemma config_Session_Reset:
  assumes "Session_Reset (s, w) = Inr (s', w')"
  shows "config w' = config w"
proof -
  obtain now w1 rps w2 s1 cs where r: "GetRelativeTimeMs w = (now, w1)" "ReliablePacketState_Reset (rpsNo s) w1 = (rps, w2)"
    "over_channels reset_channel cs (s1, w2) = Inr (s', w')"
    "cs = [0..<Suc (unat (g_channelMask (config w1)))]"
    using assms by (auto simp: Session_Reset_def reset_states_def Let_def simp del: upt_Suc split: prod.splits)
  have "config w' = config w2" by (rule config_over_channels [OF _ r(3)]) (rule config_reset_channel)
  then show ?thesis using config_clock [OF r(1)] config_State_Reset [OF r(2)] by simp
qed

lemma config_DestroySession: "DestroySession p (sv, w) = Inr (sv', w') \<Longrightarrow> config w' = config w"
  by (auto simp: DestroySession_def split: option.splits dest!: config_Session_Reset)

lemmas config_keep = config_clock config_pop config_Copy config_PopBig config_PushBig config_send_header assemble_config

locale endpoint_invariant =
  fixes view :: "'e Endpoint_scheme \<Rightarrow> 'a" and P :: "'a \<Rightarrow> Config \<Rightarrow> bool"
  assumes view_upd [simp]:
    "view (s\<lparr>rpsNo := r\<rparr>) = view s" "view (s\<lparr>rNopsNo := b\<rparr>) = view s" "view (s\<lparr>cacheAlreadyPackets := cs\<rparr>) = view s"
    "view (s\<lparr>chunckPakcetInj := m\<rparr>) = view s" "view (s\<lparr>dispatched := d\<rparr>) = view s" "view (s\<lparr>timestamp := t\<rparr>) = view s"
    "view (s\<lparr>rttMillisec := rtt\<rparr>) = view s"
begin

lemma view_channel [simp]: "view (upd_channel c f s) = view s"
  by (simp add: upd_channel_def)

lemma next_sequence_view: "next_sequence opt s = Inr (q, s') \<Longrightarrow> view s' = view s"
  by (auto simp: next_sequence_def Let_def split: if_splits prod.splits)

lemma register_pending_view: "view (snd (register_pending opt p w s)) = view s"
  by (simp add: register_pending_def Let_def split: prod.splits)

lemma transmit_keeps:
  assumes "\<And>p. keeps view P (ovf p)"
  shows "keeps view P (transmit ovf opt p)"
proof (rule keepsI)
  fix s w s' w' assume r: "transmit ovf opt p (s, w) = Inr (s', w')" and P: "P (view s) (config w)"
  have cfg: "SendTo a q w1 = Inr w2 \<Longrightarrow> config w2 = config w1" "SendToReliable a q w1 = Inr w2 \<Longrightarrow> config w2 = config w1" for a q w1 w2
    using rx_world_send rx_world_config by blast+
  consider "s' = snd (register_pending opt p w s)" "config w' = config w"
    | "ovf p (snd (register_pending opt p w s), w) = Inr (s', w')" | "s' = s" "config w' = config w"
    using r cfg by (auto simp: transmit_def split_beta split: if_splits)
  then show "P (view s') (config w')"
    using P register_pending_view [of opt p w s] keepsD [OF assms] by cases auto
qed

lemma SendOne_keeps:
  assumes "\<And>p. keeps view P (ovf p)"
  shows "keeps view P (SendOne ovf payload code sz opt sub)"
proof (rule keepsI)
  fix s w s' w' assume "SendOne ovf payload code sz opt sub (s, w) = Inr (s', w')" and P: "P (view s) (config w)"
  then obtain q s1 p w1 now w2 n b where st: "next_sequence opt s = Inr (q, s1)" "PopPacketBuffer w = (p, w1)" "GetRelativeTimeMs w1 = (now, w2)"
      "transmit ovf opt p (s1, store_packet p n b w2) = Inr (s', w')"
    by (auto simp: SendOne_def split: if_splits prod.splits)
  have "config (store_packet p n b w2) = config w"
    using config_clock [OF st(3)] rx_world_config [OF rx_world_Pop(1) [OF st(2)]] by (simp add: store_packet_def)
  then show "P (view s') (config w')"
    using keepsD [OF transmit_keeps [of ovf, OF assms] st(4)] next_sequence_view [OF st(1)] P by simp
qed

lemma send_chunks_keeps:
  assumes "\<And>p. keeps view P (ovf p)"
  shows "keeps view P (send_chunks ovf payload code sz cs sub k i lb)"
proof (induction k arbitrary: i lb)
  case (Suc k)
  show ?case unfolding send_chunks.simps Let_def by (intro keeps_seq SendOne_keeps assms Suc.IH)
qed (simp add: keeps_def)

lemma SendPacket_keeps:
  assumes "\<And>p. keeps view P (ovf p)"
  shows "keeps view P (SendPacket ovf payload code sz opt sub)"
  using keepsD [OF SendOne_keeps [of ovf, OF assms]] keepsD [OF send_chunks_keeps [of ovf, OF assms]]
  by (auto simp: keeps_def SendPacket_def SendPacketChunk_def Let_def split: if_splits)

lemma HandOn_keeps: "keeps view P (parse b n) \<Longrightarrow> HandOn parse b n (s, w) = Inr (s', w') \<Longrightarrow> P (view s) (config w) \<Longrightarrow> P (view s') (config w')"
  using keepsD [of view P "parse b n"] by (fastforce simp: HandOn_def)

lemma RecvChunckPacket_keeps:
  assumes "\<And>b n. keeps view P (parse b n)"
  shows "keeps view P (RecvChunckPacket parse b n)"
proof (rule keepsI)
  fix s w s' w' assume r: "RecvChunckPacket parse b n (s, w) = Inr (s', w')" and P: "P (view s) (config w)"
  have st: "view s1 = view s \<and> config w1 = config w" if "store_chunk b n s w = Inr (ck, s1, w1)" for ck s1 w1
    using that store_chunk_frame(3) [OF that] by (auto simp: store_chunk_def Let_def split: prod.splits)
  have dv: "P (view s') (config w')" if h: "deliver_chunks parse b ck (s1, w1) = Inr (s', w')" "P (view s1) (config w1)" for ck s1 w1
  proof -
    obtain hs big w2 w3 cap message s2 w4 m where d: "PopBig (ck_size ck + hs) w1 = Inr (big, w2)"
      "assemble hs cap (ck_buffers ck) (unat (ck_count ck)) 0 [] w2 = Inr (message, w3)"
      "parse message (of_nat (length message)) (s1, w3) = Inr (s2, w4)" "PushBig big w4 = Inr w'" "s' = s2\<lparr>chunckPakcetInj := m\<rparr>"
      using h(1) by (auto simp: deliver_chunks_def Let_def)
    then show ?thesis
      using keepsD [OF assms d(3)] h(2) config_PopBig [OF d(1)] assemble_config [OF d(2)] config_PushBig [OF d(4)] by simp
  qed
  consider "s' = s" "w' = w" | ck s1 w1 where "store_chunk b n s w = Inr (ck, s1, w1)" "deliver_chunks parse b ck (s1, w1) = Inr (s', w')"
    | ck where "store_chunk b n s w = Inr (ck, s', w')"
    using r by (auto simp: RecvChunckPacket_def split: if_splits)
  then show "P (view s') (config w')"
  proof cases
    case (2 ck s1 w1)
    then show ?thesis using st [OF 2(1)] dv [OF 2(2)] P by simp
  next
    case (3 ck)
    then show ?thesis using st [OF 3] P by simp
  qed (use P in simp)
qed

lemma drain_cache_keeps:
  assumes "\<And>b n. keeps view P (parse b n)" and "drain_cache parse c k idx (s, w) = Inr (s', w')" "P (view s) (config w)"
  shows "P (view s') (config w')"
  using assms(2,3)
proof (induction k arbitrary: idx s w)
  case (Suc k)
  then show ?case
    by (fastforce simp: Let_def frame_simps split: if_splits option.splits dest!: HandOn_keeps [OF assms(1)])
qed simp

lemma RecvDispatch_keeps:
  assumes parse: "\<And>b n. keeps view P (parse b n)" and chunk: "\<And>b n. keeps view P (chunk b n)"
    and r: "RecvDispatch parse chunk b n s w = Inr (a, s', w')" and P: "P (view s) (config w)"
  shows "P (view s') (config w')"
proof -
  have o: "RecvOrdered parse b n s1 w1 = Inr (a, s', w') \<Longrightarrow> P (view s1) (config w1) \<Longrightarrow> P (view s') (config w')" for s1 w1
    by (auto simp: RecvOrdered_def Let_def split: if_splits prod.splits
        dest!: HandOn_keeps [OF parse] drain_cache_keeps [OF parse] config_keep)
  have u: "RecvUnordered parse chunk b n s1 w1 = Inr (a, s', w') \<Longrightarrow> P (view s1) (config w1) \<Longrightarrow> P (view s') (config w')" for s1 w1
    by (auto simp: RecvUnordered_def Let_def split: if_splits prod.splits
        dest!: HandOn_keeps [OF parse] HandOn_keeps [OF chunk])
  have n: "RecvUnreliable parse b n s1 w1 = Inr (a, s', w') \<Longrightarrow> P (view s1) (config w1) \<Longrightarrow> P (view s') (config w')" for s1 w1
    by (auto simp: RecvUnreliable_def Let_def split: if_splits prod.splits dest!: HandOn_keeps [OF parse])
  obtain now w1 where t: "GetRelativeTimeMs w = (now, w1)" by force
  then have "P (view (s\<lparr>timestamp := now\<rparr>)) (config w1)" using P config_clock [OF t] by simp
  then show ?thesis using r t o u n by (auto simp: RecvDispatch_def Let_def split: if_splits)
qed

lemma over_channels_view: "over_channels f cs (s, w) = Inr (s', w') \<Longrightarrow> view s' = view s"
  by (induction cs arbitrary: s w) (auto split: if_splits)

lemma reset_states_view: "reset_states (s, w) = Inr (s', w') \<Longrightarrow> view s' = view s"
  by (auto simp: reset_states_def Let_def simp del: upt_Suc split: prod.splits dest!: over_channels_view)

lemma RecvDispatchACK_keeps: "RecvDispatchACK b n s w = Inr (a, s', w') \<Longrightarrow> P (view s) (config w) \<Longrightarrow> P (view s') (config w')"
  by (auto simp: RecvDispatchACK_def Let_def split: if_splits prod.splits dest!: config_Ack config_clock)

end

text \<open>The operations of a session.\<close>

locale session_invariant = endpoint_invariant view P
  for view :: "'x Session_scheme \<Rightarrow> 'a" and P +
  assumes view_pong [simp]: "view (s\<lparr>pongCount := pongs\<rparr>) = view s"
begin

lemma Session_SendPacket_keeps: "keeps view P (Session_SendPacket payload code sz opt sub)"
  unfolding Session_SendPacket_def by (rule SendPacket_keeps) (auto simp: Session_overflow_def PushPacketBuffer_def Let_def intro!: keepsI)

lemma Session_PacketParse_keeps: "keeping_handlers view P hs \<Longrightarrow> keeps view P (Session_PacketParse hs b n)"
  by (rule keepsI) (auto simp: Session_PacketParse_def SendEchoMessage_def Let_def split: if_splits
    dest: keepsD [OF Session_SendPacket_keeps] keepsD [OF parse_handlers_keeps])

lemma session_packet_keeps:
  assumes hs: "keeping_handlers view P hs"
  shows "keeps view P (session_packet hs b n)"
proof (rule keepsI)
  fix s w s' w' assume r: "session_packet hs b n (s, w) = Inr (s', w')" and P: "P (view s) (config w)"
  have rd: "P (view s1) (config w1)" if "Session_RecvDispatch hs b n s w = Inr (a, s1, w1)" for a s1 w1
    using that P unfolding Session_RecvDispatch_def Session_RecvChunckPacket_def
    by (rule RecvDispatch_keeps [OF Session_PacketParse_keeps [OF hs] RecvChunckPacket_keeps [OF Session_PacketParse_keeps [OF hs]]])
  have sa: "config w2 = config w1" if "Server_SendAck q s1 opt w1 = Inr w2" for q s1 opt w1 w2
    using that by (auto simp: Server_SendAck_def Let_def split: prod.splits dest!: config_send_header config_clock)
  show "P (view s') (config w')"
    using r P by (auto simp: session_packet_def Let_def RecvDispatchPong_def AddPongCount_def split: if_splits prod.splits
        dest!: rd sa RecvDispatchACK_keeps config_clock)
qed

end

end
