(* ===== verification/Dubu_Identity.thy ===== *)
theory Dubu_Identity
  imports Dubu_Invariant
begin

text \<open>
  Nothing that happens to a session while it lives changes who it is: its id and the address of its peer.
  Only the server assigns them, when it creates, moves or destroys the session.
\<close>

definition identity :: "'e Endpoint_scheme \<Rightarrow> u32 \<times> SOCKADDR_IN" where
  "identity s = (endpointId s, addr s)"

lemma identity_upd [frame_simps]:
  "identity (upd_channel c f s) = identity s" "identity (s\<lparr>rpsNo := r\<rparr>) = identity s" "identity (s\<lparr>rNopsNo := b\<rparr>) = identity s"
  "identity (s\<lparr>dispatched := d\<rparr>) = identity s" "identity (s\<lparr>chunckPakcetInj := m\<rparr>) = identity s"
  "identity (s\<lparr>timestamp := t\<rparr>) = identity s" "identity (s\<lparr>rttMillisec := t\<rparr>) = identity s"
  "identity (s\<lparr>isConnect := i\<rparr>) = identity s" "identity (s\<lparr>lastPongSeq := t\<rparr>) = identity s"
  by (simp_all add: identity_def upd_channel_def)

text \<open>The identity is an invariant of the framework, whatever it is.\<close>

interpretation identityKept: session_invariant identity "\<lambda>i c. i = i0" for i0
  by unfold_locales (simp_all add: identity_def)

definition keeps_id :: "'e step \<Rightarrow> bool" where
  "keeps_id f \<longleftrightarrow> (\<forall>i0. keeps identity (\<lambda>i c. i = i0) f)"

lemma keeps_idI: "(\<And>s w s' w'. f (s, w) = Inr (s', w') \<Longrightarrow> identity s' = identity s) \<Longrightarrow> keeps_id f"
  by (simp add: keeps_id_def keeps_def)

lemma keeps_idD: "keeps_id f \<Longrightarrow> f (s, w) = Inr (s', w') \<Longrightarrow> identity s' = identity s"
  unfolding keeps_id_def keeps_def by blast

text \<open>What the application's handlers must leave alone for the server's bookkeeping.\<close>

definition id_handlers :: "'e handlers \<Rightarrow> bool" where
  "id_handlers hs \<longleftrightarrow> (\<forall>table code h. hs = Some table \<longrightarrow> table code = Some h \<longrightarrow>
     (\<forall>f b n. handler h = Some f \<longrightarrow> keeps_id (f b n)) \<and> (\<forall>f b n sub t. handler2 h = Some f \<longrightarrow> keeps_id (f b n sub t)))"

lemma id_handlers_keeping: "id_handlers hs \<Longrightarrow> keeping_handlers identity (\<lambda>i c. i = i0) hs"
  unfolding id_handlers_def keeping_handlers_def keeps_id_def by blast

lemma Session_SendPacket_keeps_id: "keeps_id (Session_SendPacket payload code sz opt sub)"
  unfolding keeps_id_def by (rule allI) (rule identityKept.Session_SendPacket_keeps)

lemma session_packet_identity:
  "id_handlers hs \<Longrightarrow> session_packet hs b n (s, w) = Inr (s', w') \<Longrightarrow> identity s' = identity s"
  using keepsD [OF identityKept.session_packet_keeps [OF id_handlers_keeping, of hs "identity s"]] by blast

lemma over_channels_keeps_id: "keeps_id (over_channels f cs)"
proof (induction cs)
  case (Cons c cs)
  show ?case
    by (rule keeps_idI) (auto simp: frame_simps split: if_splits dest!: keeps_idD [OF Cons.IH])
qed (auto intro!: keeps_idI)

lemma RepeatMessageAll_keeps_id: "keeps_id (RepeatMessageAll d)"
  by (rule keeps_idI)
    (auto simp: RepeatMessageAll_def frame_simps split: prod.splits dest!: keeps_idD [OF over_channels_keeps_id])

end
