(* ===== verification/Dubu_InternalClient.thy ===== *)
theory Dubu_InternalClient
  imports Dubu_Session Dubu_Identity
begin

text \<open>
  \<^verbatim>\<open>InternalClient.h/.cpp\<close>: the client end between the servers (the gateway's link to the echo
  server). It repeats \<^verbatim>\<open>Client.cpp\<close> with three differences: it announces itself as internal when it
  connects, has no echo, and sends a packet that the window does not take.
\<close>

section \<open>Definitions\<close>

record InternalClient = Endpoint +
  connNo :: u32

abbreviation (input) DEFAULT_REQUEST_CONNECT_NO :: u32 where "DEFAULT_REQUEST_CONNECT_NO \<equiv> 10"

text \<open>The constructor: the socket of the client and a first posted receive.\<close>

definition new_InternalClient :: "SOCKADDR_IN \<Rightarrow> World \<Rightarrow> (InternalClient \<times> World) result" where
  "new_InternalClient server w =
     andThen (RecvFrom w) (\<lambda>w1. Inr (
       \<lparr>rNopsNo = new_PacketStateBase, rpsNo = new_ReliablePacketState,
        cacheAlreadyPackets = replicate (unat (g_channelMask (config w) + 1)) new_CacheAlreadyPacket,
        chunckPakcetInj = Map.empty, hasSocket = True, addr = server, endpointId = 0,
        rttMillisec = g_defaultRttMs (config w), timestamp = 0, isConnect = False, lastPongSeq = 0,
        dispatched = [], connNo = 0\<rparr>, w1))"

definition InternalClient_Reset :: "'x InternalClient_ext step" where
  "InternalClient_Reset sw = (case sw of (s, w) \<Rightarrow> reset_states (s\<lparr>isConnect := False\<rparr>, w))"

definition InternalClient_ConnectMessage :: "'x InternalClient_ext step" where
  "InternalClient_ConnectMessage sw =
     (case sw of (s, w) \<Rightarrow>
      if DEFAULT_REQUEST_CONNECT_NO \<le> connNo s then Inr (s, w)
      else andThen (send_header (addr s)
             (\<lambda>h. h\<lparr>flags := flag_value SESSION, hSessionId := 0, hSequenceNo := 0, hTimestamp := 0, packetCode := 1\<rparr>) w)
             (\<lambda>w1. Inr (s\<lparr>connNo := connNo s + 1\<rparr>, w1)))"

definition InternalClient_DisconnectMessage :: "'x InternalClient_scheme \<Rightarrow> World \<Rightarrow> World result" where
  "InternalClient_DisconnectMessage s w =
     send_header (addr s) (\<lambda>h. h\<lparr>flags := flag_value DISCONNECT, hSessionId := endpointId s,
       hSequenceNo := 0, hTimestamp := 0\<rparr>) w"

definition InternalClient_Disconnect :: "'x InternalClient_ext step" where
  "InternalClient_Disconnect sw =
     (case sw of (s, w) \<Rightarrow> andThen (InternalClient_DisconnectMessage s w) (\<lambda>w1. InternalClient_Reset (s, w1)))"

definition InternalClient_Connect :: "'x InternalClient_ext step" where
  "InternalClient_Connect sw =
     andThen (InternalClient_ConnectMessage sw) (\<lambda>(s, w).
       let (now, w1) = GetRelativeTimeMs w in Inr (s\<lparr>timestamp := now\<rparr>, w1))"

definition InternalClient_overflow :: "ptr \<Rightarrow> 'x InternalClient_ext step" where
  "InternalClient_overflow p sw =
     (case sw of (s, w) \<Rightarrow> andThen (SendToReliable (addr s) p w) (\<lambda>w1. Inr (s, w1)))"

definition InternalClient_SendPacket :: "bytes \<Rightarrow> u8 \<Rightarrow> u16 \<Rightarrow> PacketOpctions \<Rightarrow> bytes \<Rightarrow> 'x InternalClient_ext step" where
  "InternalClient_SendPacket = SendPacket InternalClient_overflow"

definition InternalClient_SendPacketChunk :: "bytes \<Rightarrow> u8 \<Rightarrow> u16 \<Rightarrow> bytes \<Rightarrow> 'x InternalClient_ext step" where
  "InternalClient_SendPacketChunk = SendPacketChunk InternalClient_overflow"

definition InternalClient_SendAck :: "u32 \<Rightarrow> PacketOpctions \<Rightarrow> 'x InternalClient_scheme \<Rightarrow> World \<Rightarrow> World result" where
  "InternalClient_SendAck seqNo opt s w =
     (let (now, w1) = GetRelativeTimeMs w
      in send_header (addr s) (\<lambda>h. h\<lparr>flags := ack_flags opt, hSessionId := endpointId s,
           hSequenceNo := seqNo, hTimestamp := now, packetCode := 0\<rparr>) w1)"

text \<open>The buffer is taken before the test, and not returned when the test fails.\<close>

definition InternalClient_RepeatPongMessage :: "bytes \<Rightarrow> u16 \<Rightarrow> 'x InternalClient_ext step" where
  "InternalClient_RepeatPongMessage buffer sz sw =
     (case sw of (s, w) \<Rightarrow>
       (let (p, w1) = PopPacketBuffer w; seq = hSequenceNo (get_header buffer)
        in if lastPongSeq s \<le> seq then
             andThen (SendTo (addr s) p (SetType p (obj_type SENDTO)
                 (seal_header p (\<lambda>h. h\<lparr>flags := flag_value PONG, hSessionId := endpointId s,
                    hSequenceNo := seq, hTimestamp := 0\<rparr>) w1)))
               (\<lambda>w2. Inr (s\<lparr>lastPongSeq := seq\<rparr>, w2))
           else Inr (s, w1)))"

definition InternalClient_PacketParse :: "'x InternalClient_ext handlers \<Rightarrow> bytes \<Rightarrow> u16 \<Rightarrow> 'x InternalClient_ext step" where
  "InternalClient_PacketParse hs buffer sz sw = parse_handlers hs buffer sz sw"

definition InternalClient_RecvChunckPacket :: "'x InternalClient_ext handlers \<Rightarrow> bytes \<Rightarrow> u16 \<Rightarrow> 'x InternalClient_ext step" where
  "InternalClient_RecvChunckPacket hs = RecvChunckPacket (InternalClient_PacketParse hs)"

definition InternalClient_RecvDispatch :: "'x InternalClient_ext handlers \<Rightarrow> bytes \<Rightarrow> u16 \<Rightarrow> 'x InternalClient_scheme \<Rightarrow> World
    \<Rightarrow> (bool \<times> 'x InternalClient_scheme \<times> World) result" where
  "InternalClient_RecvDispatch hs = RecvDispatch (InternalClient_PacketParse hs) (InternalClient_RecvChunckPacket hs)"

definition InternalClient_RecvDispatchACK :: "bytes \<Rightarrow> u16 \<Rightarrow> 'x InternalClient_scheme \<Rightarrow> World
    \<Rightarrow> (bool \<times> 'x InternalClient_scheme \<times> World) result" where
  "InternalClient_RecvDispatchACK = RecvDispatchACK"

definition InternalClient_RepeatMessageAll :: "u32 \<Rightarrow> 'x InternalClient_ext step" where
  "InternalClient_RepeatMessageAll = RepeatMessageAll"

definition InternalClient_RepeatMessage :: "SOCKADDR_IN \<Rightarrow> u32 \<Rightarrow> u32 \<Rightarrow> ReliablePacketState \<times> World
    \<Rightarrow> (ReliablePacketState \<times> World) result" where
  "InternalClient_RepeatMessage = RepeatMessage"

definition InternalClient_CheckPending :: "'x InternalClient_ext step" where
  "InternalClient_CheckPending sw =
     (case sw of (s, w) \<Rightarrow>
       (let (now, w1) = GetRelativeTimeMs w
        in andThen (if g_defaultDisconnectTimeoutMs (config w) < now - timestamp s
                    then InternalClient_Disconnect (s, w1) else Inr (s, w1))
             (\<lambda>(s1, w2). RepeatMessageAll (rttMillisec s1 * 2 + g_defaultRttMsDelay (config w)) (s1, w2))))"

text \<open>The branches of \<^verbatim>\<open>OnRecvFrom\<close>, in the order the code tests them.\<close>

definition InternalClient_handle :: "'x InternalClient_ext handlers \<Rightarrow> bytes \<Rightarrow> u16 \<Rightarrow> 'x InternalClient_ext step" where
  "InternalClient_handle hs buffer sz sw =
     (case sw of (s, w) \<Rightarrow>
       (let header = get_header buffer; flag = flags header
        in if flag = flag_value SESSION then Inr (s\<lparr>endpointId := hSessionId header, isConnect := True\<rparr>, w)
           else if flag = flag_value PING then InternalClient_RepeatPongMessage buffer sz (s, w)
           else if flag = flag_value DISCONNECT then InternalClient_Disconnect (s, w)
           else if flag = flag_value NONE then
             andThen (InternalClient_RecvDispatch hs buffer sz s w) (\<lambda>(_, s1, w1). Inr (s1, w1))
           else if has_flag flag REPEAT then
             andThen (InternalClient_RecvDispatch hs buffer sz s w) (\<lambda>(result, s1, w1).
               if result then
                 let opt = (if has_flag flag CHANNEL then mk_opt True True (channel_of flag) else mk_opt True False 0)
                 in andThen (InternalClient_SendAck (hSequenceNo header) opt s1 w1) (\<lambda>w2. Inr (s1, w2))
               else Inr (s1, w1))
           else if has_flag flag ACK then
             andThen (InternalClient_RecvDispatchACK buffer sz s w) (\<lambda>(_, s1, w1). Inr (s1, w1))
           else Inr (s, w)))"

definition InternalClient_OnRecvFrom :: "'x InternalClient_ext handlers \<Rightarrow> SOCKADDR_IN \<Rightarrow> ptr \<Rightarrow> u16 \<Rightarrow> 'x InternalClient_ext step" where
  "InternalClient_OnRecvFrom hs from p sz sw =
     (case sw of (s, w) \<Rightarrow>
       (let (now, w1) = GetRelativeTimeMs w
        in andThen (InternalClient_handle hs (obuffer (packets w p)) sz (s\<lparr>timestamp := now\<rparr>, w1))
             (\<lambda>(s1, w2). Inr (s1, PushPacketBuffer p w2))))"

text \<open>\<open>completion\<close> is what the completion port returns: nothing, or a buffer and a byte count.\<close>

definition InternalClient_Dispatch :: "'x InternalClient_ext handlers \<Rightarrow> (ptr \<times> int) option \<Rightarrow> 'x InternalClient_scheme \<times> World
    \<Rightarrow> (bool \<times> 'x InternalClient_scheme \<times> World) result" where
  "InternalClient_Dispatch hs completion sw =
     (case completion of
        None \<Rightarrow> andThen (InternalClient_CheckPending sw) (\<lambda>(s, w). Inr (False, s, w))
      | Some (p, sz) \<Rightarrow>
          let t = otype (packets (snd sw) p)
          in if t AND obj_type RECVEFROM = obj_type RECVEFROM then
               andThen (RecvFromComplete (Some (InternalClient_OnRecvFrom hs)) p sz sw) (\<lambda>(s, w). Inr (True, s, w))
             else if t AND obj_type SENDTO = obj_type SENDTO then Inr (True, fst sw, SendToComplete p (snd sw))
             else Inr (True, sw))"

text \<open>\<^verbatim>\<open>ConnectTimes\<close>: one element of \<open>completions\<close> per turn of the loop.\<close>

fun InternalClient_ConnectTimes :: "'x InternalClient_ext handlers \<Rightarrow> (ptr \<times> int) option list \<Rightarrow> 'x InternalClient_ext step" where
  "InternalClient_ConnectTimes hs [] sw = Inr sw"
| "InternalClient_ConnectTimes hs (completion # rest) sw =
     (if isConnect (fst sw) then Inr sw
      else andThen (InternalClient_Connect sw) (\<lambda>sw1.
             andThen (InternalClient_Dispatch hs completion sw1) (\<lambda>(_, s, w). InternalClient_ConnectTimes hs rest (s, w))))"

text \<open>The destructor; \<open>cancelled\<close> are the buffers of the socket's operations that come back cancelled.\<close>

definition InternalClient_destructor :: "ptr list \<Rightarrow> 'x InternalClient_scheme \<Rightarrow> World \<Rightarrow> World result" where
  "InternalClient_destructor cancelled s w =
     andThen (InternalClient_Reset (s, w)) (\<lambda>(_, w1). Inr (drain_completions cancelled w1))"

section \<open>The internal client meets the contract of the receive path\<close>

lemma InternalClient_SendPacket_calm: "calm (InternalClient_SendPacket payload code sz opt sub)"
  unfolding InternalClient_SendPacket_def
  by (rule SendPacket_calm) (auto simp: InternalClient_overflow_def quiet_iff intro!: calmI dest: rx_world_send)

lemma InternalClient_PacketParse_calm: "good_handlers hs \<Longrightarrow> calm (InternalClient_PacketParse hs b n)"
  using parse_handlers_calm [of hs b n] by (simp add: calm_def InternalClient_PacketParse_def)

text \<open>With handlers that only send, it delivers what it receives as a session does.\<close>

lemma internal_receiver:
  assumes "good_handlers hs"
  shows "receiver (InternalClient_PacketParse hs) (InternalClient_RecvChunckPacket hs)"
proof
  fix b n sw sw' assume "InternalClient_PacketParse hs b n sw = Inr sw'"
  then show "quiet sw sw'" by (rule calmD [OF InternalClient_PacketParse_calm [OF assms]])
next
  fix b n sw sw' assume r: "InternalClient_RecvChunckPacket hs b n sw = Inr sw'"
  obtain s w s' w' where "sw = (s, w)" "sw' = (s', w')" by force
  then show "careful sw sw'"
    using r RecvChunckPacket_careful [of "InternalClient_PacketParse hs", OF InternalClient_PacketParse_calm [OF assms]]
    by (simp add: InternalClient_RecvChunckPacket_def)
qed

end
