(* ===== verification/Dubu_Directory.thy ===== *)
theory Dubu_Directory
  imports Dubu_Identity
begin

text \<open>
  The server's directory: the session map by id, the session objects, the peer map by address and the
  object pool stay consistent whatever the workers do. The invariant only looks at the identity of each
  session (\<open>idents\<close>), so every step inside a session keeps it for free.
\<close>

section \<open>The invariant\<close>

definition idents_of :: "(ptr \<rightharpoonup> 'e Endpoint_scheme) \<Rightarrow> ptr \<rightharpoonup> u32 \<times> SOCKADDR_IN" where
  "idents_of heap p = map_option identity (heap p)"

abbreviation idents :: "Server \<Rightarrow> ptr \<rightharpoonup> u32 \<times> SOCKADDR_IN" where
  "idents sv \<equiv> idents_of (sessionHeap sv)"

lemma idents_of_simps [simp]:
  "idents_of (heap(p \<mapsto> s)) = (idents_of heap)(p \<mapsto> identity s)" "idents_of (heap(p := None)) = (idents_of heap)(p := None)"
  "idents_of Map.empty = Map.empty"
  by (auto simp: idents_of_def)

definition directory :: "(u32 \<times> ptr) list \<Rightarrow> (ptr \<rightharpoonup> u32 \<times> SOCKADDR_IN) \<Rightarrow> (u64 \<rightharpoonup> Peer) \<Rightarrow> bool" where
  "directory m ids peers \<longleftrightarrow> sorted_wrt (<) (map fst m) \<and> 0 \<notin> set (map fst m) \<and> dom ids = set (map snd m)
     \<and> (\<forall>(i, p) \<in> set m. \<exists>a. ids p = Some (i, a)
          \<and> peers (PeerKey a) = Some \<lparr>peer_key = PeerKey a, peer_addr = a, peer_session = p\<rparr>)
     \<and> (\<forall>k peer. peers k = Some peer \<longrightarrow> (\<exists>i. ids (peer_session peer) = Some (i, peer_addr peer) \<and> PeerKey (peer_addr peer) = k))"

definition directory_ok :: "Server \<Rightarrow> bool" where
  "directory_ok sv \<longleftrightarrow> directory (sessionMap sv) (idents sv) (peerMap sv)
     \<and> manager_ok [] (dom (idents sv)) (sessionPool sv) \<and> 0 \<notin> set (draws sv)"

lemma directory_entry:
  assumes "directory m ids peers" "(i, p) \<in> set m"
  obtains a where "ids p = Some (i, a)"
    "peers (PeerKey a) = Some \<lparr>peer_key = PeerKey a, peer_addr = a, peer_session = p\<rparr>"
  using assms unfolding directory_def by blast

lemma directory_distinct: "directory m ids peers \<Longrightarrow> distinct (map fst m)"
  unfolding directory_def using strict_sorted_iff by blast

lemma directory_unique_session:
  assumes "directory m ids peers" "(i, p) \<in> set m" "(j, p) \<in> set m"
  shows "i = j"
  using directory_entry [OF assms(1,2)] directory_entry [OF assms(1,3)] by (metis option.inject prod.inject)

lemma directory_unique_address:
  assumes "directory m ids peers" "ids p = Some (i, a)" "ids q = Some (j, b)" "PeerKey a = PeerKey b"
  shows "p = q"
proof -
  have "p \<in> set (map snd m)" "q \<in> set (map snd m)" using assms(1,2,3) unfolding directory_def by blast+
  then obtain i' j' where "(i', p) \<in> set m" "(j', q) \<in> set m" by auto
  then show ?thesis using assms directory_entry [OF assms(1)]
    by (metis Peer.ext_inject option.inject prod.inject)
qed

lemma PeerKey_inject: "PeerKey a = PeerKey b \<longleftrightarrow> a = b"
proof
  assume eq: "PeerKey a = PeerKey b"
  have b: "bit (PeerKey c) n \<longleftrightarrow> (if n < 16 then bit (sin_port c) n else n < 48 \<and> bit (sin_addr c) (n - 16))" for c n
    by (auto simp: PeerKey_def bit_simps dest: bit_imp_le_length)
  have "bit (sin_port a) n = bit (sin_port b) n" if "n < 16" for n using b [of a n] b [of b n] eq that by simp
  moreover have "bit (sin_addr a) n = bit (sin_addr b) n" if "n < 32" for n
    using b [of a "n + 16"] b [of b "n + 16"] eq that by simp
  ultimately have "sin_port a = sin_port b" "sin_addr a = sin_addr b" by (auto intro!: bit_word_eqI)
  then show "a = b" by simp
qed simp

section \<open>Changes of the directory\<close>

lemma directory_insert:
  assumes ok: "directory m ids peers" and i: "i \<notin> set (map fst m)" "i \<noteq> 0" and p: "ids p = None" and a: "peers (PeerKey a) = None"
  shows "directory (insort_key fst (i, p) m) (ids(p \<mapsto> (i, a)))
     (peers(PeerKey a \<mapsto> \<lparr>peer_key = PeerKey a, peer_addr = a, peer_session = p\<rparr>))"
proof -
  let ?m = "insort_key fst (i, p) m"
  have st: "set ?m = insert (i, p) (set m)" by (rule set_insort_key)
  have "sorted (map fst m)" "distinct (map fst m)" using ok directory_distinct by (auto simp: directory_def strict_sorted_iff)
  moreover have "distinct (map fst ?m)"
    using \<open>distinct (map fst m)\<close> i(1) by (simp add: distinct_map st inj_on_def distinct_insort) (metis fst_conv image_eqI)
  ultimately have "sorted_wrt (<) (map fst ?m)" by (simp add: strict_sorted_iff sorted_insort_key)
  moreover have "0 \<notin> set (map fst ?m)" using ok i(2) by (auto simp: st directory_def)
  moreover have "dom (ids(p \<mapsto> (i, a))) = set (map snd ?m)" using ok by (auto simp: st directory_def)
  moreover have "\<exists>b. (ids(p \<mapsto> (i, a))) q = Some (j, b) \<and> (peers(PeerKey a \<mapsto> \<lparr>peer_key = PeerKey a, peer_addr = a, peer_session = p\<rparr>))
      (PeerKey b) = Some \<lparr>peer_key = PeerKey b, peer_addr = b, peer_session = q\<rparr>" if "(j, q) \<in> set ?m" for j q
  proof (cases "(j, q) = (i, p)")
    case False
    then have jq: "(j, q) \<in> set m" using that by (auto simp: st)
    obtain b where "ids q = Some (j, b)" "peers (PeerKey b) = Some \<lparr>peer_key = PeerKey b, peer_addr = b, peer_session = q\<rparr>"
      using directory_entry [OF ok jq] by blast
    then show ?thesis using p a by (intro exI [of _ b]) auto
  qed auto
  moreover have "\<exists>j. (ids(p \<mapsto> (i, a))) (peer_session peer) = Some (j, peer_addr peer) \<and> PeerKey (peer_addr peer) = k"
    if "(peers(PeerKey a \<mapsto> \<lparr>peer_key = PeerKey a, peer_addr = a, peer_session = p\<rparr>)) k = Some peer" for k peer
  proof (cases "k = PeerKey a")
    case False
    then have "peers k = Some peer" using that by simp
    then obtain j where "ids (peer_session peer) = Some (j, peer_addr peer)" "PeerKey (peer_addr peer) = k"
      using ok unfolding directory_def by blast
    then show ?thesis using p by auto
  qed (use that in auto)
  ultimately show ?thesis unfolding directory_def by blast
qed

lemma directory_delete:
  assumes ok: "directory m ids peers" and m: "(i, p) \<in> set m" and a: "ids p = Some (i, a)"
  shows "directory (filter (\<lambda>e. fst e \<noteq> i) m) (ids(p := None)) (peers(PeerKey a := None))"
proof -
  let ?m = "filter (\<lambda>e. fst e \<noteq> i) m"
  have q: "q \<noteq> p" if "(j, q) \<in> set m" "j \<noteq> i" for j q using that directory_unique_session [OF ok m] by blast
  have k: "PeerKey b \<noteq> PeerKey a" if "ids q = Some (j, b)" "q \<noteq> p" for j q b
    using that directory_unique_address [OF ok a] by metis
  have sub: "sorted_wrt (<) (map fst ?m)" using ok by (simp add: directory_def sorted_wrt_map sorted_wrt_filter)
  have "0 \<notin> set (map fst ?m)" using ok by (auto simp: directory_def)
  moreover have "p \<notin> set (map snd ?m)" using q by fastforce
  moreover have "q \<in> set (map snd ?m)" if qm: "q \<in> set (map snd m)" "q \<noteq> p" for q
  proof -
    obtain j where j: "(j, q) \<in> set m" using qm(1) by auto
    moreover have "j \<noteq> i" using qm(2) m j directory_distinct [OF ok] by (metis eq_key_imp_eq_value)
    ultimately show ?thesis by force
  qed
  ultimately have d: "dom (ids(p := None)) = set (map snd ?m)" using ok by (auto simp: directory_def)
  have e: "\<exists>b. (ids(p := None)) q = Some (j, b) \<and> (peers(PeerKey a := None)) (PeerKey b)
      = Some \<lparr>peer_key = PeerKey b, peer_addr = b, peer_session = q\<rparr>" if "(j, q) \<in> set ?m" for j q
  proof -
    have jq: "(j, q) \<in> set m" "j \<noteq> i" using that by auto
    obtain b where "ids q = Some (j, b)" "peers (PeerKey b) = Some \<lparr>peer_key = PeerKey b, peer_addr = b, peer_session = q\<rparr>"
      using directory_entry [OF ok jq(1)] by blast
    then show ?thesis using q [OF jq] k by auto
  qed
  have "\<exists>j. (ids(p := None)) (peer_session peer) = Some (j, peer_addr peer) \<and> PeerKey (peer_addr peer) = k"
    if "(peers(PeerKey a := None)) k = Some peer" for k peer
  proof -
    have "k \<noteq> PeerKey a" "peers k = Some peer" using that by (auto split: if_splits)
    moreover then obtain j where "ids (peer_session peer) = Some (j, peer_addr peer)" "PeerKey (peer_addr peer) = k"
      using ok unfolding directory_def by blast
    ultimately show ?thesis using a by auto
  qed
  then show ?thesis using sub \<open>0 \<notin> set (map fst ?m)\<close> d e unfolding directory_def by blast
qed

lemma directory_move:
  assumes ok: "directory m ids peers" and a: "ids p = Some (i, a)" and b: "peers (PeerKey b) = None"
  shows "directory m (ids(p \<mapsto> (i, b)))
     (peers(PeerKey b \<mapsto> \<lparr>peer_key = PeerKey b, peer_addr = b, peer_session = p\<rparr>, PeerKey a := None))"
proof -
  have k: "PeerKey c \<noteq> PeerKey a" "PeerKey c \<noteq> PeerKey b" if "ids q = Some (j, c)" "q \<noteq> p" "(j, q) \<in> set m" for j q c
    using that directory_unique_address [OF ok a] b directory_entry [OF ok that(3)] by (metis option.distinct(1) option.inject prod.inject)+
  have "p \<in> set (map snd m)" using a ok unfolding directory_def by blast
  then obtain i' where ip: "(i', p) \<in> set m" by auto
  then have "i' = i" "peers (PeerKey a) \<noteq> None" using directory_entry [OF ok ip] a by auto
  then have ab: "PeerKey b \<noteq> PeerKey a" using b by metis
  have e: "\<exists>c. (ids(p \<mapsto> (i, b))) q = Some (j, c) \<and> (peers(PeerKey b \<mapsto> \<lparr>peer_key = PeerKey b, peer_addr = b, peer_session = p\<rparr>,
      PeerKey a := None)) (PeerKey c) = Some \<lparr>peer_key = PeerKey c, peer_addr = c, peer_session = q\<rparr>" if jq: "(j, q) \<in> set m" for j q
  proof (cases "q = p")
    case True
    then show ?thesis using directory_unique_session [OF ok ip] jq \<open>i' = i\<close> ab by auto
  next
    case False
    obtain c where "ids q = Some (j, c)" "peers (PeerKey c) = Some \<lparr>peer_key = PeerKey c, peer_addr = c, peer_session = q\<rparr>"
      using directory_entry [OF ok jq] by blast
    then show ?thesis using False k [OF _ False jq] by auto
  qed
  have "\<exists>j. (ids(p \<mapsto> (i, b))) (peer_session peer) = Some (j, peer_addr peer) \<and> PeerKey (peer_addr peer) = k"
    if "(peers(PeerKey b \<mapsto> \<lparr>peer_key = PeerKey b, peer_addr = b, peer_session = p\<rparr>, PeerKey a := None)) k = Some peer" for k peer
  proof (cases "k = PeerKey b")
    case False
    then have pk: "k \<noteq> PeerKey a" "peers k = Some peer" using that by (auto split: if_splits)
    then obtain j where "ids (peer_session peer) = Some (j, peer_addr peer)" "PeerKey (peer_addr peer) = k"
      using ok unfolding directory_def by blast
    then show ?thesis using a pk by auto
  qed (use that ab in auto)
  moreover have "dom (ids(p \<mapsto> (i, b))) = dom ids" using a by auto
  ultimately show ?thesis using e ok unfolding directory_def by (simp add: case_prod_beta)
qed

section \<open>Every step of the server keeps the directory\<close>

lemma GenerateId_fresh:
  "GenerateId m ds = Inr (i, ds') \<Longrightarrow> i \<notin> set (map fst m) \<and> i \<in> set ds \<and> set ds' \<subseteq> set ds"
  by (induction ds) (auto simp: map_of_eq_None_iff split: if_splits)

lemma manager_ok_session_push:
  "manager_ok [] us op \<Longrightarrow> p \<in> us \<Longrightarrow> manager_ok [] (us - {p}) (ObjectPool_Push p op)"
  by (auto simp: manager_ok_def ObjectPool_Push_def)

lemma directory_ok_new: "0 \<notin> set ds \<Longrightarrow> directory_ok (new_Server ds n)"
  by (auto simp: directory_ok_def directory_def new_Server_def manager_ok_def)

lemma directory_ok_frame:
  assumes "directory_ok sv" "sessionMap sv' = sessionMap sv" "idents sv' = idents sv" "peerMap sv' = peerMap sv"
    "sessionPool sv' = sessionPool sv" "draws sv' = draws sv"
  shows "directory_ok sv'"
  using assms by (simp add: directory_ok_def)

lemma directory_ok_upd_session:
  assumes "directory_ok sv" "sessionHeap sv p = Some s" "identity s' = identity s"
  shows "directory_ok (upd_session p s' sv)"
proof (rule directory_ok_frame [OF assms(1)])
  show "idents (upd_session p s' sv) = idents sv" using assms(2,3) by (auto simp: idents_of_def upd_session_def)
qed (simp_all add: upd_session_def)

lemma directory_ok_workers: "directory_ok (sv\<lparr>workers := ws\<rparr>) = directory_ok sv" "directory_ok (sv\<lparr>isRunning := b\<rparr>) = directory_ok sv"
  by (simp_all add: directory_ok_def)

lemma directory_ok_distinct: "directory_ok sv \<Longrightarrow> distinct (map fst (sessionMap sv))"
  using directory_distinct unfolding directory_ok_def by blast

lemma directory_lookup:
  assumes "directory_ok sv" "GetSession i sv = Some p"
  obtains s where "sessionHeap sv p = Some s" "endpointId s = i"
    "peerMap sv (PeerKey (addr s)) = Some \<lparr>peer_key = PeerKey (addr s), peer_addr = addr s, peer_session = p\<rparr>"
proof -
  have "(i, p) \<in> set (sessionMap sv)" using assms(2) by (simp add: GetSession_def map_of_SomeD)
  then obtain a where a: "idents sv p = Some (i, a)"
    "peerMap sv (PeerKey a) = Some \<lparr>peer_key = PeerKey a, peer_addr = a, peer_session = p\<rparr>"
    using assms(1) directory_entry unfolding directory_ok_def by blast
  then obtain s where "sessionHeap sv p = Some s" "endpointId s = i" "addr s = a" by (auto simp: idents_of_def identity_def)
  then show ?thesis using that a(2) by blast
qed

lemma directory_ok_create:
  assumes ok: "directory_ok sv" and pk: "peerMap sv (PeerKey from) = None" and cr: "CreateSession from sv w = Inr (p, sv1, w1)"
  shows "directory_ok (sv1\<lparr>peerMap := (peerMap sv1)(PeerKey from \<mapsto>
     \<lparr>peer_key = PeerKey from, peer_addr = from, peer_session = p\<rparr>)\<rparr>)"
    and "\<exists>s. sessionHeap sv1 p = Some s \<and> addr s = from" and "peerMap sv1 = peerMap sv"
proof -
  from cr obtain i ds pool where g: "GenerateId (sessionMap sv) (draws sv) = Inr (i, ds)"
    and pop: "ObjectPool_Pop (sessionPool sv) = (p, pool)" and m: "sessionMap sv1 = insort_key fst (i, p) (sessionMap sv)"
    and ids: "idents sv1 = (idents sv)(p \<mapsto> (i, from))" and rest: "peerMap sv1 = peerMap sv" "sessionPool sv1 = pool" "draws sv1 = ds"
    and s1: "\<exists>s. sessionHeap sv1 p = Some s \<and> addr s = from"
    by (auto simp: CreateSession_def AddSession_def Let_def upd_session_def SetSockAddr_def SetTimestamp_def SetSocket_def
        SetSessionId_def identity_def split: prod.splits)
  show "\<exists>s. sessionHeap sv1 p = Some s \<and> addr s = from" "peerMap sv1 = peerMap sv" by fact+
  have i: "i \<notin> set (map fst (sessionMap sv))" "i \<noteq> 0" "0 \<notin> set ds"
    using GenerateId_fresh [OF g] ok by (auto simp: directory_ok_def)
  have pool: "manager_ok [] (insert p (dom (idents sv))) pool" "p \<notin> dom (idents sv)"
    using manager_ok_object_pop [of "[]" "dom (idents sv)" "sessionPool sv"] ok pop by (auto simp: directory_ok_def)
  have "directory (sessionMap sv1) (idents sv1) ((peerMap sv)(PeerKey from \<mapsto> \<lparr>peer_key = PeerKey from, peer_addr = from, peer_session = p\<rparr>))"
    unfolding m ids by (rule directory_insert) (use ok i pool pk in \<open>auto simp: directory_ok_def\<close>)
  then show "directory_ok (sv1\<lparr>peerMap := (peerMap sv1)(PeerKey from \<mapsto> \<lparr>peer_key = PeerKey from, peer_addr = from, peer_session = p\<rparr>)\<rparr>)"
    using i(3) pool ids by (simp add: directory_ok_def rest)
qed

lemma accept_session_directory:
  assumes "directory_ok sv" "accept_session opb from (sv, w) = Inr (sv', w')"
  shows "directory_ok sv'"
proof (cases "peerMap sv (PeerKey from)")
  case None
  then obtain p sv1 w1 where cr: "CreateSession from sv w = Inr (p, sv1, w1)"
    and sv': "sv' = sv1\<lparr>peerMap := (peerMap sv1)(PeerKey from \<mapsto> \<lparr>peer_key = PeerKey from, peer_addr = from, peer_session = p\<rparr>)\<rparr>"
    using assms(2) by (auto simp: accept_session_def Let_def)
  show ?thesis unfolding sv' by (rule directory_ok_create(1) [OF assms(1) None cr])
next
  case (Some peer)
  then show ?thesis using assms by (auto simp: accept_session_def split: option.splits)
qed

lemma RemoveSession_directory:
  assumes ok: "directory_ok sv" and r: "RemoveSession i (sv, w) = Inr (sv', w')"
  shows "directory_ok sv' \<and> workers sv' = workers sv"
proof (cases "GetSession i sv")
  case None
  then show ?thesis using r ok by (auto simp: RemoveSession_def)
next
  case (Some p)
  then obtain s where s: "sessionHeap sv p = Some s" "endpointId s = i" using directory_lookup [OF ok] by blast
  have m: "(i, p) \<in> set (sessionMap sv)" using Some by (simp add: GetSession_def map_of_SomeD)
  have sv': "sv' = (Manager_RemoveSession i (sv\<lparr>peerMap := (peerMap sv)(PeerKey (addr s) := None)\<rparr>))
      \<lparr>sessionHeap := (sessionHeap sv)(p := None), sessionPool := ObjectPool_Push p (sessionPool sv)\<rparr>"
    using r Some s by (auto simp: RemoveSession_def DestroySession_def Manager_RemoveSession_def)
  have "directory (filter (\<lambda>e. fst e \<noteq> i) (sessionMap sv)) ((idents sv)(p := None)) ((peerMap sv)(PeerKey (addr s) := None))"
    by (rule directory_delete [OF _ m]) (use ok s in \<open>auto simp: directory_ok_def idents_of_def identity_def\<close>)
  moreover have "manager_ok [] (dom (idents sv) - {p}) (ObjectPool_Push p (sessionPool sv))"
    by (rule manager_ok_session_push) (use ok s in \<open>auto simp: directory_ok_def idents_of_def\<close>)
  ultimately show ?thesis using ok by (simp add: sv' directory_ok_def Manager_RemoveSession_def)
qed

lemma move_session_directory:
  assumes ok: "directory_ok sv" and r: "move_session i from (sv, w) = Inr (go, sv', w')"
  shows "directory_ok sv' \<and> workers sv' = workers sv \<and> go"
proof (cases "GetSession i sv = None \<or> peerMap sv (PeerKey from) \<noteq> None")
  case True
  then show ?thesis using r ok by (auto simp: move_session_def split: option.splits)
next
  case False
  then obtain p where p: "GetSession i sv = Some p" and new: "peerMap sv (PeerKey from) = None" by auto
  obtain s where s: "sessionHeap sv p = Some s" "endpointId s = i"
    "peerMap sv (PeerKey (addr s)) = Some \<lparr>peer_key = PeerKey (addr s), peer_addr = addr s, peer_session = p\<rparr>"
    using directory_lookup [OF ok p] by blast
  obtain s1 w1 where s1: "SetSockAddr from s w = (s1, w1)" by force
  then have id1: "identity s1 = (i, from)" using s(2) by (auto simp: SetSockAddr_def identity_def split: prod.splits)
  have "go" and sv': "sv' = (upd_session p s1 sv)\<lparr>peerMap := (peerMap sv)(PeerKey from \<mapsto>
      \<lparr>peer_key = PeerKey from, peer_addr = from, peer_session = p\<rparr>, PeerKey (addr s) := None)\<rparr>"
    using r p new s s1 by (auto simp: move_session_def)
  have isd: "idents sv p = Some (i, addr s)" using s by (simp add: idents_of_def identity_def)
  have "directory (sessionMap sv) ((idents sv)(p \<mapsto> (i, from))) ((peerMap sv)(PeerKey from \<mapsto>
      \<lparr>peer_key = PeerKey from, peer_addr = from, peer_session = p\<rparr>, PeerKey (addr s) := None))"
    by (rule directory_move) (use ok isd new in \<open>simp_all add: directory_ok_def\<close>)
  moreover have "dom ((idents sv)(p \<mapsto> (i, from))) = dom (idents sv)" using isd by auto
  ultimately show ?thesis using ok \<open>go\<close> id1 by (simp add: sv' directory_ok_def upd_session_def)
qed

lemma ProcessPacket_directory:
  assumes hs: "id_handlers hs" and ok: "directory_ok sv" and r: "ProcessPacket hs opb n from (sv, w) = Inr (sv', w')"
  shows "directory_ok sv'"
proof -
  let ?h = "get_header (obuffer (packets w opb))"
  consider (session) "accept_session opb from (sv, w) = Inr (sv', w')" | (none) "sv' = sv"
    | (move) go sv1 w1 where "move_session (hSessionId ?h) from (sv, w) = Inr (go, sv1, w1)"
        "(if \<not> go then Inr (sv1, w1)
          else (case GetSession (hSessionId ?h) sv1 of None \<Rightarrow> Inr (sv1, w1)
             | Some p \<Rightarrow> (case sessionHeap sv1 p of None \<Rightarrow> Inl NullPointer
                 | Some s \<Rightarrow> let (now, w2) = GetRelativeTimeMs w1
                     in andThen (session_packet hs (obuffer (packets w opb)) n (SetTimestamp now s, w2))
                          (\<lambda>(s1, w3). Inr (upd_session p s1 sv1, w3))))) = Inr (sv', w')"
    using r by (auto simp: ProcessPacket_def Let_def split: if_splits)
  then show ?thesis
  proof cases
    case session
    then show ?thesis using accept_session_directory [OF ok] by blast
  next
    case none
    then show ?thesis using ok by simp
  next
    case move
    have ok1: "directory_ok sv1" using move_session_directory [OF ok move(1)] by blast
    have t: "identity (SetTimestamp now s) = identity s" for now :: u32 and s :: Session
      by (simp add: SetTimestamp_def identity_def)
    show ?thesis using move(2) ok1 session_packet_identity [OF hs] t
      by (auto split: if_splits option.splits prod.splits intro!: directory_ok_upd_session)
  qed
qed

lemma check_session_effect:
  assumes "check_session n num now (i, p) (removed, sv, w) = Inr (removed', sv', w')"
  obtains s where "sessionHeap sv p = Some s"
    "unat (endpointId s) mod n \<noteq> num \<or> \<not> isConnect s \<or> awaysConnect s" "sv' = sv" "removed' = removed"
  | s s2 where "sessionHeap sv p = Some s" "unat (endpointId s) mod n = num" "isConnect s" "\<not> awaysConnect s"
    "sv' = upd_session p s2 sv" "identity s2 = identity s"
    "removed' = (if (g_defaultDisconnectTimeoutMs (config w) < now - timestamp s \<or> readyDisconnect s) \<and> length removed < 64
                 then removed @ [i] else removed)"
proof -
  obtain s where s: "sessionHeap sv p = Some s" using assms by (auto simp: check_session_def split: option.splits)
  show ?thesis
  proof (cases "unat (endpointId s) mod n \<noteq> num \<or> \<not> isConnect s \<or> awaysConnect s")
    case True
    then show ?thesis using that(1) [OF s True] assms s by (auto simp: check_session_def)
  next
    case False
    then obtain s1 w1 s2 where pg: "(if \<not> (g_defaultDisconnectTimeoutMs (config w) < now - timestamp s \<or> readyDisconnect s)
                \<and> g_defaultPingTimeoutMs (config w) < now - timestamp s
                \<and> g_defaultPingTimeoutMs (config w) \<le> now - lastPingSentTime s
              then andThen (SendPing s w) (\<lambda>(s1, w1). Inr (SetLastPingSentTime now s1, w1)) else Inr (s, w)) = Inr (s1, w1)"
      and rp: "RepeatMessageAll (rttMillisec s1 * 2 + g_defaultRttMsDelay (config w)) (s1, w1) = Inr (s2, w')"
      and sv': "sv' = upd_session p s2 sv"
      and rm: "removed' = (if (g_defaultDisconnectTimeoutMs (config w) < now - timestamp s \<or> readyDisconnect s) \<and> length removed < 64
                 then removed @ [i] else removed)"
      using assms s by (auto simp: check_session_def Let_def split: if_splits)
    have "identity s1 = identity s" using pg
      by (auto simp: SendPing_def AccSequnceNo_def AddPingCount_def SetLastPingSentTime_def identity_def split: if_splits prod.splits)
    then show ?thesis using that(2) [OF s _ _ _ sv' _ rm] False keeps_idD [OF RepeatMessageAll_keeps_id rp] by simp
  qed
qed

lemma check_session_directory:
  assumes ok: "directory_ok sv" and r: "check_session n num now e (removed, sv, w) = Inr (removed', sv', w')"
  shows "directory_ok sv' \<and> workers sv' = workers sv \<and> sessionMap sv' = sessionMap sv"
proof -
  obtain i p where e: "e = (i, p)" by force
  show ?thesis using r unfolding e
  proof (cases rule: check_session_effect)
    case (2 s s2)
    then show ?thesis using directory_ok_upd_session [OF ok] by (simp add: upd_session_def)
  qed (use ok in simp)
qed

lemma check_all_directory:
  assumes "directory_ok sv" "check_all n num now es (removed, sv, w) = Inr (removed', sv', w')"
  shows "directory_ok sv' \<and> workers sv' = workers sv"
  using assms
proof (induction es arbitrary: removed sv w)
  case (Cons e es)
  from Cons.prems(2) obtain rem1 sv1 w1 where one: "check_session n num now e (removed, sv, w) = Inr (rem1, sv1, w1)"
    and rest: "check_all n num now es (rem1, sv1, w1) = Inr (removed', sv', w')" by auto
  show ?case using Cons.IH [OF _ rest] check_session_directory [OF Cons.prems(1) one] by simp
qed simp

lemma remove_all_directory:
  assumes "directory_ok sv" "remove_all is (sv, w) = Inr (sv', w')"
  shows "directory_ok sv' \<and> workers sv' = workers sv"
  using assms
proof (induction "is" arbitrary: sv w)
  case (Cons i "is")
  from Cons.prems(2) obtain sv1 w1 sv2 w2 where
    one: "(case GetSession i sv of None \<Rightarrow> Inr (sv, w)
        | Some p \<Rightarrow> (case sessionHeap sv p of None \<Rightarrow> Inl NullPointer
             | Some s \<Rightarrow> andThen (Server_DisconnectMessage s w) (\<lambda>w1. Inr (upd_session p (Session_Disconnect s) sv, w1)))) = Inr (sv1, w1)"
    and rm: "RemoveSession i (sv1, w1) = Inr (sv2, w2)" and rest: "remove_all is (sv2, w2) = Inr (sv', w')"
    by auto
  have "identity (Session_Disconnect s) = identity s" for s :: Session by (simp add: Session_Disconnect_def identity_def)
  then have "directory_ok sv1 \<and> workers sv1 = workers sv"
    using one Cons.prems(1) directory_ok_upd_session [of sv] by (auto split: option.splits) (simp add: upd_session_def)
  then show ?case using Cons.IH [OF _ rest] RemoveSession_directory [OF _ rm] by simp
qed simp

lemma CheckSessions_directory:
  assumes ok: "directory_ok sv" and r: "CheckSessions num (sv, w) = Inr (sv', w')"
  shows "directory_ok sv' \<and> workers sv' = workers sv"
proof (cases "workers sv = []")
  case False
  then obtain now w1 removed sv1 w2 where "check_all (length (workers sv)) num now (sessionMap sv) ([], sv, w1) = Inr (removed, sv1, w2)"
    and "remove_all removed (sv1, w2) = Inr (sv', w')"
    using r by (auto simp: CheckSessions_def split: prod.splits)
  then show ?thesis using check_all_directory [OF ok] remove_all_directory by metis
qed (use ok r in \<open>simp add: CheckSessions_def\<close>)

lemma process_jobs_directory:
  assumes hs: "id_handlers hs"
  shows "directory_ok sv \<Longrightarrow> process_jobs hs num n (sv, w) = Inr (sv', w') \<Longrightarrow> directory_ok sv'"
proof (induction n arbitrary: sv w)
  case (Suc n)
  show ?case
  proof (cases "queue (workers sv ! num)")
    case Nil
    then show ?thesis using Suc.prems by simp
  next
    case (Cons job rest)
    let ?sv1 = "sv\<lparr>workers := (workers sv)[num := (workers sv ! num)\<lparr>queue := rest\<rparr>]\<rparr>"
    obtain k sv2 w1 w2 where pp: "ProcessPacket hs (job_opb job) k (remoteAddr (packets w (job_opb job))) (?sv1, w) = Inr (sv2, w1)"
      and rest: "process_jobs hs num n (sv2, w2) = Inr (sv', w')"
      using Suc.prems(2) Cons by (auto simp: Let_def)
    have "directory_ok sv2" by (rule ProcessPacket_directory [OF hs _ pp]) (simp add: directory_ok_workers Suc.prems(1))
    then show ?thesis using Suc.IH rest by blast
  qed
qed simp

lemma Process_directory:
  assumes hs: "id_handlers hs" and ok: "directory_ok sv" and r: "Process hs num (sv, w) = Inr (sv', w')"
  shows "directory_ok sv'"
proof -
  obtain sv1 w1 now w2 where j: "process_jobs hs num 64 (sv, w) = Inr (sv1, w1)" and t: "GetRelativeTimeMs w1 = (now, w2)"
    and c: "(if 50 \<le> now - lastCheckTime (workers sv1 ! num)
          then CheckSessions num (sv1\<lparr>workers := (workers sv1)[num := (workers sv1 ! num)\<lparr>lastCheckTime := now\<rparr>]\<rparr>, w2)
          else Inr (sv1, w2)) = Inr (sv', w')"
    using r by (auto simp: Process_def split: prod.splits)
  have "directory_ok sv1" by (rule process_jobs_directory [OF hs ok j])
  then have "directory_ok (sv1\<lparr>workers := ws\<rparr>)" for ws by (simp add: directory_ok_workers)
  with \<open>directory_ok sv1\<close> show ?thesis using c by (auto split: if_splits dest!: CheckSessions_directory [rotated])
qed

lemma Server_OnRecvFrom_directory:
  "directory_ok sv \<Longrightarrow> Server_OnRecvFrom from p n (sv, w) = Inr (sv', w') \<Longrightarrow> directory_ok sv'"
  by (auto simp: Server_OnRecvFrom_def Let_def directory_ok_workers split: if_splits prod.splits)

lemma Server_Dispatch_directory:
  assumes "directory_ok sv" "Server_Dispatch completion (sv, w) = Inr (sv', w')"
  shows "directory_ok sv'"
  using assms Server_OnRecvFrom_directory
  by (auto simp: Server_Dispatch_def RecvFromComplete_def Let_def split: option.splits if_splits)

section \<open>The life of a server\<close>

text \<open>
  The steps are the critical sections of the code: a worker accepts a connection or moves a session under
  the write lock, handles a packet or checks sessions under the read lock, removes sessions under the
  write lock; the receive threads route datagrams; the application sends. Any interleaving of the
  workers is a sequence of such steps, and the world may change in between.
\<close>

inductive server_run :: "unit Session_ext handlers \<Rightarrow> Server \<Rightarrow> World \<Rightarrow> Server \<Rightarrow> World \<Rightarrow> bool" for hs sv0 w0 where
  start: "server_run hs sv0 w0 sv0 w0"
| outside: "server_run hs sv0 w0 sv w \<Longrightarrow> server_run hs sv0 w0 sv w'"
| arrive: "server_run hs sv0 w0 sv w \<Longrightarrow> Server_Dispatch completion (sv, w) = Inr (sv', w') \<Longrightarrow> server_run hs sv0 w0 sv' w'"
| packet: "server_run hs sv0 w0 sv w \<Longrightarrow> ProcessPacket hs opb n from (sv, w) = Inr (sv', w') \<Longrightarrow> server_run hs sv0 w0 sv' w'"
| process: "server_run hs sv0 w0 sv w \<Longrightarrow> Process hs num (sv, w) = Inr (sv', w') \<Longrightarrow> server_run hs sv0 w0 sv' w'"
| accept: "server_run hs sv0 w0 sv w \<Longrightarrow> accept_session opb from (sv, w) = Inr (sv', w') \<Longrightarrow> server_run hs sv0 w0 sv' w'"
| move: "server_run hs sv0 w0 sv w \<Longrightarrow> move_session i from (sv, w) = Inr (go, sv', w') \<Longrightarrow> server_run hs sv0 w0 sv' w'"
| session: "server_run hs sv0 w0 sv w \<Longrightarrow> sessionHeap sv p = Some s \<Longrightarrow> session_packet hs b n (s, w) = Inr (s', w') \<Longrightarrow>
    server_run hs sv0 w0 (upd_session p s' sv) w'"
| send: "server_run hs sv0 w0 sv w \<Longrightarrow> sessionHeap sv p = Some s \<Longrightarrow>
    Session_SendPacket payload code sz opt sub (s, w) = Inr (s', w') \<Longrightarrow> server_run hs sv0 w0 (upd_session p s' sv) w'"
| check: "server_run hs sv0 w0 sv w \<Longrightarrow> check_all n num now es (removed, sv, w) = Inr (removed', sv', w') \<Longrightarrow>
    server_run hs sv0 w0 sv' w'"
| remove: "server_run hs sv0 w0 sv w \<Longrightarrow> remove_all is (sv, w) = Inr (sv', w') \<Longrightarrow> server_run hs sv0 w0 sv' w'"

lemma server_run_directory:
  assumes "server_run hs (new_Server ids n) w0 sv w" and hs: "id_handlers hs" and ids: "0 \<notin> set ids"
  shows "directory_ok sv"
  using assms(1)
proof (induction rule: server_run.induct)
  case start
  show ?case by (rule directory_ok_new [OF ids])
next
  case (arrive sv w completion sv' w')
  then show ?case using Server_Dispatch_directory by blast
next
  case (packet sv w opb n "from" sv' w')
  then show ?case using ProcessPacket_directory [OF hs] by blast
next
  case (process sv w num sv' w')
  then show ?case using Process_directory [OF hs] by blast
next
  case (accept sv w opb "from" sv' w')
  then show ?case using accept_session_directory by blast
next
  case (move sv w i "from" go sv' w')
  then show ?case using move_session_directory by blast
next
  case (session sv w p s b n s' w')
  then show ?case using directory_ok_upd_session session_packet_identity [OF hs] by blast
next
  case (send sv w p s payload code sz opt sub s' w')
  then show ?case using directory_ok_upd_session keeps_idD [OF Session_SendPacket_keeps_id] by blast
next
  case (check sv w n num now es removed removed' sv' w')
  then show ?case using check_all_directory by blast
next
  case (remove sv w "is" sv' w')
  then show ?case using remove_all_directory by blast
qed

end
