(* ===== verification/Dubu_Wire.thy ===== *)
theory Dubu_Wire
  imports Dubu_Session
begin

text \<open>
  What the senders put on the wire and what the receiving socket makes of it: every datagram has a
  valid checksum, its header says what was asked for, and the bytes after the header are the
  sub-header and the payload.
\<close>

section \<open>Checksums of datagrams\<close>

lemma CRC32_take: "CRC32 (take (unat len) b) len = CRC32 b len"
  by (simp add: CRC32_def)

lemma CRC32_cong: "take (unat len) a = take (unat len) b \<Longrightarrow> CRC32 a len = CRC32 b len"
  by (simp add: CRC32_def)

lemma checksum_ok_take:
  assumes "24 \<le> unat len"
  shows "checksum_ok (take (unat len) b) len = checksum_ok b len"
proof -
  have "CRC32 (set_header k (take (unat len) b)) len = CRC32 (set_header k b) len" for k
    by (rule CRC32_cong) (simp add: set_header_def drop_take)
  then show ?thesis using assms by (simp add: checksum_ok_def get_header_take)
qed

lemma checksum_ok_header_bytes:
  assumes "checksum h = 0" "24 \<le> unat len"
  shows "checksum_ok (header_bytes (h\<lparr>checksum := CRC32 (header_bytes h @ rest) len\<rparr>) @ rest) len"
proof -
  have "header_bytes k @ rest = set_header k (replicate 24 0 @ rest)" for k by (simp add: set_header_def)
  then show ?thesis using checksum_ok_sealed [OF assms(1)] by simp
qed

section \<open>Packets that are only a header\<close>

lemma send_header_wire:
  assumes "send_header to f w = Inr w'"
  obtains h h0 where "wire w' = wire w @ [(to, header_bytes h)]" "checksum_ok (header_bytes h) 24"
    "h = (f h0)\<lparr>checksum := checksum h, totalSize := 24\<rparr>"
proof -
  obtain p w1 where pop: "PopPacketBuffer w = (p, w1)" by force
  let ?b = "obuffer (packets w1 p)"
  define h0 where "h0 = get_header ?b"
  define k where "k = (f h0)\<lparr>checksum := 0, totalSize := 24\<rparr>"
  define h where "h = k\<lparr>checksum := CRC32 (set_header k ?b) 24\<rparr>"
  have w1: "wire w1 = wire w" using pop by (auto simp: pool_defs Let_def split: if_splits prod.splits)
  have "wire w' = wire w @ [(to, take 24 (set_header h (set_header k ?b)))]"
    using assms pop w1 by (auto simp: send_header_def SendTo_def WSASendTo_def SetType_def seal_header_def store_packet_def
        Let_def h_def k_def h0_def split: if_splits)
  then have "wire w' = wire w @ [(to, header_bytes h)]" by (simp add: set_header_twice) (simp add: set_header_def)
  moreover have "CRC32 (set_header k ?b) 24 = CRC32 (header_bytes k) 24" by (rule CRC32_cong) (simp add: set_header_def)
  then have "checksum_ok (header_bytes h) 24"
    using checksum_ok_header_bytes [of k 24 "[]"] by (simp add: h_def k_def)
  ultimately show ?thesis using that [of h h0] by (simp add: h_def k_def)
qed

section \<open>Packets with a payload\<close>

lemma fill_packet_bytes:
  assumes "unat sz + length sub + 24 \<le> 1024" "unat sz \<le> length payload"
  obtains n h rest where "fill_packet opt code sz seq ident now payload sub buf
      = (n, header_bytes h @ sub @ take (unat sz) payload @ rest)"
    "unat n = 24 + length sub + unat sz"
    "checksum_ok (header_bytes h @ sub @ take (unat sz) payload) n"
    "totalSize h = n" "flags h = opt_flags opt" "hSequenceNo h = seq" "hSessionId h = ident" "hTimestamp h = now"
    "packetCode h = (if sub = [] then code else code OR push_bit 5 (sub_type sub))"
    "reliable opt \<and> \<not> order opt \<and> isChunck opt \<Longrightarrow> chunkInfo h = \<lparr>ci_size = chunckTotal opt, ci_flag = chunckFlag opt\<rparr>"
proof -
  define h0 where "h0 = get_header buf"
  define h1 where "h1 = h0\<lparr>flags := opt_flags opt, hSequenceNo := seq,
                  chunkInfo := (if reliable opt \<and> \<not> order opt \<and> isChunck opt
                    then \<lparr>ci_size = chunckTotal opt, ci_flag = chunckFlag opt\<rparr> else chunkInfo h0),
                  checksum := 0, totalSize := 24 + sz, hSessionId := ident, hTimestamp := now,
                  packetCode := code\<rparr>"
  define h2 where "h2 = (if sub = [] then h1
                else h1\<lparr>packetCode := code OR push_bit 5 (sub_type sub),
                        totalSize := totalSize h1 + of_nat (length sub)\<rparr>)"
  let ?pl = "take (unat sz) payload"
  define b2 where "b2 = memcpy_at (24 + length sub) ?pl (memcpy_at 24 sub (set_header h2 buf))"
  have b2: "b2 = header_bytes h2 @ sub @ ?pl @ drop (24 + length sub + length ?pl) (header_bytes h2 @ sub @ drop (24 + length sub) (set_header h2 buf))"
    by (simp add: b2_def memcpy_at_def set_header_def)
  then obtain rest where rest: "b2 = header_bytes h2 @ sub @ ?pl @ rest" by blast
  define n where "n = totalSize h2"
  define h where "h = h2\<lparr>checksum := CRC32 b2 n\<rparr>"
  have "n = of_nat (24 + length sub + unat sz)" by (simp add: n_def h2_def h1_def ac_simps)
  then have un: "unat n = 24 + length sub + unat sz"
    using assms(1) by (simp add: unsigned_of_nat take_bit_nat_eq_self del: of_nat_add)
  have len: "length ?pl = unat sz" using assms(2) by simp
  have fp: "fill_packet opt code sz seq ident now payload sub buf = (n, set_header h b2)"
    by (simp only: fill_packet_def Let_def h0_def [symmetric] h1_def [symmetric] h2_def [symmetric] b2_def [symmetric]
        n_def [symmetric] h_def [symmetric])
  have "set_header h b2 = header_bytes h @ sub @ ?pl @ rest" by (simp add: set_header_def rest)
  moreover have "CRC32 b2 n = CRC32 (header_bytes h2 @ sub @ ?pl) n" by (rule CRC32_cong) (use assms(2) in \<open>simp add: rest un len\<close>)
  then have "checksum_ok (header_bytes h @ sub @ ?pl) n"
    using checksum_ok_header_bytes [of h2 n "sub @ ?pl"] un by (simp add: h_def) (simp add: h2_def h1_def)
  ultimately show ?thesis using fp un
    by (intro that [of n h rest]) (auto simp: h_def n_def, auto simp: h2_def h1_def)
qed

section \<open>Sending\<close>

definition datagram_of :: "PacketOpctions \<Rightarrow> u8 \<Rightarrow> u32 \<Rightarrow> u32 \<Rightarrow> bytes \<Rightarrow> bytes \<Rightarrow> bytes \<Rightarrow> bool" where
  "datagram_of opt code seq ident sub payload d \<longleftrightarrow> length d = 24 + length sub + length payload
     \<and> checksum_ok d (of_nat (length d)) \<and> totalSize (get_header d) = of_nat (length d)
     \<and> flags (get_header d) = opt_flags opt \<and> hSequenceNo (get_header d) = seq \<and> hSessionId (get_header d) = ident
     \<and> packetCode (get_header d) = (if sub = [] then code else code OR push_bit 5 (sub_type sub))
     \<and> (reliable opt \<and> \<not> order opt \<and> isChunck opt \<longrightarrow>
          chunkInfo (get_header d) = \<lparr>ci_size = chunckTotal opt, ci_flag = chunckFlag opt\<rparr>)
     \<and> drop 24 d = sub @ payload"

lemma wire_pool [simp]:
  "wire (snd (PopPacketBuffer w)) = wire w" "wire (PushPacketBuffer p w) = wire w" "wire (SetType p t w) = wire w"
  "wire (snd (GetRelativeTimeMs w)) = wire w" "wire (store_packet p n b w) = wire w" "wire (drop_reliable p w) = wire w"
  by (simp_all add: pool_defs SetType_def GetRelativeTimeMs_def store_packet_def drop_reliable_def fetch_and_not_def
      Let_def split_beta)

lemma ioError_pool [simp]:
  "ioError (snd (PopPacketBuffer w)) = ioError w" "ioError (snd (GetRelativeTimeMs w)) = ioError w"
  "ioError (store_packet p n b w) = ioError w"
  by (simp_all add: pool_defs GetRelativeTimeMs_def store_packet_def Let_def split_beta)

lemma transmit_wire:
  assumes "transmit ovf opt p (s, w) = Inr (s', w')" and "reliable opt \<Longrightarrow> fst (register_pending opt p w s)"
  shows "wire w' = wire w @ [(addr s, take (unat (osize (packets w p))) (obuffer (packets w p)))]"
    and "s' = (if reliable opt then snd (register_pending opt p w s) else s)"
proof -
  have "addr (snd (register_pending opt p w s)) = addr s"
    by (simp add: register_pending_def upd_channel_def Let_def split: prod.splits)
  then show "wire w' = wire w @ [(addr s, take (unat (osize (packets w p))) (obuffer (packets w p)))]"
    "s' = (if reliable opt then snd (register_pending opt p w s) else s)"
    using assms by (auto simp: transmit_def SendToReliable_def SendTo_def WSASendTo_def SetType_def split_beta split: if_splits)
qed

text \<open>One datagram is built and given to \<^verbatim>\<open>transmit\<close>, whatever the owner does when its window is full.\<close>

lemma SendOne_transmit:
  assumes seq: "next_sequence opt s = Inr (seq, s1)" and fits: "unat sz + length sub + 24 \<le> 1024" and pl: "unat sz \<le> length payload"
  obtains p w1 d where "SendOne ovf payload code sz opt sub (s, w) = transmit ovf opt p (s1, w1)"
    "wire w1 = wire w" "ioError w1 = ioError w" "inUse w1 = insert p (inUse w)" "pm_ok w \<Longrightarrow> p \<notin> inUse w \<and> pm_ok w1"
    "\<And>q. q \<noteq> p \<Longrightarrow> packets w1 q = packets w q" "take (unat (osize (packets w1 p))) (obuffer (packets w1 p)) = d"
    "hSequenceNo (get_header (obuffer (packets w1 p))) = seq"
    "datagram_of opt code seq (endpointId s1) sub (take (unat sz) payload) d"
proof -
  obtain p w1 where pop: "PopPacketBuffer w = (p, w1)" by force
  obtain now w2 where tm: "GetRelativeTimeMs w1 = (now, w2)" by force
  let ?pl = "take (unat sz) payload"
  have lpl: "length ?pl = unat sz" using pl by simp
  from fits pl obtain n h rest where fp: "fill_packet opt code sz seq (endpointId s1) now payload sub (obuffer (packets w2 p))
        = (n, header_bytes h @ sub @ ?pl @ rest)"
    and n: "unat n = 24 + length sub + unat sz" and ck: "checksum_ok (header_bytes h @ sub @ ?pl) n"
    and h: "totalSize h = n" "flags h = opt_flags opt" "hSequenceNo h = seq" "hSessionId h = endpointId s1"
      "packetCode h = (if sub = [] then code else code OR push_bit 5 (sub_type sub))"
      "reliable opt \<and> \<not> order opt \<and> isChunck opt \<Longrightarrow> chunkInfo h = \<lparr>ci_size = chunckTotal opt, ci_flag = chunckFlag opt\<rparr>"
    by (rule fill_packet_bytes) blast
  let ?w = "store_packet p n (header_bytes h @ sub @ ?pl @ rest) w2" and ?d = "header_bytes h @ sub @ ?pl"
  have w: "wire ?w = wire w" "ioError ?w = ioError w"
    using wire_pool(1) [of w] wire_pool(4) [of w1] ioError_pool(1) [of w] ioError_pool(2) [of w1] pop tm by simp_all
  have w2: "packetManager w2 = packetManager w1" "packets w2 = packets w1" using tm by (auto simp: GetRelativeTimeMs_def)
  have use: "inUse ?w = insert p (inUse w)" using packetPool.pop_used [of w] pop w2 by (simp add: store_packet_def)
  have fresh: "p \<notin> inUse w \<and> pm_ok ?w" if "pm_ok w"
    using packetPool.pop_fresh [OF that] packetPool.pop_inv [OF that] pop w2 by (simp add: store_packet_def pm_ok_def)
  have other: "packets ?w q = packets w q" if "q \<noteq> p" for q
    using packetPool.pop_content [of q w] pop w2 that by (simp add: store_packet_def)
  have tr: "SendOne ovf payload code sz opt sub (s, w) = transmit ovf opt p (s1, ?w)"
    using fits pl seq pop tm fp by (auto simp: SendOne_def split: if_splits)
  have "of_nat (length ?d) = n"
  proof -
    have "length ?d = unat n" using n lpl by simp
    then show ?thesis by simp
  qed
  then have "datagram_of opt code seq (endpointId s1) sub ?pl ?d"
    using ck h n lpl by (simp add: datagram_of_def get_header_header_bytes)
  moreover have "take (unat (osize (packets ?w p))) (obuffer (packets ?w p)) = ?d" using n lpl by (simp add: store_packet_def)
  moreover have "hSequenceNo (get_header (obuffer (packets ?w p))) = seq"
    by (simp add: store_packet_def get_header_header_bytes h(3))
  ultimately show ?thesis using that [OF tr w use fresh other] by blast
qed

lemma SendOne_packet:
  assumes "SendOne ovf payload code sz opt sub (s, w) = Inr (s', w')"
  obtains seq s1 p w1 d where "next_sequence opt s = Inr (seq, s1)" "transmit ovf opt p (s1, w1) = Inr (s', w')"
    "wire w1 = wire w" "take (unat (osize (packets w1 p))) (obuffer (packets w1 p)) = d"
    "hSequenceNo (get_header (obuffer (packets w1 p))) = seq"
    "datagram_of opt code seq (endpointId s1) sub (take (unat sz) payload) d" "unat sz \<le> length payload"
proof -
  obtain seq s1 where seq: "next_sequence opt s = Inr (seq, s1)" using assms by (auto simp: SendOne_def split_beta split: if_splits)
  have fits: "unat sz + length sub + 24 \<le> 1024" and pl: "unat sz \<le> length payload"
    using assms by (auto simp: SendOne_def split_beta split: if_splits)
  from SendOne_transmit [OF seq fits pl, of ovf code w] show ?thesis using that [OF seq] assms pl by metis
qed

lemma next_sequence_static: "next_sequence opt s = Inr (q, s1) \<Longrightarrow> endpointId s1 = endpointId s \<and> addr s1 = addr s \<and> hasSocket s1 = hasSocket s"
  by (auto simp: next_sequence_def upd_channel_def Let_def split: if_splits prod.splits)

lemma Session_SendPacket_wire:
  assumes "Session_SendPacket payload code sz opt sub (s, w) = Inr (s', w')" and "hasSocket s"
    and "unat sz + length sub + 24 \<le> 1024"
  shows "wire w' = wire w \<or> (\<exists>seq s1 d. next_sequence opt s = Inr (seq, s1) \<and> wire w' = wire w @ [(addr s, d)]
    \<and> datagram_of opt code seq (endpointId s) sub (take (unat sz) payload) d)"
proof -
  have "SendOne Session_overflow payload code sz opt sub (s, w) = Inr (s', w')"
    using assms by (simp add: Session_SendPacket_def SendPacket_def)
  then obtain seq s1 p w1 d where seq: "next_sequence opt s = Inr (seq, s1)"
    and tr: "transmit Session_overflow opt p (s1, w1) = Inr (s', w')" and w1: "wire w1 = wire w"
    and d: "take (unat (osize (packets w1 p))) (obuffer (packets w1 p)) = d"
      "datagram_of opt code seq (endpointId s1) sub (take (unat sz) payload) d"
    by (rule SendOne_packet)
  show ?thesis
  proof (cases "reliable opt \<longrightarrow> fst (register_pending opt p w1 s1)")
    case True
    then show ?thesis using transmit_wire(1) [OF tr] d w1 seq next_sequence_static [OF seq] by auto
  next
    case False
    then show ?thesis using tr w1 by (auto simp: transmit_def Session_overflow_def split: prod.splits)
  qed
qed

text \<open>
  C16. What a session sends is what was asked for. A packet that fits and is not dropped because the
  window is full goes to the peer's address as one datagram with a valid checksum; its header carries
  the next number of its channel, the session id, the flags of the options and its true size, and after
  the header come the sub-header and the payload, unchanged.
\<close>

theorem packet_on_wire:
  assumes "Session_SendPacket payload code sz opt sub (s, w) = Inr (s', w')" and "hasSocket s"
    and "unat sz + length sub + 24 \<le> 1024" and "wire w' \<noteq> wire w"
  shows "\<exists>seq s1 d. next_sequence opt s = Inr (seq, s1) \<and> wire w' = wire w @ [(addr s, d)]
    \<and> datagram_of opt code seq (endpointId s) sub (take (unat sz) payload) d"
  using Session_SendPacket_wire [OF assms(1-3)] assms(4) by blast

section \<open>The receiving socket\<close>

text \<open>
  C17. A datagram with a valid checksum reaches the owner of the socket exactly once, in the buffer it
  was received into, with only the checksum field cleared, and the next receive is posted afterwards.
\<close>

theorem valid_datagram_handled:
  assumes "24 \<le> unat len" and "checksum_ok d len" and "length d = unat len"
    and "take (unat len) (obuffer (packets w p)) = d"
  shows "\<exists>b. RecvFromComplete (Some f) p (int (unat len)) (s, w) =
      andThen (f (remoteAddr (packets w p)) p len (s, w\<lparr>packets := (packets w)(p := (packets w p)\<lparr>obuffer := b\<rparr>)\<rparr>))
        (\<lambda>(s', w'). andThen (RecvFrom w') (\<lambda>w''. Inr (s', w'')))
    \<and> get_header b = (get_header d)\<lparr>checksum := 0\<rparr> \<and> take (unat len - 24) (drop 24 b) = drop 24 d"
proof -
  let ?buf = "obuffer (packets w p)" let ?b = "set_header ((get_header ?buf)\<lparr>checksum := 0\<rparr>) ?buf"
  have h: "get_header d = get_header ?buf" using assms(1,4) get_header_take by metis
  have "checksum_ok ?buf len" using checksum_ok_take [OF assms(1), of ?buf] assms(2,4) by simp
  then have "RecvFromComplete (Some f) p (int (unat len)) (s, w) =
      andThen (f (remoteAddr (packets w p)) p len (s, w\<lparr>packets := (packets w)(p := (packets w p)\<lparr>obuffer := ?b\<rparr>)\<rparr>))
        (\<lambda>(s', w'). andThen (RecvFrom w') (\<lambda>w''. Inr (s', w'')))"
    using assms(1) by (simp add: RecvFromComplete_def PacketHeaderCheck_def checksum_ok_def Let_def)
  moreover have "take (unat len - 24) (drop 24 ?b) = drop 24 d"
    using assms(4) by (simp add: set_header_def drop_take [symmetric])
  ultimately show ?thesis by (intro exI [of _ ?b]) (simp add: get_set_header h)
qed

section \<open>Witnesses\<close>

definition wire_session :: Session where
  "wire_session = (new_Session default_config)\<lparr>hasSocket := True, addr := \<lparr>sin_addr = 5, sin_port = 6\<rparr>, endpointId := 9\<rparr>"

definition wire_world :: World where
  "wire_world = new_World default_config (\<lambda>n. of_nat n) (\<lambda>_. None)"

lemma wire_example:
  "\<exists>s' w'. Session_SendPacket [1, 2] 3 2 (mk_opt False False 0) [] (wire_session, wire_world) = Inr (s', w')
     \<and> wire w' \<noteq> wire wire_world"
proof -
  have ok: "wsa_ok w" if "ioError w = (\<lambda>_. None)" for w using that by (simp add: wsa_ok_def)
  have io: "ioError (snd (PopPacketBuffer wire_world)) = (\<lambda>_. None)"
    by (simp add: pool_defs wire_world_def new_World_def ObjectPool_Pop_def)
  show ?thesis
    using io by (simp add: Session_SendPacket_def SendPacket_def SendOne_def wire_session_def new_Session_def next_sequence_def
        mk_opt_def GetRelativeTimeMs_def transmit_def SendTo_def WSASendTo_def SetType_def store_packet_def
        UpdateSendSequenceNo_def split_beta Let_def ok del: fun_upd_apply)
qed

theorem packet_on_wire_witness:
  "\<exists>s' w' seq s1 d. Session_SendPacket [1, 2] 3 2 (mk_opt False False 0) [] (wire_session, wire_world) = Inr (s', w')
    \<and> next_sequence (mk_opt False False 0) wire_session = Inr (seq, s1)
    \<and> wire w' = wire wire_world @ [(addr wire_session, d)]
    \<and> datagram_of (mk_opt False False 0) 3 seq (endpointId wire_session) [] (take (unat (2 :: u16)) [1, 2]) d"
proof -
  obtain s' w' where r: "Session_SendPacket [1, 2] 3 2 (mk_opt False False 0) [] (wire_session, wire_world) = Inr (s', w')"
    and ne: "wire w' \<noteq> wire wire_world" using wire_example by blast
  have "hasSocket wire_session" by (simp add: wire_session_def)
  then show ?thesis using packet_on_wire [OF r _ _ ne] r by auto
qed

theorem valid_datagram_handled_witness:
  "\<exists>b. RecvFromComplete (Some (\<lambda>_ _ _ sw. Inr sw)) 0 (int (unat (24 :: u16)))
        ((), corrupt_world\<lparr>packets := (\<lambda>p. (packets corrupt_world p)\<lparr>obuffer := sealed_packet\<rparr>)\<rparr>) =
      andThen (Inr ((), corrupt_world\<lparr>packets := ((\<lambda>p. (packets corrupt_world p)\<lparr>obuffer := sealed_packet\<rparr>))
          (0 := (packets corrupt_world 0)\<lparr>obuffer := b\<rparr>)\<rparr>))
        (\<lambda>(s', w'). andThen (RecvFrom w') (\<lambda>w''. Inr (s', w'')))
    \<and> get_header b = (get_header sealed_packet)\<lparr>checksum := 0\<rparr>"
proof -
  let ?w = "corrupt_world\<lparr>packets := (\<lambda>p. (packets corrupt_world p)\<lparr>obuffer := sealed_packet\<rparr>)\<rparr>"
  have len: "length sealed_packet = unat (24 :: u16)"
    by (simp add: sealed_packet_def set_header_def)
  have ok: "checksum_ok sealed_packet 24" unfolding sealed_packet_def Let_def by (subst checksum_ok_sealed) simp_all
  have "take (unat (24 :: u16)) (obuffer (packets ?w 0)) = sealed_packet" using len by simp
  from valid_datagram_handled [OF _ ok len this, of "\<lambda>_ _ _ sw. Inr sw" "()"] show ?thesis by auto
qed

end
