(* ===== verification/Dubu_Reset.thy ===== *)
theory Dubu_Reset
  imports Dubu_Session
begin

text \<open>
  \<^verbatim>\<open>Reset\<close> of a connection end: every window starts afresh and every buffer the end still holds goes back
  where it came from, except packet buffers the kernel is still sending; those lose their RELIABLE
  mark, so that their completion returns them.
\<close>

section \<open>Packet buffers\<close>

definition sending :: "World \<Rightarrow> ptr \<Rightarrow> bool" where
  "sending w p \<longleftrightarrow> otype (packets w p) AND obj_type SENDING \<noteq> 0"

definition unmarked :: "World \<Rightarrow> ptr \<Rightarrow> bool" where
  "unmarked w p \<longleftrightarrow> otype (packets w p) AND obj_type RELIABLE = 0"

definition pending_bufs :: "PendingPacket list \<Rightarrow> ptr set" where
  "pending_bufs pend = {p. \<exists>pp \<in> set pend. pp_buffer pp = Some p}"

text \<open>What giving up a set of packet buffers means for the world.\<close>

definition given_up :: "ptr set \<Rightarrow> World \<Rightarrow> World \<Rightarrow> bool" where
  "given_up P w w' \<longleftrightarrow> inUse w' = inUse w - {p \<in> P. \<not> sending w p} \<and> (\<forall>p. sending w' p = sending w p)
     \<and> (\<forall>p \<in> P. unmarked w' p) \<and> (\<forall>p. unmarked w p \<longrightarrow> unmarked w' p) \<and> cacheManager w' = cacheManager w \<and> caches w' = caches w
     \<and> config w' = config w"

lemma given_up_refl: "given_up {} w w"
  by (simp add: given_up_def)

lemma given_up_trans: "given_up P w w1 \<Longrightarrow> given_up Q w1 w2 \<Longrightarrow> given_up (P \<union> Q) w w2"
  by (auto simp: given_up_def)

lemma drop_reliable_given_up: "given_up {p} w (drop_reliable p w)"
proof -
  have n: "NOT (0xFFFF0000 :: u32) = 0xFFFF" by simp
  have a: "(x AND 0xFFFF) AND 4 = x AND (4 :: u32)" "(x AND 0xFFFF) AND 0xFFFF0000 = (0 :: u32)" for x
    by (simp_all add: and.assoc)
  show ?thesis
    unfolding given_up_def drop_reliable_def fetch_and_not_def SetType_def sending_def unmarked_def obj_type.simps n
    by (auto simp: PushPacketBuffer_def a Let_def)
qed

lemma return_slots:
  assumes "fold return_slot [0..<n] (pend, w) = (pend', w')" "n \<le> length pend"
  shows "given_up (pending_bufs (take n pend)) w w' \<and> length pend' = length pend
    \<and> (\<forall>i. pp_buffer (pend' ! i) = (if i < n then None else pp_buffer (pend ! i)))"
  using assms
proof (induction n arbitrary: pend' w')
  case 0
  then show ?case by (simp add: pending_bufs_def given_up_refl)
next
  case (Suc n)
  obtain pend1 w1 where f: "fold return_slot [0..<n] (pend, w) = (pend1, w1)" by force
  have ih: "given_up (pending_bufs (take n pend)) w w1" "length pend1 = length pend"
    "\<forall>i. pp_buffer (pend1 ! i) = (if i < n then None else pp_buffer (pend ! i))"
    using Suc.IH [OF f] Suc.prems(2) by auto
  have r: "return_slot n (pend1, w1) = (pend', w')" using Suc.prems(1) f by simp
  have tk: "take (Suc n) pend = take n pend @ [pend ! n]" using Suc.prems(2) by (simp add: take_Suc_conv_app_nth)
  show ?case
  proof (cases "pp_buffer (pend ! n)")
    case None
    then have "pending_bufs (take (Suc n) pend) = pending_bufs (take n pend)" by (auto simp: tk pending_bufs_def)
    then show ?thesis using r ih None by (auto simp: return_slot_def less_Suc_eq)
  next
    case (Some p)
    then have "pending_bufs (take (Suc n) pend) = pending_bufs (take n pend) \<union> {p}" by (auto simp: tk pending_bufs_def)
    then show ?thesis using r ih Some Suc.prems(2) given_up_trans [OF ih(1) drop_reliable_given_up]
      by (auto simp: return_slot_def nth_list_update_if less_Suc_eq)
  qed
qed

lemma ReliablePacketState_Reset_effect:
  assumes "ReliablePacketState_Reset rps w = (rps', w')" "length (pendingPackets rps) = 64"
  shows "rps' = new_ReliablePacketState" "given_up (pending_bufs (pendingPackets rps)) w w'"
proof -
  obtain pend w1 where f: "fold return_slot [0..<64] (pendingPackets rps, w) = (pend, w1)" by force
  then have "w' = w1" "rps' = new_ReliablePacketState"
    using assms(1) by (auto simp: ReliablePacketState_Reset_def ReturnBuffers_def PacketStateBase_Reset_def new_ReliablePacketState_def)
  then show "rps' = new_ReliablePacketState" "given_up (pending_bufs (pendingPackets rps)) w w'"
    using return_slots [OF f] assms(2) by simp_all
qed

section \<open>Cache buffers and channels\<close>

definition slot_bufs :: "CachePacket list \<Rightarrow> ptr set" where
  "slot_bufs cps = {p. \<exists>cp \<in> set cps. cp_buffer cp = Some p}"

lemma reset_slots:
  assumes "fold reset_slot [0..<n] (cps, w) = (cps', w')" "n \<le> length cps"
  shows "cacheInUse w' = cacheInUse w - slot_bufs (take n cps) \<and> length cps' = length cps
    \<and> packetManager w' = packetManager w \<and> packets w' = packets w \<and> config w' = config w
    \<and> (\<forall>i. cps' ! i = (if i < n \<and> cp_buffer (cps ! i) \<noteq> None then no_cache else cps ! i))"
  using assms
proof (induction n arbitrary: cps' w')
  case 0
  then show ?case by (simp add: slot_bufs_def)
next
  case (Suc n)
  obtain cps1 w1 where f: "fold reset_slot [0..<n] (cps, w) = (cps1, w1)" by force
  have ih: "cacheInUse w1 = cacheInUse w - slot_bufs (take n cps)" "length cps1 = length cps"
    "packetManager w1 = packetManager w" "packets w1 = packets w" "config w1 = config w"
    "\<forall>i. cps1 ! i = (if i < n \<and> cp_buffer (cps ! i) \<noteq> None then no_cache else cps ! i)"
    using Suc.IH [OF f] Suc.prems(2) by auto
  have r: "reset_slot n (cps1, w1) = (cps', w')" using Suc.prems(1) f by simp
  have tk: "take (Suc n) cps = take n cps @ [cps ! n]" using Suc.prems(2) by (simp add: take_Suc_conv_app_nth)
  show ?case
  proof (cases "cp_buffer (cps ! n)")
    case None
    then have "slot_bufs (take (Suc n) cps) = slot_bufs (take n cps)" by (auto simp: tk slot_bufs_def)
    then show ?thesis using r ih None by (auto simp: reset_slot_def less_Suc_eq)
  next
    case (Some p)
    then have "slot_bufs (take (Suc n) cps) = slot_bufs (take n cps) \<union> {p}" by (auto simp: tk slot_bufs_def)
    then show ?thesis using r ih Some Suc.prems(2)
      by (auto simp: reset_slot_def nth_list_update_if less_Suc_eq Cache_PushPacketBuffer_def Let_def)
  qed
qed

definition arrays_ok :: "CacheAlreadyPacket \<Rightarrow> bool" where
  "arrays_ok cap \<longleftrightarrow> length (pendingPackets (reliablePacketState cap)) = 64 \<and> length (cachePackets cap) = 64"

definition chan_bufs :: "CacheAlreadyPacket \<Rightarrow> ptr set" where
  "chan_bufs cap = pending_bufs (pendingPackets (reliablePacketState cap))"

definition empty_channel :: "CacheAlreadyPacket \<Rightarrow> bool" where
  "empty_channel cap \<longleftrightarrow> reliablePacketState cap = new_ReliablePacketState \<and> length (cachePackets cap) = 64
     \<and> (\<forall>cp \<in> set (cachePackets cap). cp_buffer cp = None)"

definition returned :: "ptr set \<Rightarrow> ptr set \<Rightarrow> World \<Rightarrow> World \<Rightarrow> bool" where
  "returned P C w w' \<longleftrightarrow> inUse w' = inUse w - {p \<in> P. \<not> sending w p} \<and> (\<forall>p. sending w' p = sending w p)
     \<and> (\<forall>p \<in> P. unmarked w' p) \<and> (\<forall>p. unmarked w p \<longrightarrow> unmarked w' p) \<and> cacheInUse w' = cacheInUse w - C \<and> config w' = config w"

lemma returned_refl: "returned {} {} w w"
  by (simp add: returned_def)

lemma returned_trans: "returned P C w w1 \<Longrightarrow> returned Q D w1 w2 \<Longrightarrow> returned (P \<union> Q) (C \<union> D) w w2"
  by (auto simp: returned_def)

lemma given_up_returned: "given_up P w w' \<Longrightarrow> returned P {} w w'"
  by (auto simp: given_up_def returned_def)

lemma reset_channel_effect:
  assumes "arrays_ok cap"
  obtains cap' w' where "reset_channel (cap, w) = Inr (cap', w')" "empty_channel cap'"
    "returned (chan_bufs cap) (slot_bufs (cachePackets cap)) w w'"
proof -
  obtain rps w1 where a: "ReliablePacketState_Reset (reliablePacketState cap) w = (rps, w1)" by force
  obtain cps w2 where b: "fold reset_slot [0..<64] (cachePackets cap, w1) = (cps, w2)" by force
  have len: "length (pendingPackets (reliablePacketState cap)) = 64" "length (cachePackets cap) = 64"
    using assms by (simp_all add: arrays_ok_def)
  note ra = ReliablePacketState_Reset_effect [OF a len(1)]
  have rb: "cacheInUse w2 = cacheInUse w1 - slot_bufs (cachePackets cap)" "length cps = 64" "packetManager w2 = packetManager w1"
    "packets w2 = packets w1" "config w2 = config w1"
    "\<forall>i. cps ! i = (if i < 64 \<and> cp_buffer (cachePackets cap ! i) \<noteq> None then no_cache else cachePackets cap ! i)"
    using reset_slots [OF b] len(2) by auto
  have "empty_channel \<lparr>reliablePacketState = rps, cachePackets = cps\<rparr>"
    using ra(1) rb(2,6) by (auto simp: empty_channel_def in_set_conv_nth no_cache_def)
  moreover have "returned {} (slot_bufs (cachePackets cap)) w1 w2"
    using rb by (simp add: returned_def sending_def unmarked_def)
  then have "returned (chan_bufs cap) (slot_bufs (cachePackets cap)) w w2"
    using returned_trans [OF given_up_returned [OF ra(2)], of "{}" "slot_bufs (cachePackets cap)" w2] by (simp add: chan_bufs_def)
  ultimately show ?thesis using that a b by (simp add: reset_channel_def)
qed

lemma over_channels_reset:
  assumes "\<forall>c \<in> set cs. c < length (cacheAlreadyPackets s)" "\<forall>cap \<in> set (cacheAlreadyPackets s). arrays_ok cap" "distinct cs"
  obtains s' w' where "over_channels reset_channel cs (s, w) = Inr (s', w')"
    "s' = s\<lparr>cacheAlreadyPackets := cacheAlreadyPackets s'\<rparr>" "length (cacheAlreadyPackets s') = length (cacheAlreadyPackets s)"
    "\<forall>c < length (cacheAlreadyPackets s). if c \<in> set cs then empty_channel (channel s' c) else channel s' c = channel s c"
    "returned (\<Union>c \<in> set cs. chan_bufs (channel s c)) (\<Union>c \<in> set cs. slot_bufs (cachePackets (channel s c))) w w'"
proof -
  have "\<exists>s' w'. over_channels reset_channel cs (s, w) = Inr (s', w')
    \<and> s' = s\<lparr>cacheAlreadyPackets := cacheAlreadyPackets s'\<rparr> \<and> length (cacheAlreadyPackets s') = length (cacheAlreadyPackets s)
    \<and> (\<forall>c < length (cacheAlreadyPackets s). if c \<in> set cs then empty_channel (channel s' c) else channel s' c = channel s c)
    \<and> returned (\<Union>c \<in> set cs. chan_bufs (channel s c)) (\<Union>c \<in> set cs. slot_bufs (cachePackets (channel s c))) w w'"
    using assms
  proof (induction cs arbitrary: s w)
    case Nil
    then show ?case by (simp add: returned_refl)
  next
    case (Cons c cs)
    have c: "c < length (cacheAlreadyPackets s)" "arrays_ok (channel s c)" using Cons.prems(1,2) by auto
    obtain cap w1 where one: "reset_channel (channel s c, w) = Inr (cap, w1)" "empty_channel cap"
      "returned (chan_bufs (channel s c)) (slot_bufs (cachePackets (channel s c))) w w1"
      by (rule reset_channel_effect [OF c(2)])
    let ?s = "upd_channel c (\<lambda>_. cap) s"
    have ok: "arrays_ok cap" using one(2) by (simp add: empty_channel_def arrays_ok_def new_ReliablePacketState_def)
    have other: "channel ?s d = channel s d" if "d \<noteq> c" for d using that by (simp add: upd_channel_def)
    have "\<forall>cap \<in> set (cacheAlreadyPackets ?s). arrays_ok cap"
      using Cons.prems(2) ok by (auto simp: upd_channel_def dest!: set_update_subset_insert [THEN subsetD])
    then obtain s' w' where rest: "over_channels reset_channel cs (?s, w1) = Inr (s', w')"
      "s' = ?s\<lparr>cacheAlreadyPackets := cacheAlreadyPackets s'\<rparr>" "length (cacheAlreadyPackets s') = length (cacheAlreadyPackets ?s)"
      "\<forall>d < length (cacheAlreadyPackets ?s). if d \<in> set cs then empty_channel (channel s' d) else channel s' d = channel ?s d"
      "returned (\<Union>d \<in> set cs. chan_bufs (channel ?s d)) (\<Union>d \<in> set cs. slot_bufs (cachePackets (channel ?s d))) w1 w'"
      using Cons.IH [of ?s w1] Cons.prems(1,3) by (auto simp: upd_channel_def)
    have eq: "(\<Union>d \<in> set cs. chan_bufs (channel ?s d)) = (\<Union>d \<in> set cs. chan_bufs (channel s d))"
      "(\<Union>d \<in> set cs. slot_bufs (cachePackets (channel ?s d))) = (\<Union>d \<in> set cs. slot_bufs (cachePackets (channel s d)))"
    proof -
      have o: "channel ?s d = channel s d" if "d \<in> set cs" for d using that Cons.prems(3) by (intro other) auto
      show "(\<Union>d \<in> set cs. chan_bufs (channel ?s d)) = (\<Union>d \<in> set cs. chan_bufs (channel s d))"
        "(\<Union>d \<in> set cs. slot_bufs (cachePackets (channel ?s d))) = (\<Union>d \<in> set cs. slot_bufs (cachePackets (channel s d)))"
        by (simp_all only: o cong: SUP_cong)
    qed
    have r: "returned (\<Union>d \<in> set (c # cs). chan_bufs (channel s d)) (\<Union>d \<in> set (c # cs). slot_bufs (cachePackets (channel s d))) w w'"
      using returned_trans [OF one(3) rest(5)] by (simp add: eq)
    have "if d \<in> set (c # cs) then empty_channel (channel s' d) else channel s' d = channel s d"
      if "d < length (cacheAlreadyPackets s)" for d
      using rest(4) that other one(2) c(1) Cons.prems(3) by (cases "d = c") (auto simp: upd_channel_def)
    then show ?case using rest(1-3) one(1) c(1) r by (auto simp: upd_channel_def)
  qed
  then show ?thesis using that by blast
qed

section \<open>The whole end\<close>

definition pending_all :: "'e Endpoint_scheme \<Rightarrow> ptr set" where
  "pending_all s = pending_bufs (pendingPackets (rpsNo s)) \<union> (\<Union>cap \<in> set (cacheAlreadyPackets s). chan_bufs cap)"

definition kept_all :: "'e Endpoint_scheme \<Rightarrow> ptr set" where
  "kept_all s = (\<Union>cap \<in> set (cacheAlreadyPackets s). slot_bufs (cachePackets cap))"

definition end_arrays_ok :: "Config \<Rightarrow> 'e Endpoint_scheme \<Rightarrow> bool" where
  "end_arrays_ok cfg s \<longleftrightarrow> length (pendingPackets (rpsNo s)) = 64 \<and> (\<forall>cap \<in> set (cacheAlreadyPackets s). arrays_ok cap)
     \<and> length (cacheAlreadyPackets s) = Suc (unat (g_channelMask cfg))"

lemma reset_states_effect:
  assumes "end_arrays_ok (config w) s"
  obtains s' w' where "reset_states (s, w) = Inr (s', w')"
    "s' = s\<lparr>rNopsNo := new_PacketStateBase, rpsNo := new_ReliablePacketState, cacheAlreadyPackets := cacheAlreadyPackets s'\<rparr>"
    "length (cacheAlreadyPackets s') = length (cacheAlreadyPackets s)" "\<forall>cap \<in> set (cacheAlreadyPackets s'). empty_channel cap"
    "returned (pending_all s) (kept_all s) w w'"
proof -
  obtain rps w1 where a: "ReliablePacketState_Reset (rpsNo s) w = (rps, w1)" by force
  note ra = ReliablePacketState_Reset_effect [OF a]
  let ?s = "s\<lparr>rNopsNo := PacketStateBase_Reset (rNopsNo s), rpsNo := rps\<rparr>"
  let ?cs = "[0..<Suc (unat (g_channelMask (config w)))]"
  have len: "length (cacheAlreadyPackets s) = Suc (unat (g_channelMask (config w)))" using assms by (simp add: end_arrays_ok_def)
  have nb: "PacketStateBase_Reset (rNopsNo s) = new_PacketStateBase"
    by (simp add: PacketStateBase_Reset_def new_PacketStateBase_def)
  have g: "rps = new_ReliablePacketState" "given_up (pending_bufs (pendingPackets (rpsNo s))) w w1"
    using ra assms by (auto simp: end_arrays_ok_def)
  have p: "\<forall>c \<in> set ?cs. c < length (cacheAlreadyPackets ?s)" "\<forall>cap \<in> set (cacheAlreadyPackets ?s). arrays_ok cap" "distinct ?cs"
    using assms by (auto simp: end_arrays_ok_def)
  obtain s' w' where o: "over_channels reset_channel ?cs (?s, w1) = Inr (s', w')"
    "s' = ?s\<lparr>cacheAlreadyPackets := cacheAlreadyPackets s'\<rparr>" "length (cacheAlreadyPackets s') = length (cacheAlreadyPackets ?s)"
    "\<forall>c < length (cacheAlreadyPackets ?s). if c \<in> set ?cs then empty_channel (channel s' c) else channel s' c = channel ?s c"
    "returned (\<Union>c \<in> set ?cs. chan_bufs (channel ?s c)) (\<Union>c \<in> set ?cs. slot_bufs (cachePackets (channel ?s c))) w1 w'"
    by (rule over_channels_reset [OF p])
  have un: "(\<Union>c \<in> set ?cs. f (channel ?s c)) = (\<Union>cap \<in> set (cacheAlreadyPackets s). f cap)" for f :: "CacheAlreadyPacket \<Rightarrow> ptr set"
  proof -
    have "(!) (cacheAlreadyPackets s) ` set ?cs = set (cacheAlreadyPackets s)"
      using nth_image [of "length (cacheAlreadyPackets s)" "cacheAlreadyPackets s"] len by (simp only: set_upt) simp
    moreover have "(\<Union>c \<in> set ?cs. f (channel ?s c)) = (\<Union>cap \<in> (!) (cacheAlreadyPackets s) ` set ?cs. f cap)"
      by (auto simp del: upt_Suc set_upt)
    ultimately show ?thesis by (simp only:)
  qed
  have "returned (pending_all s) (kept_all s) w w'"
    using returned_trans [OF given_up_returned [OF g(2)] o(5)] 
    by (simp only: un [of chan_bufs] un [of "\<lambda>cap. slot_bufs (cachePackets cap)"] pending_all_def kept_all_def Un_empty_left)
  moreover have "\<forall>cap \<in> set (cacheAlreadyPackets s'). empty_channel cap"
  proof
    fix cap assume "cap \<in> set (cacheAlreadyPackets s')"
    then obtain c where c: "c < length (cacheAlreadyPackets s')" "channel s' c = cap" unfolding in_set_conv_nth by blast
    have "c < length (cacheAlreadyPackets ?s)" "c \<in> set ?cs" using c(1) o(3) len by auto
    then show "empty_channel cap" using o(4) c(2) by metis
  qed
  moreover have "reset_states (s, w) = Inr (s', w')" using a o(1) by (simp add: reset_states_def)
  ultimately show ?thesis using that o(2,3) g(1) nb by simp
qed

text \<open>
  C24. Resetting a session never fails, and gives back everything: all windows are as new, no slot holds a
  buffer, every cache buffer of the slots and every pending packet buffer the kernel is not sending is back
  in its pool, and no pending buffer is marked RELIABLE any more, so that the completion of a send
  still in progress returns the others.
\<close>

theorem reset_returns_everything:
  assumes "end_arrays_ok (config w) s"
  shows "\<exists>s' w'. Session_Reset (s, w) = Inr (s', w') \<and> rNopsNo s' = new_PacketStateBase \<and> rpsNo s' = new_ReliablePacketState
    \<and> (\<forall>cap \<in> set (cacheAlreadyPackets s'). reliablePacketState cap = new_ReliablePacketState
         \<and> (\<forall>cp \<in> set (cachePackets cap). cp_buffer cp = None))
    \<and> inUse w' = inUse w - {p \<in> pending_all s. \<not> sending w p} \<and> cacheInUse w' = cacheInUse w - kept_all s
    \<and> (\<forall>p \<in> pending_all s. unmarked w' p) \<and> \<not> isConnect s' \<and> \<not> hasSocket s'"
proof -
  obtain now w1 where t: "GetRelativeTimeMs w = (now, w1)" by force
  let ?s = "s\<lparr>isConnect := False, endpointId := 0, timestamp := now, lastPingSentTime := 0,
             rttMillisec := g_defaultRttMs (config w), hasSocket := False, readyDisconnect := False\<rparr>"
  have w1: "config w1 = config w" "inUse w1 = inUse w" "cacheInUse w1 = cacheInUse w" "packets w1 = packets w"
    using t by (auto simp: GetRelativeTimeMs_def)
  have "end_arrays_ok (config w1) ?s" using assms w1 by (simp add: end_arrays_ok_def)
  then obtain s' w' where r: "reset_states (?s, w1) = Inr (s', w')"
    "s' = ?s\<lparr>rNopsNo := new_PacketStateBase, rpsNo := new_ReliablePacketState, cacheAlreadyPackets := cacheAlreadyPackets s'\<rparr>"
    "\<forall>cap \<in> set (cacheAlreadyPackets s'). empty_channel cap" "returned (pending_all ?s) (kept_all ?s) w1 w'"
    by (rule reset_states_effect)
  have "rNopsNo s' = new_PacketStateBase" "rpsNo s' = new_ReliablePacketState" "\<not> isConnect s'" "\<not> hasSocket s'"
    by (subst r(2), simp)+
  moreover have "pending_all ?s = pending_all s" "kept_all ?s = kept_all s" by (simp_all add: pending_all_def kept_all_def)
  ultimately show ?thesis using r(1,3,4) t w1
    by (intro exI [of _ s'] exI [of _ w']) (auto simp: Session_Reset_def returned_def empty_channel_def sending_def)
qed

lemma end_arrays_ok_new: "g_channelMask cfg + 1 \<noteq> 0 \<Longrightarrow> end_arrays_ok cfg (new_Session cfg)"
  by (simp add: end_arrays_ok_def new_Session_def new_ReliablePacketState_def arrays_ok_def new_CacheAlreadyPacket_def unat_plus_one_u32)

lemma Session_Reset_again:
  assumes "end_arrays_ok (config w) s"
  obtains s' w' where "Session_Reset (s, w) = Inr (s', w')" "end_arrays_ok (config w') s'" "config w' = config w"
proof -
  obtain now w1 where t: "GetRelativeTimeMs w = (now, w1)" by force
  let ?s = "s\<lparr>isConnect := False, endpointId := 0, timestamp := now, lastPingSentTime := 0,
             rttMillisec := g_defaultRttMs (config w), hasSocket := False, readyDisconnect := False\<rparr>"
  have w1: "config w1 = config w" using t by (auto simp: GetRelativeTimeMs_def)
  have "end_arrays_ok (config w1) ?s" using assms w1 by (simp add: end_arrays_ok_def)
  then obtain s' w' where r: "reset_states (?s, w1) = Inr (s', w')"
    "s' = ?s\<lparr>rNopsNo := new_PacketStateBase, rpsNo := new_ReliablePacketState, cacheAlreadyPackets := cacheAlreadyPackets s'\<rparr>"
    "length (cacheAlreadyPackets s') = length (cacheAlreadyPackets ?s)" "\<forall>cap \<in> set (cacheAlreadyPackets s'). empty_channel cap"
    "returned (pending_all ?s) (kept_all ?s) w1 w'"
    by (rule reset_states_effect)
  have "rpsNo s' = new_ReliablePacketState" by (subst r(2)) simp
  then have "end_arrays_ok (config w) s'"
    using r(3,4) assms by (auto simp: end_arrays_ok_def new_ReliablePacketState_def arrays_ok_def empty_channel_def)
  then show ?thesis using that r(1,5) t w1 by (simp add: Session_Reset_def returned_def)
qed

text \<open>A session with one packet in flight and one early packet, for the witness.\<close>

definition busy_session :: Session where
  "busy_session = (new_Session default_config)\<lparr>
     rpsNo := new_ReliablePacketState\<lparr>pendingPackets := (replicate 64 no_pending)[1 := no_pending\<lparr>pp_buffer := Some 3, pp_sequenceNo := 1\<rparr>]\<rparr>\<rparr>"

theorem reset_returns_everything_witness:
  "\<exists>s' w'. Session_Reset (busy_session, new_World default_config (\<lambda>_. 0) (\<lambda>_. None)) = Inr (s', w')
     \<and> rpsNo s' = new_ReliablePacketState \<and> unmarked w' 3"
proof -
  let ?w = "new_World default_config (\<lambda>_. 0) (\<lambda>_. None)"
  have "end_arrays_ok default_config (new_Session default_config)" by (rule end_arrays_ok_new) (simp add: default_config_def)
  then have "end_arrays_ok (config ?w) busy_session"
    by (simp add: end_arrays_ok_def busy_session_def new_World_def del: replicate.simps)
  moreover have "\<exists>pp \<in> set ((replicate 64 no_pending)[1 := no_pending\<lparr>pp_buffer := Some 3, pp_sequenceNo := 1\<rparr>]). pp_buffer pp = Some 3"
    by (rule bexI [OF _ set_update_memI]) simp_all
  then have "3 \<in> pending_all busy_session"
    by (simp add: pending_all_def pending_bufs_def busy_session_def del: replicate.simps set_update_distinct)
  ultimately show ?thesis using reset_returns_everything [of ?w busy_session] by blast
qed

end
