(* ===== verification/Dubu_Service.thy ===== *)
theory Dubu_Service
  imports Dubu_Directory Dubu_Wire Dubu_Reset
begin

text \<open>
  What the server as a whole guarantees: its directory of sessions stays consistent, a connection request is
  answered with the session's id, a worker only touches the sessions it owns, datagrams are routed to the
  owner's bounded queue, and silent sessions are removed.
\<close>

section \<open>The directory\<close>


section \<open>Connecting\<close>

lemma CreateSession_wire: "CreateSession a sv w = Inr (p, sv1, w1) \<Longrightarrow> wire w1 = wire w"
  by (auto simp: CreateSession_def SetSockAddr_def GetRelativeTimeMs_def Let_def split: prod.splits)

lemma CreateSession_fresh:
  assumes "CreateSession a sv w = Inr (p, sv1, w1)" "sessionHeap sv1 p = Some s"
  shows "GetSession (endpointId s) sv = None" "sessionMap sv1 = insort_key fst (endpointId s, p) (sessionMap sv)"
proof -
  from assms obtain i ds where "GenerateId (sessionMap sv) (draws sv) = Inr (i, ds)" "endpointId s = i"
    "sessionMap sv1 = insort_key fst (i, p) (sessionMap sv)"
    by (auto simp: CreateSession_def AddSession_def Let_def upd_session_def SetSockAddr_def SetTimestamp_def SetSocket_def
        SetSessionId_def split: prod.splits)
  then show "GetSession (endpointId s) sv = None" "sessionMap sv1 = insort_key fst (endpointId s, p) (sessionMap sv)"
    using GenerateId_fresh by (auto simp: GetSession_def map_of_eq_None_iff)
qed

lemma Server_ConnectMessage_wire:
  assumes "Server_ConnectMessage s w = Inr w'"
  obtains d where "wire w' = wire w @ [(addr s, d)]" "checksum_ok d 24" "flags (get_header d) = flag_value SESSION"
    "hSessionId (get_header d) = endpointId s"
proof -
  obtain h h0 where h: "wire w' = wire w @ [(addr s, header_bytes h)]" "checksum_ok (header_bytes h) 24"
    "h = (h0\<lparr>flags := flag_value SESSION, hSessionId := endpointId s, hSequenceNo := 0, hTimestamp := 0\<rparr>)
      \<lparr>checksum := checksum h, totalSize := 24\<rparr>"
    using send_header_wire [OF assms [unfolded Server_ConnectMessage_def]] by metis
  have "flags h = flag_value SESSION" "hSessionId h = endpointId s" by (subst h(3), simp)+
  then show ?thesis using that [of "header_bytes h"] h(1,2) get_header_header_bytes [of h "[]"] by simp
qed

text \<open>
  C18. A connection request is always answered: the reply goes to the requesting address, has a valid
  checksum, and carries the id of a live session with that address. A known address gets the id it
  already has and nothing changes; a new one gets a fresh id.
\<close>

theorem connection_answered:
  assumes "directory_ok sv" and "accept_session opb from (sv, w) = Inr (sv', w')"
  shows "\<exists>p s d. sessionHeap sv' p = Some s \<and> addr s = from \<and> GetSession (endpointId s) sv' = Some p
    \<and> wire w' = wire w @ [(from, d)] \<and> checksum_ok d 24 \<and> flags (get_header d) = flag_value SESSION
    \<and> hSessionId (get_header d) = endpointId s
    \<and> (if peerMap sv (PeerKey from) = None then GetSession (endpointId s) sv = None else sv' = sv)"
proof (cases "peerMap sv (PeerKey from)")
  case None
  then obtain p sv1 w1 where cr: "CreateSession from sv w = Inr (p, sv1, w1)"
    using assms(2) by (auto simp: accept_session_def)
  define s where s: "s = the (sessionHeap sv1 p)"
  define w2 where "w2 = w1\<lparr>packets := (packets w1)(opb := (packets w1 opb)\<lparr>obuffer :=
     set_header ((get_header (obuffer (packets w1 opb)))\<lparr>hSessionId := endpointId s\<rparr>) (obuffer (packets w1 opb))\<rparr>)\<rparr>"
  then have w2: "wire w2 = wire w1" by simp
  have cm: "Server_ConnectMessage s w2 = Inr w'"
    and sv': "sv' = sv1\<lparr>peerMap := (peerMap sv1)(PeerKey from \<mapsto> \<lparr>peer_key = PeerKey from, peer_addr = from, peer_session = p\<rparr>)\<rparr>"
    using assms(2) None cr by (auto simp: accept_session_def Let_def s w2_def)
  have h: "sessionHeap sv1 p = Some s" "addr s = from" using directory_ok_create(2) [OF assms(1) None cr] s by auto
  note fr = CreateSession_fresh [OF cr h(1)]
  obtain d where "wire w' = wire w2 @ [(addr s, d)]" "checksum_ok d 24" "flags (get_header d) = flag_value SESSION"
    "hSessionId (get_header d) = endpointId s" by (rule Server_ConnectMessage_wire [OF cm])
  moreover have "GetSession (endpointId s) sv' = Some p"
  proof -
    have "directory_ok sv'" unfolding sv' by (rule directory_ok_create(1) [OF assms(1) None cr])
    then have "distinct (map fst (sessionMap sv'))" by (rule directory_ok_distinct)
    then show ?thesis by (simp add: GetSession_def sv' fr(2) set_insort_key)
  qed
  ultimately show ?thesis using None h w2 CreateSession_wire [OF cr] fr(1) by (intro exI [of _ p] exI [of _ s] exI [of _ d]) (auto simp: sv')
next
  case (Some peer)
  have dir: "directory (sessionMap sv) (idents sv) (peerMap sv)" using assms(1) by (simp add: directory_ok_def)
  then obtain i where i: "idents sv (peer_session peer) = Some (i, peer_addr peer)" "PeerKey (peer_addr peer) = PeerKey from"
    using Some unfolding directory_def by blast
  then obtain s where s: "sessionHeap sv (peer_session peer) = Some s" "endpointId s = i" "addr s = from"
    by (auto simp: idents_of_def identity_def PeerKey_inject)
  then have cm: "Server_ConnectMessage s w = Inr w'" "sv' = sv" using assms(2) Some by (auto simp: accept_session_def)
  have "peer_session peer \<in> set (map snd (sessionMap sv))" using dir i unfolding directory_def by blast
  then obtain j where "(j, peer_session peer) \<in> set (sessionMap sv)" by auto
  then have "(i, peer_session peer) \<in> set (sessionMap sv)" using directory_entry [OF dir] i by (metis option.inject prod.inject)
  then have "GetSession i sv = Some (peer_session peer)" using directory_distinct [OF dir] by (simp add: GetSession_def)
  moreover obtain d where "wire w' = wire w @ [(addr s, d)]" "checksum_ok d 24" "flags (get_header d) = flag_value SESSION"
    "hSessionId (get_header d) = endpointId s" by (rule Server_ConnectMessage_wire [OF cm(1)])
  ultimately show ?thesis using s cm(2) Some by (intro exI [of _ "peer_session peer"] exI [of _ s] exI [of _ d]) auto
qed

section \<open>Confinement of workers\<close>

lemma upd_session_other: "q \<noteq> p \<Longrightarrow> sessionHeap (upd_session p s sv) q = sessionHeap sv q"
  by (simp add: upd_session_def)

lemma upd_session_map [simp]: "sessionMap (upd_session p s sv) = sessionMap sv" "workers (upd_session p s sv) = workers sv"
  "GetSession i (upd_session p s sv) = GetSession i sv"
  by (simp_all add: upd_session_def GetSession_def)

lemma move_session_confined:
  assumes ok: "directory_ok sv" and r: "move_session i from (sv, w) = Inr (go, sv', w')"
  shows "sessionMap sv' = sessionMap sv \<and> (\<forall>q. GetSession i sv \<noteq> Some q \<longrightarrow> sessionHeap sv' q = sessionHeap sv q)"
proof (cases "GetSession i sv = None \<or> peerMap sv (PeerKey from) \<noteq> None")
  case True
  then show ?thesis using r by (auto simp: move_session_def split: option.splits)
next
  case False
  then obtain p where p: "GetSession i sv = Some p" and new: "peerMap sv (PeerKey from) = None" by auto
  obtain s where s: "sessionHeap sv p = Some s"
    "peerMap sv (PeerKey (addr s)) = Some \<lparr>peer_key = PeerKey (addr s), peer_addr = addr s, peer_session = p\<rparr>"
    using directory_lookup [OF ok p] by blast
  then show ?thesis using r p new by (auto simp: move_session_def upd_session_def split: prod.splits)
qed


lemma RemoveSession_effect:
  assumes ok: "directory_ok sv" and r: "RemoveSession i (sv, w) = Inr (sv', w')"
  shows "sessionMap sv' = filter (\<lambda>e. fst e \<noteq> i) (sessionMap sv)"
    and "\<And>q s. sessionHeap sv q = Some s \<Longrightarrow> endpointId s \<noteq> i \<Longrightarrow> sessionHeap sv' q = Some s"
    and "\<And>q s. sessionHeap sv' q = Some s \<Longrightarrow> sessionHeap sv q = Some s"
proof -
  have "sessionMap sv' = filter (\<lambda>e. fst e \<noteq> i) (sessionMap sv)
    \<and> (\<forall>q s. sessionHeap sv q = Some s \<longrightarrow> endpointId s \<noteq> i \<longrightarrow> sessionHeap sv' q = Some s)
    \<and> (\<forall>q s. sessionHeap sv' q = Some s \<longrightarrow> sessionHeap sv q = Some s)"
  proof (cases "GetSession i sv")
    case None
    then have "filter (\<lambda>e. fst e \<noteq> i) (sessionMap sv) = sessionMap sv"
      by (auto simp: GetSession_def map_of_eq_None_iff filter_id_conv rev_image_eqI)
    then show ?thesis using r None by (auto simp: RemoveSession_def)
  next
    case (Some p)
    then obtain s where s: "sessionHeap sv p = Some s" "endpointId s = i" using directory_lookup [OF ok] by blast
    have sv': "sv' = (Manager_RemoveSession i (sv\<lparr>peerMap := (peerMap sv)(PeerKey (addr s) := None)\<rparr>))
        \<lparr>sessionHeap := (sessionHeap sv)(p := None), sessionPool := ObjectPool_Push p (sessionPool sv)\<rparr>"
      using r Some s by (auto simp: RemoveSession_def DestroySession_def Manager_RemoveSession_def)
    then show ?thesis using s by (auto simp: Manager_RemoveSession_def split: if_splits)
  qed
  then show "sessionMap sv' = filter (\<lambda>e. fst e \<noteq> i) (sessionMap sv)"
    "\<And>q s. sessionHeap sv q = Some s \<Longrightarrow> endpointId s \<noteq> i \<Longrightarrow> sessionHeap sv' q = Some s"
    "\<And>q s. sessionHeap sv' q = Some s \<Longrightarrow> sessionHeap sv q = Some s" by blast+
qed

lemma remove_all_effect:
  assumes "directory_ok sv" "remove_all is (sv, w) = Inr (sv', w')"
  shows "sessionMap sv' = filter (\<lambda>e. fst e \<notin> set is) (sessionMap sv)
    \<and> (\<forall>q s. sessionHeap sv q = Some s \<and> endpointId s \<notin> set is \<longrightarrow> sessionHeap sv' q = Some s)"
  using assms
proof (induction "is" arbitrary: sv w)
  case (Cons i "is")
  from Cons.prems(2) obtain sv1 w1 sv2 w2 where
    one: "(case GetSession i sv of None \<Rightarrow> Inr (sv, w)
        | Some p \<Rightarrow> (case sessionHeap sv p of None \<Rightarrow> Inl NullPointer
             | Some s \<Rightarrow> andThen (Server_DisconnectMessage s w) (\<lambda>w1. Inr (upd_session p (Session_Disconnect s) sv, w1)))) = Inr (sv1, w1)"
    and rm: "RemoveSession i (sv1, w1) = Inr (sv2, w2)" and rest: "remove_all is (sv2, w2) = Inr (sv', w')"
    by auto
  have id: "identity (Session_Disconnect s) = identity s" for s :: Session by (simp add: Session_Disconnect_def identity_def)
  have sv1: "directory_ok sv1 \<and> sessionMap sv1 = sessionMap sv
    \<and> (\<forall>q s. sessionHeap sv q = Some s \<and> endpointId s \<noteq> i \<longrightarrow> sessionHeap sv1 q = Some s)"
  proof (cases "GetSession i sv")
    case None
    then show ?thesis using one Cons.prems(1) by auto
  next
    case (Some p)
    then obtain s where s: "sessionHeap sv p = Some s" "endpointId s = i" using directory_lookup [OF Cons.prems(1)] by blast
    then have "sv1 = upd_session p (Session_Disconnect s) sv" using one Some by auto
    then show ?thesis using directory_ok_upd_session [OF Cons.prems(1) s(1) id] s by (auto simp: upd_session_def)
  qed
  then have ok2: "directory_ok sv2" using RemoveSession_directory [OF _ rm] by blast
  note ef = RemoveSession_effect [OF conjunct1 [OF sv1] rm]
  have "sessionMap sv' = filter (\<lambda>e. fst e \<notin> set is) (filter (\<lambda>e. fst e \<noteq> i) (sessionMap sv))"
    using Cons.IH [OF ok2 rest] ef(1) sv1 by simp
  then show ?case using Cons.IH [OF ok2 rest] ef(2) sv1 by (auto intro: filter_cong)
qed auto

text \<open>The sessions a check has to remove, and what \<open>check_all\<close> makes of them.\<close>

definition due :: "Config \<Rightarrow> nat \<Rightarrow> nat \<Rightarrow> u32 \<Rightarrow> (ptr \<rightharpoonup> Session) \<Rightarrow> u32 \<times> ptr \<Rightarrow> bool" where
  "due cfg n num now heap e = (case heap (snd e) of None \<Rightarrow> False
     | Some s \<Rightarrow> unat (endpointId s) mod n = num \<and> isConnect s \<and> \<not> awaysConnect s
         \<and> (g_defaultDisconnectTimeoutMs cfg < now - timestamp s \<or> readyDisconnect s))"

lemma send_header_rx_world: "send_header to f w = Inr w' \<Longrightarrow> rx_world w' = rx_world w"
  by (auto simp: send_header_def seal_header_def store_packet_def Let_def frame_simps split: prod.splits
      dest!: rx_world_send(2) rx_world_Pop(1))

lemma check_session_config:
  assumes "check_session n num now e (removed, sv, w) = Inr (removed', sv', w')"
  shows "config w' = config w"
proof -
  have cfg: "config a = config b" if "rx_world a = rx_world b" for a b using that by (simp add: rx_world_def)
  have sp: "config w1 = config w0" if "SendPing s w0 = Inr (s1, w1)" for s s1 w0 w1
    using that by (auto simp: SendPing_def AccSequnceNo_def Let_def split: prod.splits
        dest!: send_header_rx_world [THEN cfg] rx_world_Pop(2) [THEN cfg])
  have rp: "config w1 = config w0" if "RepeatMessageAll d (s, w0) = Inr (s1, w1)" for d s s1 w0 w1
    using calmD [OF RepeatMessageAll_calm that] by (simp add: quiet_def)
  show ?thesis using assms
    by (cases e) (auto simp: check_session_def Let_def split: option.splits if_splits dest!: sp rp)
qed

lemma check_all_effect:
  assumes "directory_ok sv" "set es \<subseteq> set (sessionMap sv)" "distinct (map snd es)"
    and "check_all n num now es (removed, sv, w) = Inr (removed', sv', w')"
  shows "removed' = removed @ take (64 - length removed) (map fst (filter (due (config w) n num now (sessionHeap sv)) es))
    \<and> sessionMap sv' = sessionMap sv
    \<and> (\<forall>q s. sessionHeap sv q = Some s \<and> unat (endpointId s) mod n \<noteq> num \<longrightarrow> sessionHeap sv' q = Some s)"
  using assms
proof (induction es arbitrary: removed sv w)
  case (Cons e es)
  obtain i p where e: "e = (i, p)" by force
  from Cons.prems(4) obtain rem1 sv1 w1 where one: "check_session n num now (i, p) (removed, sv, w) = Inr (rem1, sv1, w1)"
    and rest: "check_all n num now es (rem1, sv1, w1) = Inr (removed', sv', w')" by (auto simp: e)
  have d1: "directory_ok sv1 \<and> workers sv1 = workers sv \<and> sessionMap sv1 = sessionMap sv"
    by (rule check_session_directory [OF Cons.prems(1) one])
  have cfg: "config w1 = config w" by (rule check_session_config [OF one])
  have ih: "removed' = rem1 @ take (64 - length rem1) (map fst (filter (due (config w) n num now (sessionHeap sv1)) es))
    \<and> sessionMap sv' = sessionMap sv1
    \<and> (\<forall>q s. sessionHeap sv1 q = Some s \<and> unat (endpointId s) mod n \<noteq> num \<longrightarrow> sessionHeap sv' q = Some s)"
    using Cons.IH [OF _ _ _ rest] d1 Cons.prems(2,3) cfg by simp
  have same: "filter (due (config w) n num now (sessionHeap sv1)) es = filter (due (config w) n num now (sessionHeap sv)) es"
    if "\<And>q. q \<noteq> p \<Longrightarrow> sessionHeap sv1 q = sessionHeap sv q"
    by (rule filter_cong) (use that Cons.prems(3) in \<open>auto simp: due_def e image_iff\<close>)
  show ?case using one
  proof (cases rule: check_session_effect)
    case (1 s)
    then have "\<not> due (config w) n num now (sessionHeap sv) e" by (auto simp: e due_def)
    then show ?thesis using ih 1 by simp
  next
    case (2 s s2)
    have "filter (due (config w) n num now (sessionHeap sv1)) es = filter (due (config w) n num now (sessionHeap sv)) es"
      by (rule same) (simp add: 2(5) upd_session_def)
    moreover have "due (config w) n num now (sessionHeap sv) e \<longleftrightarrow>
        g_defaultDisconnectTimeoutMs (config w) < now - timestamp s \<or> readyDisconnect s"
      using 2 by (simp add: due_def e)
    moreover have "\<forall>q t. sessionHeap sv q = Some t \<and> unat (endpointId t) mod n \<noteq> num \<longrightarrow> sessionHeap sv1 q = Some t"
      using 2 by (auto simp: upd_session_def)
    ultimately show ?thesis using ih 2(7) d1 by (auto simp: e take_Cons')
  qed
qed simp

lemma directory_distinct_snd:
  assumes "directory_ok sv"
  shows "distinct (map snd (sessionMap sv))"
proof -
  have dir: "directory (sessionMap sv) (idents sv) (peerMap sv)" using assms by (simp add: directory_ok_def)
  have "inj_on snd (set (sessionMap sv))"
    using directory_unique_session [OF dir] by (auto simp: inj_on_def)
  then show ?thesis using directory_ok_distinct [OF assms] by (simp add: distinct_map)
qed

lemma CheckSessions_effect:
  assumes ok: "directory_ok sv" and r: "CheckSessions num (sv, w) = Inr (sv', w')" and ne: "workers sv \<noteq> []"
  obtains sv1 :: Server where "let removed = take 64 (map fst (filter (due (config w) (length (workers sv)) num (clock w (tick w)) (sessionHeap sv)) (sessionMap sv)))
      in sessionMap sv' = filter (\<lambda>e. fst e \<notin> set removed) (sessionMap sv)
       \<and> (\<forall>q s. sessionHeap sv1 q = Some s \<and> endpointId s \<notin> set removed \<longrightarrow> sessionHeap sv' q = Some s)"
    "\<forall>q s. sessionHeap sv q = Some s \<and> unat (endpointId s) mod length (workers sv) \<noteq> num \<longrightarrow> sessionHeap sv1 q = Some s"
proof -
  obtain removed sv1 w2 where ca: "check_all (length (workers sv)) num (clock w (tick w)) (sessionMap sv) ([], sv, w\<lparr>tick := Suc (tick w)\<rparr>) = Inr (removed, sv1, w2)"
    and ra: "remove_all removed (sv1, w2) = Inr (sv', w')"
    using r ne by (auto simp: CheckSessions_def GetRelativeTimeMs_def)
  have ef: "removed = take 64 (map fst (filter (due (config w) (length (workers sv)) num (clock w (tick w)) (sessionHeap sv)) (sessionMap sv)))"
    "sessionMap sv1 = sessionMap sv"
    "\<forall>q s. sessionHeap sv q = Some s \<and> unat (endpointId s) mod length (workers sv) \<noteq> num \<longrightarrow> sessionHeap sv1 q = Some s"
    using check_all_effect [OF ok subset_refl directory_distinct_snd [OF ok] ca] by auto
  have "directory_ok sv1" using check_all_directory [OF ok ca] by blast
  from remove_all_effect [OF this ra] show ?thesis using that [of sv1] ef by (simp add: Let_def)
qed

text \<open>
  The periodic check of a worker leaves the sessions of the other workers alone: it neither changes
  nor removes a session whose id another worker owns.
\<close>

theorem check_confined:
  assumes "directory_ok sv" and "CheckSessions num (sv, w) = Inr (sv', w')"
    and "sessionHeap sv p = Some s" and "unat (endpointId s) mod length (workers sv) \<noteq> num"
  shows "sessionHeap sv' p = Some s"
proof (cases "workers sv = []")
  case True
  then show ?thesis using assms by (simp add: CheckSessions_def)
next
  case False
  let ?n = "length (workers sv)"
  define removed where "removed = take 64 (map fst (filter (due (config w) ?n num (clock w (tick w)) (sessionHeap sv)) (sessionMap sv)))"
  obtain sv1 :: Server where a': "let removed = removed in sessionMap sv' = filter (\<lambda>e. fst e \<notin> set removed) (sessionMap sv)
      \<and> (\<forall>q s. sessionHeap sv1 q = Some s \<and> endpointId s \<notin> set removed \<longrightarrow> sessionHeap sv' q = Some s)"
    and b: "\<forall>q s. sessionHeap sv q = Some s \<and> unat (endpointId s) mod ?n \<noteq> num \<longrightarrow> sessionHeap sv1 q = Some s"
    unfolding removed_def by (rule CheckSessions_effect [OF assms(1,2) False])
  have a: "\<forall>q s. sessionHeap sv1 q = Some s \<and> endpointId s \<notin> set removed \<longrightarrow> sessionHeap sv' q = Some s"
    using a' unfolding Let_def by (rule conjunct2)
  have "unat i mod ?n = num" if r: "i \<in> set removed" for i
  proof -
    have "i \<in> set (map fst (filter (due (config w) ?n num (clock w (tick w)) (sessionHeap sv)) (sessionMap sv)))"
      using r unfolding removed_def by (rule in_set_takeD)
    then obtain q where iq: "(i, q) \<in> set (sessionMap sv)" and d: "due (config w) ?n num (clock w (tick w)) (sessionHeap sv) (i, q)"
      by auto
    have "GetSession i sv = Some q" using iq directory_ok_distinct [OF assms(1)] by (simp add: GetSession_def)
    then show ?thesis using d directory_lookup [OF assms(1)] by (fastforce simp: due_def split: option.splits)
  qed
  then show ?thesis using a b assms(3,4) by blast
qed


section \<open>Routing\<close>

text \<open>
  C23. A received datagram goes to the queue of the worker that owns its session id or its buffer goes back
  to the pool, never both: the queue is never longer than 8192, only that worker's queue changes, and the
  datagram is queued exactly when its size field is right and there is room.
\<close>

theorem datagram_routed:
  assumes "Server_OnRecvFrom from p n (sv, w) = Inr (sv', w')" and "workers sv \<noteq> []"
    and "\<forall>wk \<in> set (workers sv). length (queue wk) \<le> 8192"
  shows "let header = get_header (obuffer (packets w p)); target = unat (hSessionId header) mod length (workers sv) in
     (\<forall>wk \<in> set (workers sv'). length (queue wk) \<le> 8192) \<and> length (workers sv') = length (workers sv)
     \<and> (\<forall>k. k \<noteq> target \<longrightarrow> k < length (workers sv) \<longrightarrow> workers sv' ! k = workers sv ! k)
     \<and> (if totalSize header = n \<and> length (queue (workers sv ! target)) < 8192
        then queue (workers sv' ! target) = queue (workers sv ! target) @ [\<lparr>job_key = hSessionId header, job_opb = p\<rparr>] \<and> w' = w
        else workers sv' = workers sv \<and> w' = PushPacketBuffer p w)"
proof -
  let ?h = "get_header (obuffer (packets w p))" let ?t = "unat (hSessionId ?h) mod length (workers sv)"
  have t: "?t < length (workers sv)" using assms(2) by simp
  have ws: "(workers sv)[?t := workers sv ! ?t] = workers sv" by simp
  show ?thesis using assms t ws
    by (auto simp: Server_OnRecvFrom_def Worker_Push_def Let_def dest!: set_update_subset_insert [THEN subsetD] split: if_splits)
qed

section \<open>An example server\<close>

lemma send_header_total:
  assumes "ioError w = (\<lambda>_. None)"
  obtains w' where "send_header to f w = Inr w'"
proof -
  have "ioError (snd (PopPacketBuffer w)) = (\<lambda>_. None)" using assms by (simp add: pool_defs Let_def split_beta)
  then show ?thesis using that
    by (simp add: send_header_def SendTo_def WSASendTo_def wsa_ok_def SetType_def seal_header_def store_packet_def Let_def split_beta)
qed

lemma DestroySession_total:
  assumes "sessionHeap sv p = Some s" "end_arrays_ok (config w) s"
  obtains sv' w' where "DestroySession p (sv, w) = Inr (sv', w')"
proof -
  let ?s = "if isConnect s then Session_Disconnect s else s"
  have "end_arrays_ok (config w) ?s" using assms(2) by (simp add: end_arrays_ok_def Session_Disconnect_def)
  then obtain s1 w1 where 1: "Session_Reset (?s, w) = Inr (s1, w1)" "end_arrays_ok (config w1) s1"
    by (metis Session_Reset_again)
  obtain s2 w2 where "Session_Reset (s1, w1) = Inr (s2, w2)" by (metis Session_Reset_again [OF 1(2)])
  then show ?thesis using that assms(1) 1(1) by (simp add: DestroySession_def)
qed

lemma RepeatMessageAll_idle:
  assumes "\<not> IsRepeat (rpsNo s)" "\<forall>cap \<in> set (cacheAlreadyPackets s). \<not> IsRepeat (reliablePacketState cap)"
    "length (cacheAlreadyPackets s) = Suc (unat (g_channelMask (config w)))"
  shows "RepeatMessageAll d (s, w) = Inr (s, w\<lparr>tick := Suc (tick w)\<rparr>)"
proof -
  have "over_channels (repeat_channel a d now) cs (s, v) = Inr (s, v)" if "\<forall>c \<in> set cs. c < length (cacheAlreadyPackets s)" for cs a now v
    using that
  proof (induction cs)
    case (Cons c cs)
    then have "\<not> IsRepeat (reliablePacketState (channel s c))" using assms(2) by simp
    then show ?case using Cons by (simp add: repeat_channel_def repeat_if_pending_def upd_channel_def)
  qed simp
  from this [of "[0..<Suc (unat (g_channelMask (config w)))]"] show ?thesis
    using assms(1,3) by (simp add: RepeatMessageAll_def repeat_if_pending_def GetRelativeTimeMs_def del: upt_Suc)
qed

definition example_addr :: SOCKADDR_IN where
  "example_addr = \<lparr>sin_addr = 1, sin_port = 2\<rparr>"

definition example_session :: Session where
  "example_session = (new_Session default_config)\<lparr>endpointId := 7, addr := example_addr, isConnect := True, hasSocket := True\<rparr>"

definition example_server :: Server where
  "example_server = (new_Server [9] 2)\<lparr>sessionMap := [(7, 0)], sessionHeap := [0 \<mapsto> example_session],
     peerMap := [PeerKey example_addr \<mapsto> \<lparr>peer_key = PeerKey example_addr, peer_addr = example_addr, peer_session = 0\<rparr>],
     sessionPool := \<lparr>freeList = [], brk = 1\<rparr>\<rparr>"

definition pong_packet :: bytes where
  "pong_packet = header_bytes \<lparr>totalSize = 24, packetCode = 0, flags = flag_value PONG, hSessionId = 7,
     hSequenceNo = 0, hTimestamp = 0, checksum = 0, chunkInfo = \<lparr>ci_size = 0, ci_flag = 0\<rparr>\<rparr>"

definition late_world :: World where
  "late_world = (new_World default_config (\<lambda>_. 40000) (\<lambda>_. None))\<lparr>packets := (\<lambda>_. \<lparr>otype = 1, remoteAddr = example_addr,
     addrSize = 16, osize = 24, obuffer = pong_packet\<rparr>)\<rparr>"

lemma directory_ok_example: "directory_ok example_server"
  by (simp add: directory_ok_def directory_def example_server_def new_Server_def manager_ok_def example_session_def identity_def)

lemma example_session_simps:
  "sessionHeap example_server = [0 \<mapsto> example_session]" "GetSession 7 example_server = Some 0" "workers example_server = replicate 2 new_SessionWorker"
  "endpointId example_session = 7" "isConnect example_session" "\<not> awaysConnect example_session" "timestamp example_session = 0"
  "sessionMap example_server = [(7, 0)]" "config late_world = default_config" "clock late_world n = 40000" "ioError late_world = (\<lambda>_. None)"
  "unat (7 :: u32) mod 2 = Suc 0"
  by (simp_all add: example_server_def GetSession_def new_Server_def example_session_def new_Session_def late_world_def new_World_def)


theorem connection_answered_witness:
  "\<exists>sv' w' p s. accept_session 0 example_addr (example_server, late_world) = Inr (sv', w')
     \<and> sessionHeap sv' p = Some s \<and> endpointId s = 7 \<and> length (wire w') = Suc (length (wire late_world))"
proof -
  obtain w' where "Server_ConnectMessage example_session late_world = Inr w'"
    unfolding Server_ConnectMessage_def by (rule send_header_total [OF example_session_simps(11)])
  then have ac: "accept_session 0 example_addr (example_server, late_world) = Inr (example_server, w')"
    by (simp add: accept_session_def example_server_def)
  obtain p s d where "sessionHeap example_server p = Some s" "wire w' = wire late_world @ [(example_addr, d)]"
    using connection_answered [OF directory_ok_example ac] by blast
  then show ?thesis using ac by (intro exI conjI) (auto simp: example_session_simps split: if_splits)
qed


theorem check_confined_witness:
  "\<exists>sv' w'. CheckSessions 0 (example_server, late_world) = Inr (sv', w') \<and> sessionHeap sv' 0 = Some example_session"
proof -
  obtain sv' w' where r: "CheckSessions 0 (example_server, late_world) = Inr (sv', w')"
    by (simp add: CheckSessions_def example_session_simps GetRelativeTimeMs_def check_session_def)
  have "sessionHeap sv' 0 = Some example_session"
    by (rule check_confined [OF directory_ok_example r]) (simp_all add: example_session_simps)
  then show ?thesis using r by blast
qed


theorem datagram_routed_witness:
  "\<exists>sv'. Server_OnRecvFrom example_addr 0 24 (example_server, late_world) = Inr (sv', late_world)
     \<and> queue (workers sv' ! 1) = [\<lparr>job_key = 7, job_opb = 0\<rparr>]"
proof -
  have h: "totalSize (get_header (obuffer (packets late_world 0))) = 24" "hSessionId (get_header (obuffer (packets late_world 0))) = 7"
    by code_simp+
  obtain sv' w' where r: "Server_OnRecvFrom example_addr 0 24 (example_server, late_world) = Inr (sv', w')"
    by (simp add: Server_OnRecvFrom_def Let_def example_session_simps h split_beta)
  have q: "\<forall>wk \<in> set (workers example_server). length (queue wk) \<le> 8192" by (simp add: example_session_simps new_SessionWorker_def)
  have "workers example_server \<noteq> []" by (simp add: example_session_simps)
  from datagram_routed [OF r this q] show ?thesis
    using r by (simp add: h example_session_simps new_SessionWorker_def Let_def)
qed

end
