(* ===== verification/Dubu_Threads.thy ===== *)
theory Dubu_Threads
  imports Dubu_Service
begin

text \<open>
  \<^verbatim>\<open>ThreadManager.h/.cpp\<close>: how the hardware threads are divided between receiving, sessions and logic, and the
  loops these threads run; the shut-down of the server, \<^verbatim>\<open>Server::~Server\<close>. The loops of the application are
  arguments of any type: the manager only stores them and starts threads with them.
\<close>

section \<open>Thread manager\<close>

record ('r, 's, 'l) ThreadManager =
  recvLoop :: "'r option"
  sessionLoop :: "'s option"
  rThreads :: "'r list"
  sThreads :: "('s \<times> u32) list"
  lThreads :: "'l list"
  totalThread :: u32
  rthreadSize :: u32
  sthreadSize :: u32
  lthreadSize :: u32

definition new_ThreadManager :: "('r, 's, 'l) ThreadManager" where
  "new_ThreadManager = \<lparr>recvLoop = None, sessionLoop = None, rThreads = [], sThreads = [], lThreads = [],
     totalThread = 0, rthreadSize = 0, sthreadSize = 0, lthreadSize = 0\<rparr>"

text \<open>A null function selects the default loop.\<close>

definition SetRecvLoop :: "'r \<Rightarrow> 'r option \<Rightarrow> ('r, 's, 'l) ThreadManager \<Rightarrow> ('r, 's, 'l) ThreadManager" where
  "SetRecvLoop deflt loop tm = tm\<lparr>recvLoop := Some (case loop of Some f \<Rightarrow> f | None \<Rightarrow> deflt)\<rparr>"

definition SetSessionLoop :: "'s \<Rightarrow> 's option \<Rightarrow> ('r, 's, 'l) ThreadManager \<Rightarrow> ('r, 's, 'l) ThreadManager" where
  "SetSessionLoop deflt loop tm = tm\<lparr>sessionLoop := Some (case loop of Some f \<Rightarrow> f | None \<Rightarrow> deflt)\<rparr>"

text \<open>\<open>hw\<close> is what \<^verbatim>\<open>hardware_concurrency\<close> returns. The workers of the server are appended here.\<close>

definition ThreadManager_Start ::
  "u32 \<Rightarrow> 'l \<Rightarrow> ('r, 's, 'l) ThreadManager \<Rightarrow> Server \<Rightarrow> (('r, 's, 'l) ThreadManager \<times> Server) result" where
  "ThreadManager_Start hw logicLoop tm sv =
     (case (recvLoop tm, sessionLoop tm) of
        (Some rl, Some sl) \<Rightarrow>
          (let total = (if hw < 4 then 4 else hw);
               remain = total;
               sessionThreads = total div 2;
               remain = remain - sessionThreads;
               logicCount = remain div 2;
               remain = remain - logicCount;
               recvCount = remain;
               st = sThreads tm @ map (\<lambda>i. (sl, of_nat i)) [0..<unat sessionThreads];
               lt = lThreads tm @ replicate (unat logicCount) logicLoop;
               rt = rThreads tm @ replicate (unat recvCount) rl
           in Inr (tm\<lparr>totalThread := total, sThreads := st, lThreads := lt, rThreads := rt,
                      sthreadSize := of_nat (length st), lthreadSize := of_nat (length lt),
                      rthreadSize := of_nat (length rt)\<rparr>,
                   sv\<lparr>workers := workers sv @ replicate (unat sessionThreads) new_SessionWorker\<rparr>))
      | _ \<Rightarrow> Inl AssertFailed)"

definition ThreadManager_Join :: "('r, 's, 'l) ThreadManager \<Rightarrow> ('r, 's, 'l) ThreadManager" where
  "ThreadManager_Join tm = tm\<lparr>rThreads := [], sThreads := [], lThreads := []\<rparr>"

text \<open>One turn of the default loops; the first component says whether the loop has ended.\<close>

definition recv_turn :: "(ptr \<times> int) option \<Rightarrow> Server \<times> World \<Rightarrow> (bool \<times> Server \<times> World) result" where
  "recv_turn completion sw =
     (if isRunning (fst sw) then andThen (Server_Dispatch completion sw) (\<lambda>sw'. Inr (False, sw'))
      else Inr (True, sw))"

definition session_turn :: "unit Session_ext handlers \<Rightarrow> nat \<Rightarrow> Server \<times> World \<Rightarrow> (bool \<times> Server \<times> World) result" where
  "session_turn hs idx sw =
     (case sw of (sv, w) \<Rightarrow>
        if length (workers sv) \<le> idx then Inl AssertFailed
        else if isStart (workers sv ! idx) then andThen (Process hs idx (sv, w)) (\<lambda>sw'. Inr (False, sw'))
        else let (wk, w1) = Worker_ReturnBuffers (workers sv ! idx) w
             in Inr (True, sv\<lparr>workers := (workers sv)[idx := wk]\<rparr>, w1))"

text \<open>\<^verbatim>\<open>Server::Run\<close> on the completions to come.\<close>

fun Server_Run :: "(ptr \<times> int) option list \<Rightarrow> server_step" where
  "Server_Run [] sw = (if isRunning (fst sw) then Inl LoopBound else Inr sw)"
| "Server_Run (c # cs) sw = (if isRunning (fst sw) then andThen (Server_Dispatch c sw) (Server_Run cs) else Inr sw)"

section \<open>Shut-down of the server\<close>

fun destroy_sessions :: "(u32 \<times> ptr) list \<Rightarrow> server_step" where
  "destroy_sessions [] sw = Inr sw"
| "destroy_sessions ((i, p) # m) sw = andThen (DestroySession p sw) (destroy_sessions m)"

definition Server_destructor ::
  "ptr list \<Rightarrow> ptr list \<Rightarrow> RUDPSocket \<Rightarrow> Server \<times> World \<Rightarrow> (RUDPSocket \<times> Server \<times> World) result" where
  "Server_destructor posted cancelled sock sw =
     (case sw of (sv, w) \<Rightarrow>
        let sv1 = Server_Stop sv
        in andThen (destroy_sessions (sessionMap sv1) (sv1, w)) (\<lambda>(sv2, w2).
             let (sock', w3) = EndServer posted cancelled sock w2 in Inr (sock', sv2, w3)))"

section \<open>The division of threads\<close>

lemma split_arith:
  fixes n :: nat
  assumes "4 \<le> n"
  shows "n div 2 + (n - n div 2) div 2 + (n - n div 2 - (n - n div 2) div 2) = n"
    "(n - n div 2) div 2 = (n + 1) div 4" "0 < (n - n div 2) div 2" "0 < n - n div 2 - (n - n div 2) div 2"
proof -
  show "n div 2 + (n - n div 2) div 2 + (n - n div 2 - (n - n div 2) div 2) = n" by linarith
  have "n - n div 2 = (n + 1) div 2" by linarith
  then show "(n - n div 2) div 2 = (n + 1) div 4" by (simp add: div_mult2_eq [symmetric])
  show "0 < (n - n div 2) div 2" "0 < n - n div 2 - (n - n div 2) div 2" using assms by linarith+
qed

text \<open>
  C38. Whatever the hardware reports, starting gives every hardware thread (at least four) exactly one task, every kind
  of task at least one thread, and every session worker exactly one session thread: half of the threads serve
  sessions, and a quarter, rounded to the nearest, run the logic.
\<close>
theorem thread_split:
  assumes "ThreadManager_Start hw ll tm (new_Server ids 0) = Inr (tm', sv)"
    "rThreads tm = []" "sThreads tm = []" "lThreads tm = []"
  shows "unat (totalThread tm') = max 4 (unat hw) \<and>
    unat (sthreadSize tm') + unat (lthreadSize tm') + unat (rthreadSize tm') = unat (totalThread tm') \<and>
    unat (sthreadSize tm') = unat (totalThread tm') div 2 \<and> unat (lthreadSize tm') = (unat (totalThread tm') + 1) div 4 \<and>
    0 < unat (lthreadSize tm') \<and> 0 < unat (rthreadSize tm') \<and>
    length (workers sv) = unat (sthreadSize tm') \<and> map (unat \<circ> snd) (sThreads tm') = [0..<length (workers sv)]"
proof -
  define total where "total = (if hw < 4 then 4 else hw)"
  obtain rl sl where l: "recvLoop tm = Some rl" "sessionLoop tm = Some sl"
    using assms(1) by (auto simp: ThreadManager_Start_def split: option.splits)
  have t: "unat total = max 4 (unat hw)" by (auto simp: total_def word_less_nat_alt)
  have s: "unat (total div 2) = unat total div 2" by (simp add: unat_div)
  have r1: "unat (total - total div 2) = unat total - unat total div 2"
    using s by (subst unat_sub) (auto simp: word_le_nat_alt)
  have lg: "unat ((total - total div 2) div 2) = (unat total - unat total div 2) div 2" using r1 by (simp add: unat_div)
  have r2: "unat (total - total div 2 - (total - total div 2) div 2) =
      unat total - unat total div 2 - (unat total - unat total div 2) div 2"
    using r1 lg by (subst unat_sub) (auto simp: word_le_nat_alt)
  have small: "unat total < 2 ^ 32" using unsigned_less [of total] by simp
  have o: "unat (of_nat n :: u32) = n" if "n \<le> unat total" for n
    using that small by (simp add: unat_of_nat)
  have tm': "totalThread tm' = total" "sthreadSize tm' = of_nat (unat (total div 2))"
      "lthreadSize tm' = of_nat (unat ((total - total div 2) div 2))"
      "rthreadSize tm' = of_nat (unat (total - total div 2 - (total - total div 2) div 2))"
      "sThreads tm' = map (\<lambda>i. (sl, of_nat i)) [0..<unat (total div 2)]"
      "workers sv = replicate (unat (total div 2)) new_SessionWorker"
    using assms l by (auto simp: ThreadManager_Start_def Let_def total_def [symmetric] new_Server_def)
  have "map (unat \<circ> snd) (sThreads tm') = [0..<unat total div 2]"
    unfolding tm'(5) s by (rule nth_equalityI) (auto simp: o)
  moreover have "unat (sthreadSize tm') = unat total div 2" unfolding tm' s by (rule o) simp
  moreover have "unat (lthreadSize tm') = (unat total - unat total div 2) div 2" unfolding tm' lg by (rule o) linarith
  moreover have "unat (rthreadSize tm') = unat total - unat total div 2 - (unat total - unat total div 2) div 2"
    unfolding tm' r2 by (rule o) linarith
  moreover have "length (workers sv) = unat total div 2" unfolding tm' s by simp
  moreover have "4 \<le> unat total" using t by simp
  ultimately show ?thesis using t split_arith [of "unat total"] unfolding tm'(1) by (metis (no_types))
qed

theorem thread_split_witness:
  "\<exists>tm' sv. ThreadManager_Start 7 () ((SetSessionLoop () None (SetRecvLoop () None new_ThreadManager)) :: (unit, unit, unit) ThreadManager)
      (new_Server [] 0) = Inr (tm', sv) \<and> sthreadSize tm' = 3 \<and> lthreadSize tm' = 2 \<and> length (workers sv) = 3"
proof -
  let ?tm = "SetSessionLoop () None (SetRecvLoop () None new_ThreadManager) :: (unit, unit, unit) ThreadManager"
  obtain tm' sv where st: "ThreadManager_Start 7 () ?tm (new_Server [] 0) = Inr (tm', sv)"
    by (simp add: ThreadManager_Start_def SetSessionLoop_def SetRecvLoop_def Let_def)
  from thread_split [OF st] have "unat (sthreadSize tm') = 3" "unat (lthreadSize tm') = 2" "length (workers sv) = 3"
    by (auto simp: SetSessionLoop_def SetRecvLoop_def new_ThreadManager_def)
  then show ?thesis using st by (auto simp: word_unat_eq_iff)
qed

section \<open>Stopping\<close>

lemma fold_push_jobs:
  "inUse (fold (\<lambda>job. PushPacketBuffer (job_opb job)) js w) = inUse w - job_opb ` set js"
  "pm_list (packetManager (fold (\<lambda>job. PushPacketBuffer (job_opb job)) js w)) = pm_list (packetManager w) @ map job_opb js"
  by (induction js arbitrary: w) (auto simp: PushPacketBuffer_def)

text \<open>
  C39. Stopping reaches every thread: after \<^verbatim>\<open>Stop\<close> on a running server the next turn of every receive loop and of
  every session loop is its last, whatever is still queued, and the session loop gives all queued buffers back to
  the pool.
\<close>
theorem stopped_loops_end:
  assumes "isRunning sv" "idx < length (workers sv)"
  shows "recv_turn c (Server_Stop sv, w) = Inr (True, Server_Stop sv, w) \<and>
    (\<exists>sv' w'. session_turn hs idx (Server_Stop sv, w) = Inr (True, sv', w') \<and> queue (workers sv' ! idx) = [] \<and>
       pm_list (packetManager w') = pm_list (packetManager w) @ map job_opb (queue (workers sv ! idx)) \<and>
       inUse w' = inUse w - job_opb ` set (queue (workers sv ! idx)) \<and>
       (\<forall>j. j \<noteq> idx \<longrightarrow> workers sv' ! j = workers (Server_Stop sv) ! j))"
  using assms
  by (simp add: recv_turn_def Server_Stop_def session_turn_def Worker_Stop_def Worker_ReturnBuffers_def fold_push_jobs)

theorem stopped_loops_end_witness:
  "\<exists>sv' w'. session_turn None 1 (Server_Stop ((new_Server [] 2)\<lparr>isRunning := True\<rparr>), late_world) = Inr (True, sv', w')"
  using stopped_loops_end [of "(new_Server [] 2)\<lparr>isRunning := True\<rparr>" 1 None late_world None]
  by (auto simp: new_Server_def)

lemma DestroySession_frame:
  assumes "DestroySession p (sv, w) = Inr (sv', w')"
  shows "sessionHeap sv' = (sessionHeap sv)(p := None)"
  using assms by (auto simp: DestroySession_def split: option.splits)

lemma DestroySession_config:
  assumes "sessionHeap sv p = Some s" "end_arrays_ok (config w) s" "DestroySession p (sv, w) = Inr (sv', w')"
  shows "config w' = config w"
proof -
  let ?s = "if isConnect s then Session_Disconnect s else s"
  have "end_arrays_ok (config w) ?s" using assms(2) by (simp add: end_arrays_ok_def Session_Disconnect_def)
  then obtain s1 w1 where 1: "Session_Reset (?s, w) = Inr (s1, w1)" "end_arrays_ok (config w1) s1" "config w1 = config w"
    by (rule Session_Reset_again)
  obtain s2 w2 where "Session_Reset (s1, w1) = Inr (s2, w2)" "config w2 = config w1" by (rule Session_Reset_again [OF 1(2)])
  then show ?thesis using assms(1,3) 1 by (auto simp: DestroySession_def)
qed

lemma destroy_sessions_effect:
  assumes "distinct (map snd m)" "\<forall>(i, p) \<in> set m. \<exists>s. sessionHeap sv p = Some s \<and> end_arrays_ok (config w) s"
  shows "\<exists>sv' w'. destroy_sessions m (sv, w) = Inr (sv', w') \<and>
    (\<forall>p. sessionHeap sv' p = (if p \<in> snd ` set m then None else sessionHeap sv p))"
  using assms
proof (induction m arbitrary: sv w)
  case (Cons e m)
  obtain i p where e: "e = (i, p)" by force
  obtain s where s: "sessionHeap sv p = Some s" "end_arrays_ok (config w) s" using Cons.prems(2) e by auto
  obtain sv1 w1 where d: "DestroySession p (sv, w) = Inr (sv1, w1)" using DestroySession_total [OF s] by blast
  note h = DestroySession_frame [OF d] and c = DestroySession_config [OF s d]
  have "\<forall>(j, q) \<in> set m. \<exists>s. sessionHeap sv1 q = Some s \<and> end_arrays_ok (config w1) s"
    using Cons.prems e unfolding h c by (force simp: image_iff)
  then obtain sv2 w2 where "destroy_sessions m (sv1, w1) = Inr (sv2, w2)"
      "\<forall>q. sessionHeap sv2 q = (if q \<in> snd ` set m then None else sessionHeap sv1 q)"
    using Cons.IH [of sv1 w1] Cons.prems(1) by auto
  then show ?case using d e h by auto
qed simp

lemma destroy_sessions_running: "destroy_sessions m (sv, w) = Inr (sv', w') \<Longrightarrow> isRunning sv' = isRunning sv"
proof (induction m arbitrary: sv w)
  case (Cons e m)
  then show ?case by (cases e) (fastforce simp: DestroySession_def split: option.splits)
qed simp



end
