(* ===== verification/Dubu_RWLock.thy ===== *)
theory Dubu_RWLock
  imports Dubu_Prelude
begin

text \<open>
  The reader-writer spin lock of \<^verbatim>\<open>RWLock.h/.cpp\<close>, one atomic instruction at a time. A
  \<^verbatim>\<open>ReadLockGuard\<close> or \<^verbatim>\<open>WriteLockGuard\<close> is one participant: its constructor runs the lock loop, its
  destructor unlocks. Any number of guards run interleaved. The relaxed load of the read loop may return
  any value (the memory model lets it be an old one), and a weak compare-and-exchange may fail for no reason.
\<close>

section \<open>Model\<close>

definition EMPTY :: u32 where "EMPTY = 0x0000000"
definition READ :: u32 where "READ = 0x000FFFF"
definition WRITE :: u32 where "WRITE = 0xFFF0000"
definition MAX_SPIN_COUNT :: u32 where "MAX_SPIN_COUNT = 500"

text \<open>Where a guard is: before its lock call, at the load or the exchange of the read loop with its turn \<open>i\<close>,
  at the exchange of the write loop, holding the lock, or stopped by the assertion of \<^verbatim>\<open>ReadUnLock\<close>.\<close>

datatype guard_pc =
    Outside
  | ReadLoad u32
  | ReadExchange u32 u32
  | Reading
  | WriteExchange u32
  | Writing
  | Asserted

text \<open>One turn of the loop of \<^verbatim>\<open>ReadLock\<close>: \<open>seen\<close> is what the load returns, \<open>weak\<close> says that the exchange fails
  spuriously. When the turns are used up the thread yields and starts over.\<close>

fun ReadLock :: "u32 \<Rightarrow> bool \<Rightarrow> u32 \<Rightarrow> guard_pc \<Rightarrow> u32 \<times> guard_pc" where
  "ReadLock seen weak count (ReadLoad i) =
     (if i < MAX_SPIN_COUNT then
        let expected = seen
        in if expected AND WRITE \<noteq> 0 then (count, ReadLoad (i + 1)) else (count, ReadExchange i expected)
      else (count, ReadLoad 0))"
| "ReadLock seen weak count (ReadExchange i expected) =
     (let desired = expected + 1
      in if count = expected \<and> \<not> weak then (desired, Reading) else (count, ReadLoad (i + 1)))"
| "ReadLock seen weak count pc = (count, pc)"

fun ReadUnLock :: "u32 \<Rightarrow> u32 \<times> guard_pc" where
  "ReadUnLock count = (let prev = count in (count - 1, if prev AND READ > 0 then Outside else Asserted))"

fun WriteLock :: "bool \<Rightarrow> u32 \<Rightarrow> guard_pc \<Rightarrow> u32 \<times> guard_pc" where
  "WriteLock weak count (WriteExchange i) =
     (if i < MAX_SPIN_COUNT then
        if count = EMPTY \<and> \<not> weak then (WRITE, Writing) else (count, WriteExchange (i + 1))
      else (count, WriteExchange 0))"
| "WriteLock weak count pc = (count, pc)"

fun WriteUnLock :: "u32 \<Rightarrow> u32 \<times> guard_pc" where
  "WriteUnLock count = (EMPTY, Outside)"

record Lock =
  lock_count :: u32
  guards :: "nat \<Rightarrow> guard_pc"

definition new_Lock :: Lock where
  "new_Lock = \<lparr>lock_count = 0, guards = (\<lambda>g. Outside)\<rparr>"

definition set_guard :: "Lock \<Rightarrow> nat \<Rightarrow> u32 \<times> guard_pc \<Rightarrow> Lock" where
  "set_guard l g r = \<lparr>lock_count = fst r, guards = (guards l)(g := snd r)\<rparr>"

text \<open>One step of guard \<open>g\<close>: begin a constructor, do one instruction of its loop, or run the destructor.\<close>

inductive lock_step :: "Lock \<Rightarrow> nat \<Rightarrow> Lock \<Rightarrow> bool" where
  read_begin: "guards l g = Outside \<Longrightarrow> lock_step l g (set_guard l g (lock_count l, ReadLoad 0))"
| write_begin: "guards l g = Outside \<Longrightarrow> lock_step l g (set_guard l g (lock_count l, WriteExchange 0))"
| read_turn: "lock_step l g (set_guard l g (ReadLock seen weak (lock_count l) (guards l g)))"
| write_turn: "lock_step l g (set_guard l g (WriteLock weak (lock_count l) (guards l g)))"
| read_end: "guards l g = Reading \<Longrightarrow> lock_step l g (set_guard l g (ReadUnLock (lock_count l)))"
| write_end: "guards l g = Writing \<Longrightarrow> lock_step l g (set_guard l g (WriteUnLock (lock_count l)))"

text \<open>A failed assertion ends the process, so nothing runs after it.\<close>

inductive lock_run :: "Lock \<Rightarrow> bool" where
  start: "lock_run new_Lock"
| step: "lock_run l \<Longrightarrow> \<forall>h. guards l h \<noteq> Asserted \<Longrightarrow> lock_step l g l' \<Longrightarrow> lock_run l'"

section \<open>The invariant\<close>

definition readers :: "Lock \<Rightarrow> nat set" where
  "readers l = {g. guards l g = Reading}"

definition writers :: "Lock \<Rightarrow> nat set" where
  "writers l = {g. guards l g = Writing}"

text \<open>The abstract lock: the guards that read, or the one that writes.\<close>

datatype holders = Shared "nat set" | Exclusive nat

inductive holders_step :: "holders \<Rightarrow> nat \<Rightarrow> holders \<Rightarrow> bool" where
  "holders_step h g h"
| "g \<notin> R \<Longrightarrow> holders_step (Shared R) g (Shared (insert g R))"
| "g \<in> R \<Longrightarrow> holders_step (Shared R) g (Shared (R - {g}))"
| "holders_step (Shared {}) g (Exclusive g)"
| "holders_step (Exclusive g) g (Shared {})"

inductive holds :: "Lock \<Rightarrow> holders \<Rightarrow> bool" where
  shared: "finite (readers l) \<Longrightarrow> writers l = {} \<Longrightarrow> unat (lock_count l) = card (readers l) \<Longrightarrow>
    card (readers l) \<le> 0x10000 \<Longrightarrow> holds l (Shared (readers l))"
| exclusive: "writers l = {g} \<Longrightarrow> readers l = {} \<Longrightarrow> lock_count l = WRITE \<Longrightarrow> holds l (Exclusive g)"

inductive_cases holds_sharedE: "holds l (Shared R)"
inductive_cases holds_exclusiveE: "holds l (Exclusive g)"

lemma set_guard_simps [simp]:
  "lock_count (set_guard l g r) = fst r"
  "guards (set_guard l g r) = (guards l)(g := snd r)"
  by (simp_all add: set_guard_def)

lemma set_guard_same [simp]: "set_guard l g (lock_count l, guards l g) = l"
  by (cases l) (simp add: set_guard_def)

lemma readers_update:
  "readers (set_guard l g (c, pc)) = (if pc = Reading then insert g (readers l) else readers l - {g})"
  by (auto simp: readers_def)

lemma writers_update:
  "writers (set_guard l g (c, pc)) = (if pc = Writing then insert g (writers l) else writers l - {g})"
  by (auto simp: writers_def)

lemma READ_mask: "(c :: u32) AND READ = take_bit 16 c"
  by (simp add: READ_def take_bit_eq_mask mask_eq_exp_minus_1)

lemma count_below:
  assumes "(c :: u32) AND WRITE = 0" "unat c \<le> 0x10000"
  shows "unat c < 0x10000"
proof (rule ccontr)
  assume "\<not> unat c < 0x10000"
  with assms(2) have "c = 0x10000" by (simp add: word_unat_eq_iff)
  with assms(1) show False by (simp add: WRITE_def)
qed

lemma count_free: "unat (c :: u32) < 0x10000 \<Longrightarrow> c AND WRITE = 0"
proof -
  assume a: "unat c < 0x10000"
  have "c = take_bit 16 c"
    using a by (simp add: word_unat_eq_iff unsigned_take_bit_eq take_bit_nat_eq_self)
  then have "c AND WRITE = c AND (mask 16 AND WRITE)"
    by (metis and.assoc take_bit_eq_mask)
  also have "mask 16 AND WRITE = (0 :: u32)" by (simp add: WRITE_def mask_eq_exp_minus_1)
  finally show ?thesis by simp
qed

lemma holds_read_enter:
  assumes "holds l h" "guards l g \<notin> {Reading, Writing}" "lock_count l AND WRITE = 0"
  shows "\<exists>h'. holds (set_guard l g (lock_count l + 1, Reading)) h' \<and> holders_step h g h'"
  using assms(1)
proof cases
  case shared
  have lt: "unat (lock_count l) < 0x10000" using count_below [OF assms(3)] shared by simp
  have new: "g \<notin> readers l" using assms(2) by (simp add: readers_def)
  have "unat (lock_count l + 1) = Suc (unat (lock_count l))" using lt by (simp add: unat_word_ariths)
  moreover have "g \<notin> writers l" using assms(2) by (simp add: writers_def)
  ultimately have "holds (set_guard l g (lock_count l + 1, Reading)) (Shared (insert g (readers l)))"
    using holds.shared [of "set_guard l g (lock_count l + 1, Reading)"] shared new lt
    by (simp add: readers_update writers_update)
  then show ?thesis using shared new by (auto intro: holders_step.intros)
next
  case exclusive
  then show ?thesis using assms(3) by (simp add: WRITE_def)
qed

lemma holds_quiet:
  assumes "holds l h" "guards l g \<notin> {Reading, Writing}" "pc \<notin> {Reading, Writing}"
  shows "\<exists>h'. holds (set_guard l g (lock_count l, pc)) h' \<and> holders_step h g h'"
proof -
  have r: "readers (set_guard l g (c, pc)) = readers l" for c using assms(2,3) by (auto simp: readers_def)
  have w: "writers (set_guard l g (c, pc)) = writers l" for c using assms(2,3) by (auto simp: writers_def)
  from assms(1) have "holds (set_guard l g (lock_count l, pc)) h"
  proof cases
    case shared
    then show ?thesis using holds.shared [of "set_guard l g (lock_count l, pc)"] by (simp add: r w)
  next
    case (exclusive k)
    then show ?thesis using holds.exclusive [of "set_guard l g (lock_count l, pc)" k] by (simp add: r w)
  qed
  then show ?thesis by (blast intro: holders_step.intros)
qed

lemma holds_write_enter:
  assumes "holds l h" "guards l g \<notin> {Reading, Writing}" "lock_count l = EMPTY"
  shows "\<exists>h'. holds (set_guard l g (WRITE, Writing)) h' \<and> holders_step h g h'"
  using assms(1)
proof cases
  case shared
  then have none: "readers l = {}" using assms(3) by (simp add: EMPTY_def)
  have "holds (set_guard l g (WRITE, Writing)) (Exclusive g)"
    using shared none by (intro holds.exclusive) (auto simp: readers_update writers_update)
  then show ?thesis using shared none by (auto intro: holders_step.intros)
next
  case exclusive
  then show ?thesis using assms(3) by (simp add: EMPTY_def WRITE_def)
qed

lemma holds_read_leave:
  assumes "holds l h" "guards l g = Reading" "pc \<notin> {Reading, Writing}"
  shows "\<exists>h'. holds (set_guard l g (lock_count l - 1, pc)) h' \<and> holders_step h g h'"
  using assms(1)
proof cases
  case shared
  have mem: "g \<in> readers l" using assms(2) by (simp add: readers_def)
  then have "0 < card (readers l)" using shared(2) card_gt_0_iff by blast
  then have "unat (lock_count l - 1) = unat (lock_count l) - 1"
    using shared by (metis One_nat_def Suc_leI unat_1 unat_sub word_le_nat_alt)
  moreover have "card (readers l - {g}) = card (readers l) - 1" using mem shared by simp
  ultimately have "holds (set_guard l g (lock_count l - 1, pc)) (Shared (readers l - {g}))"
    using holds.shared [of "set_guard l g (lock_count l - 1, pc)"] shared assms(3)
    by (simp add: readers_update writers_update)
  then show ?thesis using shared mem by (auto intro: holders_step.intros)
next
  case exclusive
  then show ?thesis using assms(2) by (auto simp: readers_def)
qed

lemma holds_write_leave:
  assumes "holds l h" "guards l g = Writing"
  shows "\<exists>h'. holds (set_guard l g (EMPTY, Outside)) h' \<and> holders_step h g h'"
  using assms(1)
proof cases
  case shared
  then show ?thesis using assms(2) by (auto simp: writers_def)
next
  case (exclusive k)
  then have "k = g" using assms(2) by (auto simp: writers_def)
  have "holds (set_guard l g (EMPTY, Outside)) (Shared {})"
    using holds.shared [of "set_guard l g (EMPTY, Outside)"] exclusive \<open>k = g\<close>
    by (simp add: readers_update writers_update EMPTY_def)
  then show ?thesis using exclusive \<open>k = g\<close> by (auto intro: holders_step.intros)
qed

text \<open>The exchange of the read loop only runs on an expected value without a write bit.\<close>

definition loads_ok :: "Lock \<Rightarrow> bool" where
  "loads_ok l = (\<forall>g i expected. guards l g = ReadExchange i expected \<longrightarrow> expected AND WRITE = 0)"

lemma loads_ok_step: "lock_step l g l' \<Longrightarrow> loads_ok l \<Longrightarrow> loads_ok l'"
proof (induction rule: lock_step.induct)
  case (read_turn l g seen weak)
  then show ?case by (cases "guards l g") (auto simp: loads_ok_def Let_def)
next
  case (write_turn l g weak)
  then show ?case by (cases "guards l g") (auto simp: loads_ok_def)
qed (auto simp: loads_ok_def Let_def)

lemma holds_turn_read:
  assumes "holds l h" "loads_ok l"
  shows "\<exists>h'. holds (set_guard l g (ReadLock seen weak (lock_count l) (guards l g))) h' \<and> holders_step h g h'"
proof (cases "guards l g")
  case (ReadLoad i)
  then show ?thesis using holds_quiet [OF assms(1), of g] by (auto simp: Let_def)
next
  case (ReadExchange i expected)
  then show ?thesis
    using holds_quiet [OF assms(1), of g] holds_read_enter [OF assms(1), of g] assms(2)
    by (auto simp: Let_def loads_ok_def)
qed (use assms(1) holders_step.intros(1) set_guard_same [of l g] in \<open>auto simp del: set_guard_same\<close>)

lemma holds_turn_write:
  assumes "holds l h"
  shows "\<exists>h'. holds (set_guard l g (WriteLock weak (lock_count l) (guards l g))) h' \<and> holders_step h g h'"
proof (cases "guards l g")
  case (WriteExchange i)
  then show ?thesis using holds_quiet [OF assms(1), of g] holds_write_enter [OF assms(1), of g] by auto
qed (use assms(1) holders_step.intros(1) set_guard_same [of l g] in \<open>auto simp del: set_guard_same\<close>)

lemma holds_step:
  assumes "lock_step l g l'" "holds l h" "loads_ok l"
  shows "\<exists>h'. holds l' h' \<and> holders_step h g h'"
  using assms
proof cases
  case read_begin
  then show ?thesis using holds_quiet [OF assms(2), of g] by simp
next
  case write_begin
  then show ?thesis using holds_quiet [OF assms(2), of g] by simp
next
  case (read_turn seen weak)
  then show ?thesis using holds_turn_read [OF assms(2,3)] by simp
next
  case (write_turn weak)
  then show ?thesis using holds_turn_write [OF assms(2)] by simp
next
  case read_end
  then show ?thesis using holds_read_leave [OF assms(2), of g] by (simp add: Let_def)
next
  case write_end
  then show ?thesis using holds_write_leave [OF assms(2), of g] by simp
qed

lemma holds_new: "holds new_Lock (Shared {})"
  using holds.shared [of new_Lock] by (simp add: readers_def writers_def new_Lock_def)

lemma lock_run_ok: "lock_run l \<Longrightarrow> (\<exists>h. holds l h) \<and> loads_ok l"
proof (induction rule: lock_run.induct)
  case start
  then show ?case using holds_new by (auto simp: loads_ok_def new_Lock_def)
next
  case (step l g l')
  then show ?case using holds_step loads_ok_step by blast
qed

section \<open>What the lock guarantees\<close>

text \<open>
  C25. While one guard holds the lock for writing, no other guard holds it, for reading or for writing, whatever
  the interleaving, the number of guards, stale loads and spurious failures.
\<close>
theorem lock_exclusion:
  assumes "lock_run l" "guards l g = Writing" "k \<noteq> g"
  shows "guards l k \<noteq> Reading \<and> guards l k \<noteq> Writing"
proof -
  obtain h where "holds l h" using lock_run_ok [OF assms(1)] by blast
  then show ?thesis
  proof cases
    case shared
    then show ?thesis using assms(2) by (auto simp: writers_def)
  next
    case (exclusive w)
    then have "g = w" using assms(2) by (auto simp: writers_def)
    then show ?thesis using exclusive assms(3) by (auto simp: writers_def readers_def)
  qed
qed

lemma write_lock_run:
  "lock_run (set_guard (set_guard new_Lock g (0, WriteExchange 0)) g (WRITE, Writing))"
proof -
  let ?l = "set_guard new_Lock g (0, WriteExchange 0)"
  have "lock_step new_Lock g ?l" using lock_step.write_begin [of new_Lock g] by (simp add: new_Lock_def)
  then have run: "lock_run ?l" by (intro lock_run.step [OF lock_run.start]) (auto simp: new_Lock_def)
  have "WriteLock False (lock_count ?l) (guards ?l g) = (WRITE, Writing)"
    by (simp add: EMPTY_def MAX_SPIN_COUNT_def)
  then have "lock_step ?l g (set_guard ?l g (WRITE, Writing))" using lock_step.write_turn [of ?l g False] by simp
  then show ?thesis using run by (intro lock_run.step [OF run]) (auto simp: new_Lock_def)
qed

theorem lock_exclusion_witness:
  "\<exists>l. lock_run l \<and> guards l 0 = Writing \<and> guards l 1 \<noteq> Reading \<and> guards l 1 \<noteq> Writing"
proof -
  let ?l = "set_guard (set_guard new_Lock 0 (0, WriteExchange 0)) 0 (WRITE, Writing)"
  show ?thesis using lock_exclusion [of ?l 0 1] write_lock_run [of 0] by (intro exI [of _ ?l]) simp
qed

text \<open>
  C26. The counter implements the abstract reader-writer lock: in every state it represents the set of readers
  (as its size, at most 65536) or the one writer (as \<^verbatim>\<open>WRITE\<close>), and every instruction is a step of the abstract lock
  (a reader enters or leaves, a writer enters the empty lock or leaves) or leaves it unchanged.
\<close>
theorem lock_refines:
  assumes "lock_run l" "lock_step l g l'"
  shows "\<exists>h h'. holds l h \<and> holds l' h' \<and> holders_step h g h'"
  using lock_run_ok [OF assms(1)] holds_step [OF assms(2)] by blast

theorem lock_refines_witness:
  "\<exists>l'. lock_step new_Lock 0 l' \<and> (\<exists>h h'. holds new_Lock h \<and> holds l' h' \<and> holders_step h 0 h')"
proof -
  have "lock_step new_Lock 0 (set_guard new_Lock 0 (0, ReadLoad 0))"
    using lock_step.read_begin [of new_Lock 0] by (simp add: new_Lock_def)
  then show ?thesis using lock_refines [OF lock_run.start] by blast
qed

subsection \<open>The assertion of \<^verbatim>\<open>ReadUnLock\<close>\<close>

lemma assertion_count:
  assumes "holds l h" "guards l g = Reading" "\<not> lock_count l AND READ > 0"
  shows "card (readers l) = 0x10000"
  using assms(1)
proof cases
  case shared
  have "take_bit 16 (lock_count l) = 0" using assms(3) by (simp add: READ_mask word_gt_0)
  then have "unat (take_bit 16 (lock_count l)) = 0" by simp
  then have "take_bit 16 (unat (lock_count l)) = 0" by (simp only: unsigned_take_bit_eq)
  then have dvd: "0x10000 dvd unat (lock_count l)" by (simp add: take_bit_eq_mod mod_eq_0_iff_dvd)
  moreover have "0 < card (readers l)" using shared(2) assms(2) card_gt_0_iff by (auto simp: readers_def)
  ultimately show ?thesis using shared dvd_imp_le [OF dvd] by simp
next
  case exclusive
  then show ?thesis using assms(2) by (auto simp: readers_def)
qed

lemma asserted_step:
  assumes "lock_step l g l'" "\<forall>k. guards l k \<noteq> Asserted" "guards l' k = Asserted"
  shows "guards l k = Reading \<and> \<not> lock_count l AND READ > 0 \<and> readers l' = readers l - {k}"
  using assms
proof cases
  case (read_turn seen weak)
  then show ?thesis using assms(2,3)
    by (cases "guards l g") (auto simp: Let_def split: if_splits)
next
  case (write_turn weak)
  then show ?thesis using assms(2,3) by (cases "guards l g") (auto split: if_splits)
qed (use assms(2,3) in \<open>auto simp: Let_def readers_update split: if_splits\<close>)

text \<open>
  The assertion in \<^verbatim>\<open>ReadUnLock\<close> holds as long as fewer than 65536 guards read at the same time: when it
  fails, 65535 other guards are still reading.
\<close>
theorem read_unlock_assertion:
  assumes "lock_run l" "guards l g = Asserted"
  shows "card (readers l) = 65535"
  using assms
proof (induction rule: lock_run.induct)
  case start
  then show ?case by (simp add: new_Lock_def)
next
  case (step l k l')
  obtain h where h: "holds l h" using lock_run_ok [OF step(1)] by blast
  have a: "guards l g = Reading" "\<not> lock_count l AND READ > 0" "readers l' = readers l - {g}"
    using asserted_step [OF step(3,2) step.prems] by blast+
  then show ?case using assertion_count [OF h a(1,2)] by (simp add: readers_def)
qed

lemma read_lock_run:
  assumes "lock_run l" "\<forall>k. guards l k \<noteq> Asserted" "guards l g = Outside" "lock_count l AND WRITE = 0"
  shows "\<exists>l'. lock_run l' \<and> guards l' = (guards l)(g := Reading) \<and> lock_count l' = lock_count l + 1"
proof -
  let ?a = "set_guard l g (lock_count l, ReadLoad 0)"
  let ?b = "set_guard ?a g (lock_count l, ReadExchange 0 (lock_count l))"
  let ?c = "set_guard ?b g (lock_count l + 1, Reading)"
  have a: "lock_run ?a" using lock_run.step [OF assms(1,2) lock_step.read_begin [OF assms(3)]] .
  have "ReadLock (lock_count l) False (lock_count ?a) (guards ?a g) = (lock_count l, ReadExchange 0 (lock_count l))"
    using assms(4) by (simp add: MAX_SPIN_COUNT_def Let_def)
  then have "lock_step ?a g ?b" using lock_step.read_turn [of ?a g "lock_count l" False] by metis
  then have b: "lock_run ?b" by (intro lock_run.step [OF a]) (use assms(2) in auto)
  have "ReadLock 0 False (lock_count ?b) (guards ?b g) = (lock_count l + 1, Reading)" by simp
  then have "lock_step ?b g ?c" using lock_step.read_turn [of ?b g 0 False] by metis
  then have "lock_run ?c" by (intro lock_run.step [OF b]) (use assms(2) in auto)
  then show ?thesis by (intro exI [of _ ?c]) simp
qed

lemma many_readers:
  "n \<le> 65536 \<Longrightarrow> \<exists>l. lock_run l \<and> guards l = (\<lambda>g. if g < n then Reading else Outside) \<and> lock_count l = of_nat n"
proof (induction n)
  case 0
  then show ?case using lock_run.start by (auto simp: new_Lock_def)
next
  case (Suc n)
  then obtain l where l: "lock_run l" "guards l = (\<lambda>g. if g < n then Reading else Outside)" "lock_count l = of_nat n"
    by auto
  have calm: "\<forall>k. guards l k \<noteq> Asserted" "guards l n = Outside" by (simp_all add: l(2))
  have "lock_count l AND WRITE = 0" using Suc.prems l(3) by (intro count_free) (simp add: unat_of_nat)
  then obtain l' where "lock_run l'" "guards l' = (guards l)(n := Reading)" "lock_count l' = lock_count l + 1"
    using read_lock_run [OF l(1) calm] by auto
  moreover have "(guards l)(n := Reading) = (\<lambda>g. if g < Suc n then Reading else Outside)"
    unfolding l(2) by (auto simp: fun_eq_iff)
  ultimately show ?case using l(3) by auto
qed

theorem read_unlock_assertion_witness:
  "\<exists>l. lock_run l \<and> guards l 0 = Asserted \<and> card (readers l) = 65535"
proof -
  obtain l where l: "lock_run l" "guards l = (\<lambda>g. if g < 65536 then Reading else Outside)" "lock_count l = of_nat 65536"
    using many_readers [of 65536] by auto
  have "lock_step l 0 (set_guard l 0 (ReadUnLock (lock_count l)))" using lock_step.read_end [of l 0] l(2) by simp
  then have run: "lock_run (set_guard l 0 (ReadUnLock (lock_count l)))"
    by (intro lock_run.step [OF l(1)]) (auto simp: l(2))
  have "guards (set_guard l 0 (ReadUnLock (lock_count l))) 0 = Asserted" by (simp add: l(3) READ_def)
  then show ?thesis using read_unlock_assertion [OF run] run by blast
qed

subsection \<open>Acquisition\<close>

definition solo_read :: "u32 \<times> guard_pc \<Rightarrow> u32 \<times> guard_pc" where
  "solo_read s = (case s of (count, pc) \<Rightarrow> ReadLock count False count pc)"

definition solo_write :: "u32 \<times> guard_pc \<Rightarrow> u32 \<times> guard_pc" where
  "solo_write s = (case s of (count, pc) \<Rightarrow> WriteLock False count pc)"

fun wants_read :: "guard_pc \<Rightarrow> bool" where
  "wants_read (ReadLoad i) = True"
| "wants_read (ReadExchange i e) = True"
| "wants_read pc = False"

fun wants_write :: "guard_pc \<Rightarrow> bool" where
  "wants_write (WriteExchange i) = True"
| "wants_write pc = False"

lemma solo_read_load:
  assumes "count AND WRITE = 0"
  shows "(solo_read ^^ (if i < MAX_SPIN_COUNT then 2 else 3)) (count, ReadLoad i) = (count + 1, Reading)"
proof -
  have two: "(solo_read ^^ 2) (count, ReadLoad i) = (count + 1, Reading)" if "i < MAX_SPIN_COUNT" for i
    using assms that by (simp add: eval_nat_numeral solo_read_def Let_def)
  have "(solo_read ^^ Suc 2) (count, ReadLoad i) = (count + 1, Reading)" if "\<not> i < MAX_SPIN_COUNT"
    unfolding funpow_Suc_right o_apply using that two [of 0] by (simp add: solo_read_def MAX_SPIN_COUNT_def)
  then show ?thesis using two [of i] by simp
qed

lemma read_acquired:
  assumes w: "wants_read pc" "count AND WRITE = 0"
  shows "\<exists>n \<le> 4. (solo_read ^^ n) (count, pc) = (count + 1, Reading)"
proof (cases pc)
  case (ReadLoad i)
  then show ?thesis using solo_read_load [OF w(2), of i] by (intro exI conjI) auto
next
  case (ReadExchange i e)
  show ?thesis
  proof (cases "count = e")
    case True
    then have "(solo_read ^^ 1) (count, pc) = (count + 1, Reading)" using ReadExchange by (simp add: solo_read_def)
    then show ?thesis by (intro exI [of _ 1]) simp
  next
    case False
    then have "solo_read (count, pc) = (count, ReadLoad (i + 1))" using ReadExchange by (simp add: solo_read_def)
    then have "(solo_read ^^ Suc (if i + 1 < MAX_SPIN_COUNT then 2 else 3)) (count, pc) = (count + 1, Reading)"
      using solo_read_load [OF w(2), of "i + 1"] by (simp only: funpow_Suc_right o_apply)
    then show ?thesis by (intro exI [of _ "Suc (if i + 1 < MAX_SPIN_COUNT then 2 else 3)"]) simp
  qed
qed (use w in auto)

lemma write_acquired:
  assumes w: "wants_write pc" "count = EMPTY"
  shows "\<exists>n \<le> 2. (solo_write ^^ n) (count, pc) = (WRITE, Writing)"
proof -
  from w obtain i where pc: "pc = WriteExchange i" by (cases pc) auto
  have zero: "0 < MAX_SPIN_COUNT" by (simp add: MAX_SPIN_COUNT_def)
  show "\<exists>n \<le> 2. (solo_write ^^ n) (count, pc) = (WRITE, Writing)"
    using w(2) pc zero
    by (intro exI [of _ "if i < MAX_SPIN_COUNT then 1 else 2"]) (simp add: solo_write_def eval_nat_numeral)
qed

text \<open>
  C30. No guard spins on a lock that it could have: undisturbed, a guard anywhere in the loop of \<^verbatim>\<open>ReadLock\<close> holds
  the lock within four instructions when there is no writer (and room for a reader), and a guard in the loop of
  \<^verbatim>\<open>WriteLock\<close> within two when the lock is empty.
\<close>
theorem lock_acquired:
  "(wants_read pc \<and> count AND WRITE = 0 \<longrightarrow> (\<exists>n \<le> 4. (solo_read ^^ n) (count, pc) = (count + 1, Reading))) \<and>
   (wants_write pc \<and> count = EMPTY \<longrightarrow> (\<exists>n \<le> 2. (solo_write ^^ n) (count, pc) = (WRITE, Writing)))"
  using read_acquired write_acquired by blast

theorem lock_acquired_witness:
  "(\<exists>n \<le> 4. (solo_read ^^ n) (3, ReadLoad 500) = (4, Reading)) \<and>
   (\<exists>n \<le> 2. (solo_write ^^ n) (EMPTY, WriteExchange 500) = (WRITE, Writing))"
proof
  show "\<exists>n \<le> 4. (solo_read ^^ n) (3, ReadLoad 500) = (4, Reading)"
    using lock_acquired [of "ReadLoad 500" 3] by (simp add: WRITE_def)
  show "\<exists>n \<le> 2. (solo_write ^^ n) (EMPTY, WriteExchange 500) = (WRITE, Writing)"
    using lock_acquired [of "WriteExchange 500" EMPTY] by simp
qed

end
