(* ===== verification/Dubu_RingBuffer.thy ===== *)
theory Dubu_RingBuffer
  imports Dubu_Prelude
begin

text \<open>
  The lock-free ring of \<^verbatim>\<open>RingBuffer.h\<close>, a queue of 64 values for many producers and consumers, one access to
  shared memory at a time. All atomics of the code are sequentially consistent, so the accesses interleave;
  the values themselves are not atomic, and the absence of data races on them is one of the properties.
\<close>

section \<open>Model\<close>

definition RING_COUNT :: u64 where "RING_COUNT = 64"

record 'a Node =
  seq :: u64
  data :: 'a

record 'a RingBuffer =
  buffer :: "'a Node list"
  head :: u64
  tail :: u64

text \<open>The constructor; \<open>d\<close> is the default value of the element type.\<close>

definition new_RingBuffer :: "'a \<Rightarrow> 'a RingBuffer" where
  "new_RingBuffer d = \<lparr>buffer = map (\<lambda>i. \<lparr>seq = of_nat i, data = d\<rparr>) [0..<64], head = 0, tail = 0\<rparr>"

text \<open>Where a thread is: outside, before each shared access of \<^verbatim>\<open>Push\<close> and \<^verbatim>\<open>Pop\<close> with the local variables
  that are still needed, or returned.\<close>

datatype 'a ring_pc =
    Idle
  | PushLoad 'a
  | PushSeq 'a u64
  | PushExchange 'a u64
  | PushData 'a u64
  | PushStore u64
  | Pushed bool
  | PopLoad
  | PopSeq u64
  | PopExchange u64
  | PopData u64
  | PopStore u64 'a
  | Popped 'a
  | PopFailed

abbreviation node_at :: "'a RingBuffer \<Rightarrow> u64 \<Rightarrow> 'a Node" where
  "node_at rb k \<equiv> buffer rb ! unat (k mod RING_COUNT)"

definition set_node :: "'a RingBuffer \<Rightarrow> u64 \<Rightarrow> 'a Node \<Rightarrow> 'a RingBuffer" where
  "set_node rb k n = rb\<lparr>buffer := (buffer rb)[unat (k mod RING_COUNT) := n]\<rparr>"

fun Push :: "'a RingBuffer \<Rightarrow> 'a ring_pc \<Rightarrow> 'a RingBuffer \<times> 'a ring_pc" where
  "Push rb (PushLoad t) = (rb, PushSeq t (tail rb))"
| "Push rb (PushSeq t tk) =
     (let s = seq (node_at rb tk)
      in if s = tk then (rb, PushExchange t tk)
         else if s < tk then (rb, Pushed False)
         else (rb, PushLoad t))"
| "Push rb (PushExchange t tk) =
     (if tail rb = tk then (rb\<lparr>tail := tk + 1\<rparr>, PushData t tk) else (rb, PushSeq t (tail rb)))"
| "Push rb (PushData t tk) = (set_node rb tk ((node_at rb tk)\<lparr>data := t\<rparr>), PushStore tk)"
| "Push rb (PushStore tk) = (set_node rb tk ((node_at rb tk)\<lparr>seq := tk + 1\<rparr>), Pushed True)"
| "Push rb pc = (rb, pc)"

fun Pop :: "'a RingBuffer \<Rightarrow> 'a ring_pc \<Rightarrow> 'a RingBuffer \<times> 'a ring_pc" where
  "Pop rb PopLoad = (rb, PopSeq (head rb))"
| "Pop rb (PopSeq hk) =
     (let s = seq (node_at rb hk)
      in if s = hk + 1 then (rb, PopExchange hk)
         else if s < hk + 1 then (rb, PopFailed)
         else (rb, PopLoad))"
| "Pop rb (PopExchange hk) =
     (if head rb = hk then (rb\<lparr>head := hk + 1\<rparr>, PopData hk) else (rb, PopSeq (head rb)))"
| "Pop rb (PopData hk) = (rb, PopStore hk (data (node_at rb hk)))"
| "Pop rb (PopStore hk t) = (set_node rb hk ((node_at rb hk)\<lparr>seq := hk + RING_COUNT\<rparr>), Popped t)"
| "Pop rb pc = (rb, pc)"

fun at_rest :: "'a ring_pc \<Rightarrow> bool" where
  "at_rest Idle = True"
| "at_rest (Pushed b) = True"
| "at_rest (Popped t) = True"
| "at_rest PopFailed = True"
| "at_rest pc = False"

text \<open>What happened, for the statements: the values in the order in which their producers took a place
  (\<open>xs\<close>), and the values consumers returned, with the number of the place they took (\<open>ys\<close>).\<close>

fun enters :: "'a RingBuffer \<Rightarrow> 'a ring_pc \<Rightarrow> 'a list" where
  "enters rb (PushExchange t tk) = (if tail rb = tk then [t] else [])"
| "enters rb pc = []"

fun leaves :: "'a ring_pc \<Rightarrow> (u64 \<times> 'a) list" where
  "leaves (PopStore hk t) = [(hk, t)]"
| "leaves pc = []"

inductive ring_run :: "'a \<Rightarrow> 'a list \<Rightarrow> (u64 \<times> 'a) list \<Rightarrow> 'a RingBuffer \<Rightarrow> (nat \<Rightarrow> 'a ring_pc) \<Rightarrow> bool" where
  start: "ring_run d [] [] (new_RingBuffer d) (\<lambda>p. Idle)"
| call_push: "ring_run d xs ys rb pcs \<Longrightarrow> at_rest (pcs p) \<Longrightarrow> ring_run d xs ys rb (pcs(p := PushLoad t))"
| call_pop: "ring_run d xs ys rb pcs \<Longrightarrow> at_rest (pcs p) \<Longrightarrow> ring_run d xs ys rb (pcs(p := PopLoad))"
| push_step: "ring_run d xs ys rb pcs \<Longrightarrow> Push rb (pcs p) = (rb', pc') \<Longrightarrow>
    ring_run d (xs @ enters rb (pcs p)) ys rb' (pcs(p := pc'))"
| pop_step: "ring_run d xs ys rb pcs \<Longrightarrow> Pop rb (pcs p) = (rb', pc') \<Longrightarrow>
    ring_run d xs (ys @ leaves (pcs p)) rb' (pcs(p := pc'))"

section \<open>The invariant\<close>

text \<open>The place a producer has taken and not yet published, and the place a consumer has taken and not yet
  released.\<close>

fun push_claim :: "'a ring_pc \<Rightarrow> nat option" where
  "push_claim (PushData t tk) = Some (unat tk)"
| "push_claim (PushStore tk) = Some (unat tk)"
| "push_claim pc = None"

fun pop_claim :: "'a ring_pc \<Rightarrow> nat option" where
  "pop_claim (PopData hk) = Some (unat hk)"
| "pop_claim (PopStore hk t) = Some (unat hk)"
| "pop_claim pc = None"

definition sq :: "'a RingBuffer \<Rightarrow> nat \<Rightarrow> nat" where
  "sq rb k = unat (seq (buffer rb ! (k mod 64)))"

definition dt :: "'a RingBuffer \<Rightarrow> nat \<Rightarrow> 'a" where
  "dt rb k = data (buffer rb ! (k mod 64))"

abbreviation hd_of :: "'a RingBuffer \<Rightarrow> nat" where "hd_of rb \<equiv> unat (head rb)"
abbreviation tl_of :: "'a RingBuffer \<Rightarrow> nat" where "tl_of rb \<equiv> unat (tail rb)"

text \<open>Place \<open>k\<close> is the one its slot serves now, either still free for the producer of \<open>k\<close> or full with value \<open>k\<close>.\<close>

definition free_slot :: "'a RingBuffer \<Rightarrow> (nat \<Rightarrow> 'a ring_pc) \<Rightarrow> nat \<Rightarrow> bool" where
  "free_slot rb pcs k = (sq rb k = k \<and> hd_of rb \<le> k \<and> k < hd_of rb + 64 \<and>
     (tl_of rb \<le> k \<or> (\<exists>p. push_claim (pcs p) = Some k)))"

definition full_slot :: "'a list \<Rightarrow> 'a RingBuffer \<Rightarrow> (nat \<Rightarrow> 'a ring_pc) \<Rightarrow> nat \<Rightarrow> bool" where
  "full_slot xs rb pcs k = (sq rb k = Suc k \<and> k < tl_of rb \<and> tl_of rb \<le> k + 64 \<and> dt rb k = xs ! k \<and>
     (hd_of rb \<le> k \<or> (\<exists>p. pop_claim (pcs p) = Some k)))"

definition ring_slots_ok :: "'a list \<Rightarrow> 'a RingBuffer \<Rightarrow> (nat \<Rightarrow> 'a ring_pc) \<Rightarrow> bool" where
  "ring_slots_ok xs rb pcs = (\<forall>i < 64. \<exists>k. k mod 64 = i \<and> (free_slot rb pcs k \<or> full_slot xs rb pcs k))"

fun thread_ok :: "'a list \<Rightarrow> 'a RingBuffer \<Rightarrow> 'a ring_pc \<Rightarrow> bool" where
  "thread_ok xs rb (PushSeq t tk) = (unat tk \<le> tl_of rb)"
| "thread_ok xs rb (PushExchange t tk) =
    (unat tk \<le> tl_of rb \<and> (unat tk < tl_of rb \<or> sq rb (unat tk) = unat tk))"
| "thread_ok xs rb (PushData t tk) = (unat tk < tl_of rb \<and> sq rb (unat tk) = unat tk \<and> xs ! unat tk = t)"
| "thread_ok xs rb (PushStore tk) =
    (unat tk < tl_of rb \<and> sq rb (unat tk) = unat tk \<and> dt rb (unat tk) = xs ! unat tk)"
| "thread_ok xs rb (PopSeq hk) = (unat hk \<le> hd_of rb)"
| "thread_ok xs rb (PopExchange hk) =
    (unat hk \<le> hd_of rb \<and> (unat hk < hd_of rb \<or> sq rb (unat hk) = Suc (unat hk)))"
| "thread_ok xs rb (PopData hk) = (unat hk < hd_of rb \<and> sq rb (unat hk) = Suc (unat hk))"
| "thread_ok xs rb (PopStore hk t) =
    (unat hk < hd_of rb \<and> sq rb (unat hk) = Suc (unat hk) \<and> t = xs ! unat hk)"
| "thread_ok xs rb pc = True"

definition claims_ok :: "(nat \<Rightarrow> 'a ring_pc) \<Rightarrow> bool" where
  "claims_ok pcs = (\<forall>p q k. p \<noteq> q \<longrightarrow> \<not> (push_claim (pcs p) = Some k \<and> push_claim (pcs q) = Some k) \<and>
     \<not> (pop_claim (pcs p) = Some k \<and> pop_claim (pcs q) = Some k))"

definition left_ok :: "'a list \<Rightarrow> (u64 \<times> 'a) list \<Rightarrow> 'a RingBuffer \<Rightarrow> (nat \<Rightarrow> 'a ring_pc) \<Rightarrow> bool" where
  "left_ok xs ys rb pcs = (distinct (map (unat \<circ> fst) ys) \<and>
     (\<forall>(h, v) \<in> set ys. unat h < hd_of rb \<and> v = xs ! unat h) \<and>
     (\<forall>p k. pop_claim (pcs p) = Some k \<longrightarrow> k \<notin> (unat \<circ> fst) ` set ys) \<and>
     (\<forall>k < hd_of rb. k \<in> (unat \<circ> fst) ` set ys \<or> (\<exists>p. pop_claim (pcs p) = Some k)))"

definition ring_ok :: "'a list \<Rightarrow> (u64 \<times> 'a) list \<Rightarrow> 'a RingBuffer \<Rightarrow> (nat \<Rightarrow> 'a ring_pc) \<Rightarrow> bool" where
  "ring_ok xs ys rb pcs = (length (buffer rb) = 64 \<and> tl_of rb = length xs \<and> hd_of rb \<le> tl_of rb \<and>
     tl_of rb \<le> hd_of rb + 64 \<and> ring_slots_ok xs rb pcs \<and> (\<forall>p. thread_ok xs rb (pcs p)) \<and> claims_ok pcs \<and>
     left_ok xs ys rb pcs)"

lemma index_mod: "unat (k mod RING_COUNT) = unat k mod 64"
  by (simp add: RING_COUNT_def unat_mod)

lemma sq_set_node:
  "length (buffer rb) = 64 \<Longrightarrow> sq (set_node rb k n) j = (if j mod 64 = unat k mod 64 then unat (seq n) else sq rb j)"
  by (auto simp: sq_def set_node_def index_mod nth_list_update)

lemma dt_set_node:
  "length (buffer rb) = 64 \<Longrightarrow> dt (set_node rb k n) j = (if j mod 64 = unat k mod 64 then data n else dt rb j)"
  by (auto simp: dt_def set_node_def index_mod nth_list_update)

lemma set_node_simps [simp]:
  "head (set_node rb k n) = head rb" "tail (set_node rb k n) = tail rb"
  "length (buffer (set_node rb k n)) = length (buffer rb)"
  by (simp_all add: set_node_def)

lemma sq_counters [simp]: "sq (rb\<lparr>tail := t\<rparr>) k = sq rb k" "sq (rb\<lparr>head := h\<rparr>) k = sq rb k"
  "dt (rb\<lparr>tail := t\<rparr>) k = dt rb k" "dt (rb\<lparr>head := h\<rparr>) k = dt rb k"
  by (simp_all add: sq_def dt_def)

lemma slot_serves:
  assumes "ring_slots_ok xs rb pcs"
  obtains j where "j mod 64 = k mod 64" "free_slot rb pcs j \<or> full_slot xs rb pcs j"
  using assms by (auto simp: ring_slots_ok_def elim!: allE [of _ "k mod 64"])

lemma sq_mod: "j mod 64 = k mod 64 \<Longrightarrow> sq rb j = sq rb k" "j mod 64 = k mod 64 \<Longrightarrow> dt rb j = dt rb k"
  by (simp_all add: sq_def dt_def)

lemma same_place:
  assumes "j mod 64 = k mod (64 :: nat)" "j < k"
  shows "j + 64 \<le> k"
proof -
  have "64 dvd k - j" using assms by (metis mod_eq_dvd_iff_nat less_imp_le)
  then show ?thesis using assms(2) dvd_imp_le [of 64 "k - j"] by simp
qed

lemma not_both: "j mod 64 = k mod (64 :: nat) \<Longrightarrow> j \<noteq> Suc k"
  using same_place [of k j] by auto

text \<open>What the number in a slot says about the slot.\<close>

lemma free_slotI:
  assumes "ring_slots_ok xs rb pcs" "sq rb k = k"
  shows "free_slot rb pcs k"
  using slot_serves [OF assms(1), of k] assms(2)
  by (metis free_slot_def full_slot_def not_both sq_mod(1))

lemma full_slotI:
  assumes "ring_slots_ok xs rb pcs" "sq rb k = Suc k"
  shows "full_slot xs rb pcs k"
  using slot_serves [OF assms(1), of k] assms(2)
  by (metis Suc_inject free_slot_def full_slot_def not_both sq_mod(1))

text \<open>A step that moves one thread and nothing else.\<close>

lemma ring_quiet:
  assumes "ring_ok xs ys rb pcs" "push_claim pc = push_claim (pcs p)" "pop_claim pc = pop_claim (pcs p)"
    "thread_ok xs rb pc"
  shows "ring_ok xs ys rb (pcs(p := pc))"
proof -
  have c: "push_claim ((pcs(p := pc)) q) = push_claim (pcs q)" "pop_claim ((pcs(p := pc)) q) = pop_claim (pcs q)" for q
    using assms(2,3) by simp_all
  show ?thesis
    using assms(1,4)
    unfolding ring_ok_def ring_slots_ok_def free_slot_def full_slot_def claims_ok_def left_ok_def c by auto
qed

lemma unat_Suc: "unat (k :: u64) + 64 < 2 ^ 64 \<Longrightarrow> unat (k + 1) = Suc (unat k)"
  by (simp add: unat_word_ariths)

lemma unat_lap: "unat (k :: u64) + 64 < 2 ^ 64 \<Longrightarrow> unat (k + RING_COUNT) = unat k + 64"
  by (simp add: unat_word_ariths RING_COUNT_def)

lemma claimed_enter:
  "f (pcs p) = None \<Longrightarrow> (\<exists>q. f ((pcs(p := pc)) q) = Some j) = (f pc = Some j \<or> (\<exists>q. f (pcs q) = Some j))"
  by (metis fun_upd_other fun_upd_same option.distinct(1))

lemma left_ok_push_enter:
  assumes "left_ok xs ys rb pcs" "hd_of rb \<le> length xs" "pop_claim pc = pop_claim (pcs p)"
  shows "left_ok (xs @ [t]) ys (rb\<lparr>tail := k\<rparr>) (pcs(p := pc))"
proof -
  have c: "pop_claim ((pcs(p := pc)) q) = pop_claim (pcs q)" for q using assms(3) by simp
  show ?thesis using assms(1,2) unfolding left_ok_def c by (fastforce simp: nth_append)
qed

lemma left_ok_pop_enter:
  assumes "left_ok xs ys rb pcs" "unat k = hd_of rb" "unat k' = Suc (hd_of rb)" "pop_claim (pcs p) = None"
  shows "left_ok xs ys (rb\<lparr>head := k'\<rparr>) (pcs(p := PopData k))"
proof -
  have new: "hd_of rb \<notin> (unat \<circ> fst) ` set ys" using assms(1) by (fastforce simp: left_ok_def)
  have "m \<notin> (unat \<circ> fst) ` set ys" if "pop_claim ((pcs(p := PopData k)) q) = Some m" for q m
    using that new assms(1,2) by (auto simp: left_ok_def split: if_splits)
  moreover have "m \<in> (unat \<circ> fst) ` set ys \<or> (\<exists>q. pop_claim ((pcs(p := PopData k)) q) = Some m)"
    if "m < Suc (hd_of rb)" for m
    using that assms unfolding claimed_enter [of pop_claim pcs p, OF assms(4)]
    by (auto simp: left_ok_def less_Suc_eq)
  ultimately show ?thesis using assms(1,3) unfolding left_ok_def by (auto simp del: fun_upd_apply)
qed

lemma ring_push_enter:
  assumes ok: "ring_ok xs ys rb pcs" and pc: "pcs p = PushExchange t k" and tk: "tail rb = k"
    and room: "length xs + 65 < 2 ^ 64"
  shows "ring_ok (xs @ [t]) ys (rb\<lparr>tail := k + 1\<rparr>) (pcs(p := PushData t k))"
proof -
  let ?n = "length xs" and ?rb = "rb\<lparr>tail := k + 1\<rparr>" and ?pcs = "pcs(p := PushData t k)"
  have n: "unat k = ?n" "unat (k + 1) = Suc ?n" "sq rb ?n = ?n"
    using ok pc tk room unat_Suc [of k] by (auto simp: ring_ok_def dest!: spec [of _ p])
  have free: "free_slot rb pcs ?n" using ok n(3) by (auto simp: ring_ok_def intro: free_slotI)
  have none: "push_claim (pcs p) = None" "pop_claim (pcs p) = None" using pc by simp_all
  have old: "push_claim (pcs q) \<noteq> Some ?n" for q
    using ok n by (cases "pcs q") (auto simp: ring_ok_def dest!: spec [of _ q])
  have "ring_slots_ok (xs @ [t]) ?rb ?pcs"
    unfolding ring_slots_ok_def
  proof (intro allI impI)
    fix i :: nat assume "i < 64"
    then obtain j where j: "j mod 64 = i" "free_slot rb pcs j \<or> full_slot xs rb pcs j"
      using ok by (auto simp: ring_ok_def ring_slots_ok_def)
    have "free_slot ?rb ?pcs j \<or> full_slot (xs @ [t]) ?rb ?pcs j"
      using j(2)
    proof
      assume f: "free_slot rb pcs j"
      then show ?thesis using n ok
        by (auto simp: free_slot_def ring_ok_def claimed_enter [of push_claim pcs p, OF none(1)] simp del: fun_upd_apply)
    next
      assume f: "full_slot xs rb pcs j"
      have "?n \<noteq> j + 64"
      proof
        assume "?n = j + 64"
        then have "sq rb j = sq rb ?n" by (intro sq_mod) simp
        then show False using f n \<open>?n = j + 64\<close> by (simp add: full_slot_def)
      qed
      then show ?thesis using f n ok
        by (auto simp: full_slot_def ring_ok_def nth_append claimed_enter [of pop_claim pcs p, OF none(2)]
            simp del: fun_upd_apply)
    qed
    then show "\<exists>k. k mod 64 = i \<and> (free_slot ?rb ?pcs k \<or> full_slot (xs @ [t]) ?rb ?pcs k)" using j(1) by blast
  qed
  moreover have "thread_ok (xs @ [t]) ?rb (?pcs q)" for q
    using ok n by (cases "pcs q") (auto simp: ring_ok_def nth_append dest!: spec [of _ q])
  moreover have "claims_ok ?pcs" using ok old n by (auto simp: ring_ok_def claims_ok_def)
  moreover have "left_ok (xs @ [t]) ys ?rb ?pcs"
    using ok none by (intro left_ok_push_enter) (auto simp: ring_ok_def)
  ultimately show ?thesis using ok free n by (auto simp: ring_ok_def free_slot_def)
qed

lemma ring_pop_enter:
  assumes ok: "ring_ok xs ys rb pcs" and pc: "pcs p = PopExchange k" and hk: "head rb = k"
    and room: "length xs + 64 < 2 ^ 64"
  shows "ring_ok xs ys (rb\<lparr>head := k + 1\<rparr>) (pcs(p := PopData k))"
proof -
  let ?n = "unat k" and ?rb = "rb\<lparr>head := k + 1\<rparr>" and ?pcs = "pcs(p := PopData k)"
  have s: "sq rb ?n = Suc ?n" using ok pc hk by (auto simp: ring_ok_def dest!: spec [of _ p])
  have full: "full_slot xs rb pcs ?n" using ok s by (auto simp: ring_ok_def intro: full_slotI)
  have n: "unat (k + 1) = Suc ?n" "?n < length xs"
    using ok full room unat_Suc [of k] by (auto simp: ring_ok_def full_slot_def)
  have none: "push_claim (pcs p) = None" "pop_claim (pcs p) = None" using pc by simp_all
  have old: "pop_claim (pcs q) \<noteq> Some ?n" for q
    using ok hk by (cases "pcs q") (auto simp: ring_ok_def dest!: spec [of _ q])
  have "ring_slots_ok xs ?rb ?pcs"
    unfolding ring_slots_ok_def
  proof (intro allI impI)
    fix i :: nat assume "i < 64"
    then obtain j where j: "j mod 64 = i" "free_slot rb pcs j \<or> full_slot xs rb pcs j"
      using ok by (auto simp: ring_ok_def ring_slots_ok_def)
    have "free_slot ?rb ?pcs j \<or> full_slot xs ?rb ?pcs j"
      using j(2)
    proof
      assume f: "free_slot rb pcs j"
      then have "j \<noteq> ?n" using s by (auto simp: free_slot_def)
      then show ?thesis using f n hk
        by (auto simp: free_slot_def claimed_enter [of push_claim pcs p, OF none(1)] simp del: fun_upd_apply)
    next
      assume f: "full_slot xs rb pcs j"
      then show ?thesis using n hk
        by (auto simp: full_slot_def claimed_enter [of pop_claim pcs p, OF none(2)] simp del: fun_upd_apply)
    qed
    then show "\<exists>k. k mod 64 = i \<and> (free_slot ?rb ?pcs k \<or> full_slot xs ?rb ?pcs k)" using j(1) by blast
  qed
  moreover have "thread_ok xs ?rb (?pcs q)" for q
    using ok n s hk by (cases "pcs q") (auto simp: ring_ok_def dest!: spec [of _ q])
  moreover have "claims_ok ?pcs" using ok old by (auto simp: ring_ok_def claims_ok_def)
  moreover have "left_ok xs ys ?rb ?pcs"
    using ok hk n none by (intro left_ok_pop_enter) (auto simp: ring_ok_def)
  ultimately show ?thesis using ok n hk by (auto simp: ring_ok_def)
qed

lemma claimed_leave:
  "f (pcs p) = Some k \<Longrightarrow> f pc = None \<Longrightarrow> j \<noteq> k \<Longrightarrow>
   (\<exists>q. f ((pcs(p := pc)) q) = Some j) = (\<exists>q. f (pcs q) = Some j)"
  by (metis fun_upd_other fun_upd_same option.distinct(1) option.inject)

lemma claims_ok_leave: "claims_ok pcs \<Longrightarrow> push_claim pc = None \<Longrightarrow> pop_claim pc = None \<Longrightarrow> claims_ok (pcs(p := pc))"
  by (simp add: claims_ok_def)

lemma ring_okD:
  assumes "ring_ok xs ys rb pcs"
  shows "length (buffer rb) = 64" "tl_of rb = length xs" "hd_of rb \<le> length xs" "length xs \<le> hd_of rb + 64"
    "ring_slots_ok xs rb pcs" "\<forall>p. thread_ok xs rb (pcs p)" "claims_ok pcs" "left_ok xs ys rb pcs"
  using assms by (simp_all add: ring_ok_def)

lemma thread_claim:
  assumes "\<forall>p. thread_ok xs rb (pcs p)"
  shows "push_claim (pcs p) = Some k \<Longrightarrow> sq rb k = k \<and> k < tl_of rb"
    and "pop_claim (pcs p) = Some k \<Longrightarrow> sq rb k = Suc k \<and> k < hd_of rb"
  using assms [rule_format, of p] by (cases "pcs p"; auto)+

lemma other_place:
  assumes "ring_ok xs ys rb pcs" "q \<noteq> p"
  shows "push_claim (pcs p) = Some n \<Longrightarrow> push_claim (pcs q) = Some m \<Longrightarrow> m mod 64 \<noteq> n mod 64"
    and "pop_claim (pcs p) = Some n \<Longrightarrow> pop_claim (pcs q) = Some m \<Longrightarrow> m mod 64 \<noteq> n mod 64"
    and "push_claim (pcs p) = Some n \<Longrightarrow> pop_claim (pcs q) = Some m \<Longrightarrow> m mod 64 \<noteq> n mod 64"
    and "pop_claim (pcs p) = Some n \<Longrightarrow> push_claim (pcs q) = Some m \<Longrightarrow> m mod 64 \<noteq> n mod 64"
proof -
  have th: "\<forall>p. thread_ok xs rb (pcs p)" and cl: "claims_ok pcs" using assms(1) by (auto simp: ring_ok_def)
  note t = thread_claim [OF th]
  show "push_claim (pcs p) = Some n \<Longrightarrow> push_claim (pcs q) = Some m \<Longrightarrow> m mod 64 \<noteq> n mod 64"
    using t(1) [of p n] t(1) [of q m] cl assms(2) sq_mod(1) [of m n rb] by (metis claims_ok_def)
  show "pop_claim (pcs p) = Some n \<Longrightarrow> pop_claim (pcs q) = Some m \<Longrightarrow> m mod 64 \<noteq> n mod 64"
    using t(2) [of p n] t(2) [of q m] cl assms(2) sq_mod(1) [of m n rb] by (metis claims_ok_def Suc_inject)
  show "push_claim (pcs p) = Some n \<Longrightarrow> pop_claim (pcs q) = Some m \<Longrightarrow> m mod 64 \<noteq> n mod 64"
    using t(1) [of p n] t(2) [of q m] sq_mod(1) [of m n rb] by (metis not_both)
  show "pop_claim (pcs p) = Some n \<Longrightarrow> push_claim (pcs q) = Some m \<Longrightarrow> m mod 64 \<noteq> n mod 64"
    using t(2) [of p n] t(1) [of q m] sq_mod(1) [of m n rb] by (metis not_both)
qed

lemma thread_ok_store:
  assumes "thread_ok xs rb pc" "head rb' = head rb" "tail rb' = tail rb" "\<And>j. dt rb' j = dt rb j"
    "\<And>j. j mod 64 \<noteq> n mod 64 \<Longrightarrow> sq rb' j = sq rb j"
    "\<And>m. push_claim pc = Some m \<Longrightarrow> m mod 64 \<noteq> n mod 64" "\<And>m. pop_claim pc = Some m \<Longrightarrow> m mod 64 \<noteq> n mod 64"
    "\<And>m. m mod 64 = n mod 64 \<Longrightarrow> sq rb m = m \<Longrightarrow> m < tl_of rb"
    "\<And>m. m mod 64 = n mod 64 \<Longrightarrow> sq rb m = Suc m \<Longrightarrow> m < hd_of rb"
  shows "thread_ok xs rb' pc"
proof (cases pc)
  case (PushExchange t k)
  then show ?thesis using assms(1,2,3) assms(5,8) [of "unat k"] by (cases "unat k mod 64 = n mod 64") auto
next
  case (PopExchange k)
  then show ?thesis using assms(1,2,3) assms(5,9) [of "unat k"] by (cases "unat k mod 64 = n mod 64") auto
qed (use assms(1-7) in auto)

lemma ring_push_data:
  assumes ok: "ring_ok xs ys rb pcs" and pc: "pcs p = PushData t k"
  shows "ring_ok xs ys (set_node rb k ((node_at rb k)\<lparr>data := t\<rparr>)) (pcs(p := PushStore k))"
proof -
  let ?rb = "set_node rb k ((node_at rb k)\<lparr>data := t\<rparr>)" and ?pcs = "pcs(p := PushStore k)"
  have len: "length (buffer rb) = 64" using ok by (simp add: ring_ok_def)
  have s: "sq ?rb j = sq rb j" for j using len by (simp add: sq_set_node) (simp add: sq_def index_mod)
  have d: "dt ?rb j = (if j mod 64 = unat k mod 64 then t else dt rb j)" for j using len by (simp add: dt_set_node)
  have me: "sq rb (unat k) = unat k" "xs ! unat k = t" "unat k < tl_of rb"
    using ok pc by (auto simp: ring_ok_def dest!: spec [of _ p])
  have c: "push_claim (?pcs q) = push_claim (pcs q)" "pop_claim (?pcs q) = pop_claim (pcs q)" for q
    using pc by simp_all
  have "full_slot xs ?rb ?pcs j" if f: "full_slot xs rb pcs j" for j
  proof -
    have "j mod 64 \<noteq> unat k mod 64"
      using f me(1) not_both [of "unat k" j] sq_mod(1) [of j "unat k" rb] by (auto simp: full_slot_def)
    then show ?thesis using f by (simp add: full_slot_def s d c del: fun_upd_apply)
  qed
  then have "ring_slots_ok xs ?rb ?pcs"
    using ok by (auto simp: ring_ok_def ring_slots_ok_def free_slot_def s c simp del: fun_upd_apply) blast
  moreover have "thread_ok xs ?rb (?pcs q)" for q
  proof (cases "q = p")
    case False
    have "m mod 64 \<noteq> unat k mod 64" if "push_claim (pcs q) = Some m" for m
      using other_place(1) [OF ok False _ that] pc by simp
    then show ?thesis using False ok
      by (cases "pcs q") (auto simp: ring_ok_def s d dest!: spec [of _ q])
  qed (use me in \<open>auto simp: s d\<close>)
  moreover have "claims_ok ?pcs" using ok unfolding ring_ok_def claims_ok_def c by blast
  moreover have "left_ok xs ys ?rb ?pcs" using ok unfolding ring_ok_def left_ok_def c by simp
  ultimately show ?thesis using ok by (simp add: ring_ok_def)
qed

lemma ring_push_store:
  assumes ok: "ring_ok xs ys rb pcs" and pc: "pcs p = PushStore k" and room: "length xs + 64 < 2 ^ 64"
  shows "ring_ok xs ys (set_node rb k ((node_at rb k)\<lparr>seq := k + 1\<rparr>)) (pcs(p := Pushed True))"
proof -
  let ?n = "unat k"
  let ?rb = "set_node rb k ((node_at rb k)\<lparr>seq := k + 1\<rparr>)" and ?pcs = "pcs(p := Pushed True)"
  have len: "length (buffer rb) = 64" using ok by (simp add: ring_ok_def)
  have me: "sq rb ?n = ?n" "dt rb ?n = xs ! ?n" "?n < tl_of rb"
    using ring_okD(6) [OF ok, rule_format, of p] pc by simp_all
  then have "unat (k + 1) = Suc ?n" using ring_okD(2) [OF ok] room unat_Suc [of k] by simp
  then have s: "sq ?rb j = (if j mod 64 = ?n mod 64 then Suc ?n else sq rb j)" for j
    using len by (simp add: sq_set_node)
  have d: "dt ?rb j = dt rb j" for j using len by (simp add: dt_set_node) (simp add: dt_def index_mod)
  have free: "free_slot rb pcs ?n" by (rule free_slotI [OF ring_okD(5) [OF ok] me(1)])
  have cl: "push_claim (pcs p) = Some ?n" "pop_claim (Pushed True) = pop_claim (pcs p)" using pc by simp_all
  have c: "pop_claim (?pcs q) = pop_claim (pcs q)" for q using cl by simp
  have new: "full_slot xs ?rb ?pcs ?n" using free ring_okD(2-4) [OF ok] me by (simp add: free_slot_def full_slot_def s d)
  have "ring_slots_ok xs ?rb ?pcs"
    unfolding ring_slots_ok_def
  proof (intro allI impI)
    fix i :: nat assume "i < 64"
    show "\<exists>k. k mod 64 = i \<and> (free_slot ?rb ?pcs k \<or> full_slot xs ?rb ?pcs k)"
    proof (cases "i = ?n mod 64")
      case True
      then show ?thesis using new by blast
    next
      case False
      obtain j where j: "j mod 64 = i" "free_slot rb pcs j \<or> full_slot xs rb pcs j"
        using ring_okD(5) [OF ok] \<open>i < 64\<close> by (auto simp: ring_slots_ok_def)
      then have "free_slot ?rb ?pcs j \<or> full_slot xs ?rb ?pcs j"
        using False claimed_leave [of push_claim pcs p ?n "Pushed True" j, OF cl(1)]
        by (auto simp: free_slot_def full_slot_def s d c simp del: fun_upd_apply)
      then show ?thesis using j(1) by blast
    qed
  qed
  moreover have "thread_ok xs ?rb (?pcs q)" for q
  proof (cases "q = p")
    case False
    show ?thesis
    proof (rule thread_ok_store [of xs rb _ _ ?n])
      show "thread_ok xs rb (?pcs q)" using ok False by (simp add: ring_ok_def)
      show "m < tl_of rb" if "m mod 64 = ?n mod 64" "sq rb m = m" for m
        using me(1,3) that sq_mod(1) [OF that(1), of rb] by linarith
      show "m < hd_of rb" if "m mod 64 = ?n mod 64" "sq rb m = Suc m" for m
        using me(1) that(2) not_both [OF that(1) [symmetric]] sq_mod(1) [OF that(1), of rb] by linarith
    qed (use False other_place(1,3) [OF ok False cl(1)] in \<open>simp_all add: s d\<close>)
  qed simp
  moreover have "claims_ok ?pcs" using ring_okD(7) [OF ok] by (rule claims_ok_leave) simp_all
  moreover have "left_ok xs ys ?rb ?pcs" using ring_okD(8) [OF ok] unfolding left_ok_def c by simp
  ultimately show ?thesis using ring_okD [OF ok] by (simp add: ring_ok_def del: fun_upd_apply)
qed

lemma left_ok_leave:
  assumes "left_ok xs ys rb pcs" "claims_ok pcs" "pop_claim (pcs p) = Some (unat k)" "unat k < hd_of rb"
    "t = xs ! unat k" "pop_claim pc = None" "head rb' = head rb"
  shows "left_ok xs (ys @ [(k, t)]) rb' (pcs(p := pc))"
proof -
  have "m \<notin> (unat \<circ> fst) ` set (ys @ [(k, t)])" if "pop_claim ((pcs(p := pc)) q) = Some m" for q m
    using that assms(1,2,3,6) by (auto simp: left_ok_def claims_ok_def split: if_splits)
  moreover have "m \<in> (unat \<circ> fst) ` set (ys @ [(k, t)]) \<or> (\<exists>q. pop_claim ((pcs(p := pc)) q) = Some m)"
    if "m < hd_of rb" for m
    using that assms(1) claimed_leave [of pop_claim pcs p "unat k" pc m, OF assms(3,6)]
    by (cases "m = unat k") (auto simp: left_ok_def simp del: fun_upd_apply)
  moreover have "distinct (map (unat \<circ> fst) (ys @ [(k, t)]))" using assms(1,3) by (auto simp: left_ok_def)
  ultimately show ?thesis using assms(1,4,5,7) unfolding left_ok_def by (auto simp del: fun_upd_apply)
qed

lemma ring_pop_store:
  assumes ok: "ring_ok xs ys rb pcs" and pc: "pcs p = PopStore k t" and room: "length xs + 64 < 2 ^ 64"
  shows "ring_ok xs (ys @ [(k, t)]) (set_node rb k ((node_at rb k)\<lparr>seq := k + RING_COUNT\<rparr>)) (pcs(p := Popped t))"
proof -
  let ?n = "unat k"
  let ?rb = "set_node rb k ((node_at rb k)\<lparr>seq := k + RING_COUNT\<rparr>)" and ?pcs = "pcs(p := Popped t)"
  have len: "length (buffer rb) = 64" using ok by (simp add: ring_ok_def)
  have me: "sq rb ?n = Suc ?n" "t = xs ! ?n" "?n < hd_of rb"
    using ring_okD(6) [OF ok, rule_format, of p] pc by simp_all
  then have "unat (k + RING_COUNT) = ?n + 64" using ring_okD(2,3) [OF ok] room unat_lap [of k] by simp
  then have s: "sq ?rb j = (if j mod 64 = ?n mod 64 then ?n + 64 else sq rb j)" for j
    using len by (simp add: sq_set_node)
  have d: "dt ?rb j = dt rb j" for j using len by (simp add: dt_set_node) (simp add: dt_def index_mod)
  have full: "full_slot xs rb pcs ?n" by (rule full_slotI [OF ring_okD(5) [OF ok] me(1)])
  have cl: "pop_claim (pcs p) = Some ?n" "push_claim (Popped t) = push_claim (pcs p)" using pc by simp_all
  have c: "push_claim (?pcs q) = push_claim (pcs q)" for q using cl by simp
  have new: "free_slot ?rb ?pcs (?n + 64)" using full ring_okD(2-4) [OF ok] me by (simp add: free_slot_def full_slot_def s)
  have "ring_slots_ok xs ?rb ?pcs"
    unfolding ring_slots_ok_def
  proof (intro allI impI)
    fix i :: nat assume "i < 64"
    show "\<exists>k. k mod 64 = i \<and> (free_slot ?rb ?pcs k \<or> full_slot xs ?rb ?pcs k)"
    proof (cases "i = ?n mod 64")
      case True
      then show ?thesis using new by (intro exI [of _ "?n + 64"]) simp
    next
      case False
      obtain j where j: "j mod 64 = i" "free_slot rb pcs j \<or> full_slot xs rb pcs j"
        using ring_okD(5) [OF ok] \<open>i < 64\<close> by (auto simp: ring_slots_ok_def)
      then have "free_slot ?rb ?pcs j \<or> full_slot xs ?rb ?pcs j"
        using False claimed_leave [of pop_claim pcs p ?n "Popped t" j, OF cl(1)]
        by (auto simp: free_slot_def full_slot_def s d c simp del: fun_upd_apply)
      then show ?thesis using j(1) by blast
    qed
  qed
  moreover have "thread_ok xs ?rb (?pcs q)" for q
  proof (cases "q = p")
    case False
    show ?thesis
    proof (rule thread_ok_store [of xs rb _ _ ?n])
      show "thread_ok xs rb (?pcs q)" using ok False by (simp add: ring_ok_def)
      show "m < tl_of rb" if "m mod 64 = ?n mod 64" "sq rb m = m" for m
        using me(1) that(2) not_both [OF that(1)] sq_mod(1) [OF that(1), of rb] by linarith
      show "m < hd_of rb" if "m mod 64 = ?n mod 64" "sq rb m = Suc m" for m
        using me(1,3) that sq_mod(1) [OF that(1), of rb] by linarith
    qed (use False other_place(2,4) [OF ok False cl(1)] in \<open>simp_all add: s d\<close>)
  qed simp
  moreover have "claims_ok ?pcs" using ring_okD(7) [OF ok] by (rule claims_ok_leave) simp_all
  moreover have "left_ok xs (ys @ [(k, t)]) ?rb ?pcs"
    using cl(1) me ring_okD [OF ok] by (intro left_ok_leave) simp_all
  ultimately show ?thesis using ring_okD [OF ok] by (simp add: ring_ok_def del: fun_upd_apply)
qed

lemma sq_node_at: "unat (seq (node_at rb k)) = sq rb (unat k)" "data (node_at rb k) = dt rb (unat k)"
  by (simp_all add: sq_def dt_def index_mod)

lemma ring_push_step:
  assumes ok: "ring_ok xs ys rb pcs" and room: "length (xs @ enters rb (pcs p)) + 64 < 2 ^ 64"
    and push: "Push rb (pcs p) = (rb', pc')"
  shows "ring_ok (xs @ enters rb (pcs p)) ys rb' (pcs(p := pc'))"
proof -
  have idle: ?thesis if "Push rb (pcs p) = (rb, pcs p)" "enters rb (pcs p) = []"
    using that push ok by simp
  show ?thesis
  proof (cases "pcs p")
    case (PushSeq t k)
    have "thread_ok xs rb pc'"
      using push PushSeq ring_okD(6) [OF ok, rule_format, of p] sq_node_at(1) [of rb k]
      by (auto simp: Let_def split: if_splits)
    then show ?thesis using push PushSeq ok by (auto simp: Let_def intro!: ring_quiet split: if_splits)
  next
    case (PushExchange t k)
    then show ?thesis using push ok room ring_push_enter [OF ok PushExchange]
      by (auto intro!: ring_quiet split: if_splits)
  next
    case (PushData t k)
    then show ?thesis using push ring_push_data [OF ok PushData] by simp
  next
    case (PushStore k)
    then show ?thesis using push room ring_push_store [OF ok PushStore] by simp
  next
    case (PushLoad t)
    then show ?thesis using push ok by (auto intro!: ring_quiet)
  qed (rule idle; simp)+
qed

lemma ring_pop_step:
  assumes ok: "ring_ok xs ys rb pcs" and room: "length xs + 64 < 2 ^ 64"
    and pop: "Pop rb (pcs p) = (rb', pc')"
  shows "ring_ok xs (ys @ leaves (pcs p)) rb' (pcs(p := pc'))"
proof -
  have idle: ?thesis if "Pop rb (pcs p) = (rb, pcs p)" "leaves (pcs p) = []"
    using that pop ok by simp
  show ?thesis
  proof (cases "pcs p")
    case (PopSeq k)
    have le: "unat k \<le> hd_of rb" using ring_okD(6) [OF ok, rule_format, of p] PopSeq by simp
    then have "unat (k + 1) = Suc (unat k)" using ring_okD(3) [OF ok] room unat_Suc [of k] by simp
    then have "thread_ok xs rb pc'"
      using pop PopSeq le sq_node_at(1) [of rb k] by (auto simp: Let_def split: if_splits)
    then show ?thesis using pop PopSeq ok by (auto simp: Let_def intro!: ring_quiet split: if_splits)
  next
    case (PopExchange k)
    then show ?thesis using pop ok room ring_pop_enter [OF ok PopExchange]
      by (auto intro!: ring_quiet split: if_splits)
  next
    case (PopData k)
    have me: "sq rb (unat k) = Suc (unat k)" "unat k < hd_of rb"
      using ring_okD(6) [OF ok, rule_format, of p] PopData by simp_all
    have "dt rb (unat k) = xs ! unat k" using full_slotI [OF ring_okD(5) [OF ok] me(1)] by (simp add: full_slot_def)
    then show ?thesis using pop PopData ok me sq_node_at(2) [of rb k] by (auto intro!: ring_quiet)
  next
    case (PopStore k t)
    then show ?thesis using pop room ring_pop_store [OF ok PopStore] by simp
  next
    case PopLoad
    then show ?thesis using pop ok by (auto intro!: ring_quiet)
  qed (rule idle; simp)+
qed

lemma ring_ok_new: "ring_ok [] [] (new_RingBuffer d) (\<lambda>p. Idle)"
proof -
  have "sq (new_RingBuffer d) i = i" if "i < 64" for i
    using that by (simp add: sq_def new_RingBuffer_def unat_of_nat)
  then have "free_slot (new_RingBuffer d) (\<lambda>p. Idle) i" if "i < 64" for i
    using that by (simp add: free_slot_def) (simp add: new_RingBuffer_def)
  then have "ring_slots_ok [] (new_RingBuffer d) (\<lambda>p. Idle)" unfolding ring_slots_ok_def by (metis mod_less)
  then show ?thesis by (simp add: ring_ok_def new_RingBuffer_def claims_ok_def left_ok_def)
qed

lemma ring_run_ok: "ring_run d xs ys rb pcs \<Longrightarrow> length xs + 64 < 2 ^ 64 \<Longrightarrow> ring_ok xs ys rb pcs"
proof (induction rule: ring_run.induct)
  case (start d)
  show ?case by (rule ring_ok_new)
next
  case (call_push d xs ys rb pcs p t)
  then show ?case by (cases "pcs p") (auto intro!: ring_quiet simp del: fun_upd_apply)
next
  case (call_pop d xs ys rb pcs p)
  then show ?case by (cases "pcs p") (auto intro!: ring_quiet simp del: fun_upd_apply)
next
  case (push_step d xs ys rb pcs p rb' pc')
  then show ?case by (intro ring_push_step) simp_all
next
  case (pop_step d xs ys rb pcs p rb' pc')
  then show ?case by (intro ring_pop_step) simp_all
qed

section \<open>What the ring guarantees\<close>

text \<open>
  C27. The ring is a first-in first-out queue for any number of producers and consumers, in any interleaving: the
  consumer that takes place \<open>h\<close> returns the value of the producer that took place \<open>h\<close>, no place is returned
  twice, at most 64 places are taken by producers and not by consumers, and when every call has returned
  exactly the places before the head have been returned. (The numbers wrap after 2 to the 64 places.)
\<close>
theorem ring_fifo:
  assumes "ring_run d xs ys rb pcs" "length xs + 64 < 2 ^ 64"
  shows "distinct (map (unat \<circ> fst) ys) \<and> (\<forall>(h, v) \<in> set ys. unat h < length xs \<and> v = xs ! unat h) \<and>
    length xs = unat (tail rb) \<and> unat (head rb) \<le> length xs \<and> length xs \<le> unat (head rb) + 64 \<and>
    ((\<forall>p. at_rest (pcs p)) \<longrightarrow> (unat \<circ> fst) ` set ys = {..<unat (head rb)})"
proof -
  note ok = ring_okD [OF ring_run_ok [OF assms]]
  have quiet: "pop_claim (pcs p) = None" if "\<forall>p. at_rest (pcs p)" for p
    using that [rule_format, of p] by (cases "pcs p") auto
  show ?thesis using ok(2,3,4,8) quiet by (force simp: left_ok_def)
qed

text \<open>The slot whose value a thread is about to write or read.\<close>

fun data_slot :: "'a ring_pc \<Rightarrow> nat option" where
  "data_slot (PushData t k) = Some (unat (k mod RING_COUNT))"
| "data_slot (PopData k) = Some (unat (k mod RING_COUNT))"
| "data_slot pc = None"

lemma data_slot_claim:
  "data_slot pc = Some i \<Longrightarrow> \<exists>k. k mod 64 = i \<and> (push_claim pc = Some k \<or> pop_claim pc = Some k)"
  by (cases pc) (auto simp: index_mod)

text \<open>
  C28. No data race: the values in the ring are not atomic, and no two threads are ever about to access the value of
  the same slot.
\<close>
theorem ring_no_race:
  assumes "ring_run d xs ys rb pcs" "length xs + 64 < 2 ^ 64" "p \<noteq> q" "data_slot (pcs p) = Some i"
  shows "data_slot (pcs q) \<noteq> Some i"
proof
  assume "data_slot (pcs q) = Some i"
  then obtain m where m: "m mod 64 = i" "push_claim (pcs q) = Some m \<or> pop_claim (pcs q) = Some m"
    using data_slot_claim by blast
  obtain n where n: "n mod 64 = i" "push_claim (pcs p) = Some n \<or> pop_claim (pcs p) = Some n"
    using data_slot_claim [OF assms(4)] by blast
  show False
    using other_place [OF ring_run_ok [OF assms(1,2)] assms(3) [symmetric], of n m] m n by auto
qed

subsection \<open>Calls that run alone\<close>

definition ring_queue :: "'a RingBuffer \<Rightarrow> 'a list" where
  "ring_queue rb = map (dt rb) [hd_of rb..<tl_of rb]"

definition push_turn :: "'a RingBuffer \<times> 'a ring_pc \<Rightarrow> 'a RingBuffer \<times> 'a ring_pc" where
  "push_turn s = Push (fst s) (snd s)"

definition pop_turn :: "'a RingBuffer \<times> 'a ring_pc \<Rightarrow> 'a RingBuffer \<times> 'a ring_pc" where
  "pop_turn s = Pop (fst s) (snd s)"

lemma at_rest_claims: "at_rest pc \<Longrightarrow> push_claim pc = None \<and> pop_claim pc = None"
  by (cases pc) auto

text \<open>With no call under way, every place between head and tail is full and the next 64 after head minus those are free.\<close>

lemma quiet_slot:
  assumes "ring_ok xs ys rb pcs" "\<forall>p. at_rest (pcs p)" "hd_of rb \<le> k" "k < hd_of rb + 64"
  shows "if k < tl_of rb then full_slot xs rb pcs k else free_slot rb pcs k"
proof -
  note ok = ring_okD [OF assms(1)]
  obtain j where j: "j mod 64 = k mod 64" "free_slot rb pcs j \<or> full_slot xs rb pcs j"
    using slot_serves [OF ok(5)] by blast
  have range: "hd_of rb \<le> j" "j < hd_of rb + 64" "free_slot rb pcs j \<Longrightarrow> tl_of rb \<le> j"
      "full_slot xs rb pcs j \<Longrightarrow> j < tl_of rb"
    using j(2) ok(2,4) at_rest_claims [OF assms(2) [rule_format]] by (auto simp: free_slot_def full_slot_def)
  have "\<not> j < k" using same_place [OF j(1)] assms(4) range(1) by linarith
  moreover have "\<not> k < j" using same_place [OF j(1) [symmetric]] assms(3) range(2) by linarith
  ultimately have "j = k" by simp
  then show ?thesis using j(2) range(3,4) by auto
qed

lemma ring_queue_quiet:
  assumes "ring_ok xs ys rb pcs" "\<forall>p. at_rest (pcs p)"
  shows "ring_queue rb = drop (hd_of rb) xs"
proof (rule nth_equalityI)
  note ok = ring_okD [OF assms(1)]
  show "length (ring_queue rb) = length (drop (hd_of rb) xs)" using ok(2) by (simp add: ring_queue_def)
  fix i assume i: "i < length (ring_queue rb)"
  then have "full_slot xs rb pcs (hd_of rb + i)"
    using quiet_slot [OF assms, of "hd_of rb + i"] ok(2,4) by (simp add: ring_queue_def)
  then show "ring_queue rb ! i = drop (hd_of rb) xs ! i"
    using i ok(2,3) by (simp add: ring_queue_def full_slot_def)
qed

lemma solo_push:
  assumes run: "ring_run d xs ys rb pcs" and quiet: "\<forall>p. at_rest (pcs p)" and room: "length xs + 64 < 2 ^ 64"
    and less: "tl_of rb < hd_of rb + 64"
  shows "\<exists>rb'. (push_turn ^^ 5) (rb, PushLoad t) = (rb', Pushed True) \<and> head rb' = head rb \<and>
    ring_run d (xs @ [t]) ys rb' (pcs(p := Pushed True))"
proof -
  let ?k = "tail rb"
  let ?b = "rb\<lparr>tail := ?k + 1\<rparr>"
  let ?c = "set_node ?b ?k ((node_at ?b ?k)\<lparr>data := t\<rparr>)"
  let ?d = "set_node ?c ?k ((node_at ?c ?k)\<lparr>seq := ?k + 1\<rparr>)"
  have ok: "ring_ok xs ys rb pcs" using ring_run_ok [OF run room] .
  have "sq rb (tl_of rb) = tl_of rb"
    using quiet_slot [OF ok quiet, of "tl_of rb"] ring_okD(2,3) [OF ok] less by (simp add: free_slot_def)
  then have eq: "seq (node_at rb ?k) = ?k" using sq_node_at(1) [of rb ?k] by (simp add: word_unat_eq_iff)
  have "ring_run d xs ys rb (pcs(p := PushLoad t))" using ring_run.call_push [OF run] quiet by blast
  then have "ring_run d xs ys rb (pcs(p := PushSeq t ?k))"
    using ring_run.push_step [of d xs ys rb "pcs(p := PushLoad t)" p rb] by simp
  then have "ring_run d xs ys rb (pcs(p := PushExchange t ?k))"
    using ring_run.push_step [of d xs ys rb "pcs(p := PushSeq t ?k)" p rb] eq by simp
  then have "ring_run d (xs @ [t]) ys ?b (pcs(p := PushData t ?k))"
    using ring_run.push_step [of d xs ys rb "pcs(p := PushExchange t ?k)" p ?b] by simp
  then have "ring_run d (xs @ [t]) ys ?c (pcs(p := PushStore ?k))"
    using ring_run.push_step [of d "xs @ [t]" ys ?b "pcs(p := PushData t ?k)" p ?c] by simp
  then have "ring_run d (xs @ [t]) ys ?d (pcs(p := Pushed True))"
    using ring_run.push_step [of d "xs @ [t]" ys ?c "pcs(p := PushStore ?k)" p ?d] by simp
  moreover have "(push_turn ^^ 5) (rb, PushLoad t) = (?d, Pushed True)"
    using eq by (simp add: eval_nat_numeral push_turn_def Let_def)
  ultimately show ?thesis by simp
qed

lemma solo_push_full:
  assumes ok: "ring_ok xs ys rb pcs" and quiet: "\<forall>p. at_rest (pcs p)" and full: "tl_of rb = hd_of rb + 64"
  shows "(push_turn ^^ 5) (rb, PushLoad t) = (rb, Pushed False)"
proof -
  have "full_slot xs rb pcs (hd_of rb)" using quiet_slot [OF ok quiet, of "hd_of rb"] full by simp
  moreover have "sq rb (tl_of rb) = sq rb (hd_of rb)" using full by (intro sq_mod) simp
  ultimately have "sq rb (tl_of rb) < tl_of rb" using full by (simp add: full_slot_def)
  then have "seq (node_at rb (tail rb)) < tail rb" using sq_node_at(1) [of rb "tail rb"] by (simp add: word_less_nat_alt)
  then show ?thesis by (simp add: eval_nat_numeral push_turn_def Let_def)
qed

lemma solo_pop:
  assumes run: "ring_run d xs ys rb pcs" and quiet: "\<forall>p. at_rest (pcs p)" and room: "length xs + 64 < 2 ^ 64"
    and less: "hd_of rb < tl_of rb"
  shows "\<exists>rb'. (pop_turn ^^ 5) (rb, PopLoad) = (rb', Popped (xs ! hd_of rb)) \<and> hd_of rb' = Suc (hd_of rb) \<and>
    ring_run d xs (ys @ [(head rb, xs ! hd_of rb)]) rb' (pcs(p := Popped (xs ! hd_of rb)))"
proof -
  let ?k = "head rb" and ?v = "xs ! hd_of rb"
  let ?b = "rb\<lparr>head := ?k + 1\<rparr>"
  let ?c = "set_node ?b ?k ((node_at ?b ?k)\<lparr>seq := ?k + RING_COUNT\<rparr>)"
  have ok: "ring_ok xs ys rb pcs" using ring_run_ok [OF run room] .
  have full: "full_slot xs rb pcs (hd_of rb)" using quiet_slot [OF ok quiet, of "hd_of rb"] less by simp
  have suc: "unat (?k + 1) = Suc (unat ?k)" using ring_okD(3) [OF ok] room unat_Suc [of ?k] by simp
  then have eq: "seq (node_at rb ?k) = ?k + 1"
    using full sq_node_at(1) [of rb ?k] by (simp add: full_slot_def word_unat_eq_iff)
  have v: "data (node_at rb ?k) = ?v" using full sq_node_at(2) [of rb ?k] by (simp add: full_slot_def)
  have "ring_run d xs ys rb (pcs(p := PopLoad))" using ring_run.call_pop [OF run] quiet by blast
  then have "ring_run d xs ys rb (pcs(p := PopSeq ?k))"
    using ring_run.pop_step [of d xs ys rb "pcs(p := PopLoad)" p rb] by simp
  then have "ring_run d xs ys rb (pcs(p := PopExchange ?k))"
    using ring_run.pop_step [of d xs ys rb "pcs(p := PopSeq ?k)" p rb] eq by simp
  then have "ring_run d xs ys ?b (pcs(p := PopData ?k))"
    using ring_run.pop_step [of d xs ys rb "pcs(p := PopExchange ?k)" p ?b] by simp
  then have "ring_run d xs ys ?b (pcs(p := PopStore ?k ?v))"
    using ring_run.pop_step [of d xs ys ?b "pcs(p := PopData ?k)" p ?b] v by simp
  then have "ring_run d xs (ys @ [(?k, ?v)]) ?c (pcs(p := Popped ?v))"
    using ring_run.pop_step [of d xs ys ?b "pcs(p := PopStore ?k ?v)" p ?c] by simp
  moreover have "(pop_turn ^^ 5) (rb, PopLoad) = (?c, Popped ?v)"
    using eq v by (simp add: eval_nat_numeral pop_turn_def Let_def)
  ultimately show ?thesis using suc by simp
qed

lemma solo_pop_empty:
  assumes ok: "ring_ok xs ys rb pcs" and quiet: "\<forall>p. at_rest (pcs p)" and room: "length xs + 64 < 2 ^ 64"
    and empty: "hd_of rb = tl_of rb"
  shows "(pop_turn ^^ 5) (rb, PopLoad) = (rb, PopFailed)"
proof -
  have "free_slot rb pcs (hd_of rb)" using quiet_slot [OF ok quiet, of "hd_of rb"] empty by simp
  then have "seq (node_at rb (head rb)) = head rb"
    using sq_node_at(1) [of rb "head rb"] by (simp add: free_slot_def word_unat_eq_iff)
  moreover have "head rb < head rb + 1" "head rb \<noteq> head rb + 1"
    using ring_okD(3) [OF ok] room unat_Suc [of "head rb"] by (auto simp: word_less_nat_alt)
  ultimately show ?thesis by (simp add: eval_nat_numeral pop_turn_def Let_def)
qed

text \<open>
  C29. A call that no other call disturbs ends within five accesses and behaves as on a queue of at most 64 values:
  \<^verbatim>\<open>Push\<close> appends and returns true exactly when there is room, \<^verbatim>\<open>Pop\<close> returns the first value exactly when
  there is one, and otherwise both return false and change nothing.
\<close>
theorem ring_alone:
  assumes "ring_run d xs ys rb pcs" "length xs + 65 < 2 ^ 64" "\<forall>p. at_rest (pcs p)"
  shows "(\<exists>rb'. (push_turn ^^ 5) (rb, PushLoad t) = (rb', Pushed (length (ring_queue rb) < 64)) \<and>
      ring_queue rb' = (if length (ring_queue rb) < 64 then ring_queue rb @ [t] else ring_queue rb)) \<and>
    (\<exists>rb'. (pop_turn ^^ 5) (rb, PopLoad) =
        (rb', case ring_queue rb of [] \<Rightarrow> PopFailed | v # vs \<Rightarrow> Popped v) \<and> ring_queue rb' = tl (ring_queue rb))"
proof
  have room: "length xs + 64 < 2 ^ 64" using assms(2) by simp
  have ok: "ring_ok xs ys rb pcs" using ring_run_ok [OF assms(1) room] .
  note q = ring_queue_quiet [OF ok assms(3)] and oks = ring_okD [OF ok]
  have len: "length (ring_queue rb) = tl_of rb - hd_of rb" by (simp add: ring_queue_def)
  show "\<exists>rb'. (push_turn ^^ 5) (rb, PushLoad t) = (rb', Pushed (length (ring_queue rb) < 64)) \<and>
      ring_queue rb' = (if length (ring_queue rb) < 64 then ring_queue rb @ [t] else ring_queue rb)"
  proof (cases "tl_of rb < hd_of rb + 64")
    case True
    obtain rb' where r: "(push_turn ^^ 5) (rb, PushLoad t) = (rb', Pushed True)" "head rb' = head rb"
        "ring_run d (xs @ [t]) ys rb' (pcs(0 := Pushed True))"
      using solo_push [OF assms(1,3) room True] by blast
    have "ring_ok (xs @ [t]) ys rb' (pcs(0 := Pushed True))" using ring_run_ok [OF r(3)] assms(2) by simp
    then show ?thesis using r(1,2) ring_queue_quiet assms(3) q True len oks(2,3) by fastforce
  next
    case False
    then show ?thesis using solo_push_full [OF ok assms(3)] len oks(2,4) by auto
  qed
  show "\<exists>rb'. (pop_turn ^^ 5) (rb, PopLoad) =
        (rb', case ring_queue rb of [] \<Rightarrow> PopFailed | v # vs \<Rightarrow> Popped v) \<and> ring_queue rb' = tl (ring_queue rb)"
  proof (cases "hd_of rb < tl_of rb")
    case True
    obtain rb' where r: "(pop_turn ^^ 5) (rb, PopLoad) = (rb', Popped (xs ! hd_of rb))" "hd_of rb' = Suc (hd_of rb)"
        "ring_run d xs (ys @ [(head rb, xs ! hd_of rb)]) rb' (pcs(0 := Popped (xs ! hd_of rb)))"
      using solo_pop [OF assms(1,3) room True] by blast
    have "ring_queue rb = xs ! hd_of rb # drop (Suc (hd_of rb)) xs" using q True oks(2) by (simp add: Cons_nth_drop_Suc)
    then show ?thesis using r(1,2) ring_queue_quiet [OF ring_run_ok [OF r(3) room]] assms(3) by auto
  next
    case False
    then have "hd_of rb = tl_of rb" using oks(2,3) by simp
    then show ?thesis using solo_pop_empty [OF ok assms(3) room] q oks(2) by auto
  qed
qed

subsection \<open>Concrete runs\<close>

lemma example_push:
  "\<exists>rb pcs. ring_run (0 :: nat) [7] [] rb pcs \<and> (\<forall>p. at_rest (pcs p)) \<and> head rb = 0 \<and> tl_of rb = 1"
proof -
  have "hd_of (new_RingBuffer (0 :: nat)) = 0" "tl_of (new_RingBuffer (0 :: nat)) = 0" "head (new_RingBuffer (0 :: nat)) = 0"
    by (simp_all add: new_RingBuffer_def)
  then obtain rb where r: "head rb = 0" "ring_run (0 :: nat) [7] [] rb ((\<lambda>p. Idle)(0 := Pushed True))"
    using solo_push [OF ring_run.start, of "0 :: nat" 7 0] by auto
  moreover have "tl_of rb = 1" using ring_okD(2) [OF ring_run_ok [OF r(2)]] by simp
  ultimately show ?thesis by (intro exI [of _ rb] exI [of _ "(\<lambda>p. Idle)(0 := Pushed True)"]) simp
qed

theorem ring_fifo_witness:
  "\<exists>rb pcs. ring_run (0 :: nat) [7] [(0, 7)] rb pcs \<and> (unat \<circ> fst) ` set [(0 :: u64, 7 :: nat)] = {..<unat (head rb)}"
proof -
  obtain rb0 pcs0 where a: "ring_run (0 :: nat) [7] [] rb0 pcs0" "\<forall>p. at_rest (pcs0 p)" "head rb0 = 0" "tl_of rb0 = 1"
    using example_push by blast
  then obtain rb where b: "ring_run (0 :: nat) [7] [(0, 7)] rb (pcs0(0 := Popped 7))"
    using solo_pop [OF a(1,2), of 0] by auto
  moreover have "\<forall>p. at_rest ((pcs0(0 := Popped 7)) p)" using a(2) by simp
  ultimately show ?thesis using ring_fifo [OF b] by auto
qed

theorem ring_no_race_witness:
  "\<exists>xs rb pcs. ring_run (0 :: nat) xs [] rb pcs \<and> data_slot (pcs 0) = Some 0 \<and> data_slot (pcs 1) \<noteq> Some 0"
proof -
  let ?rb = "new_RingBuffer (0 :: nat)" and ?i = "\<lambda>p :: nat. Idle :: nat ring_pc"
  have eq: "tail ?rb = 0" "seq (node_at ?rb 0) = 0" by (simp_all add: new_RingBuffer_def)
  have "ring_run 0 [] [] ?rb (?i(0 := PushLoad 7))" using ring_run.call_push [OF ring_run.start] by simp
  then have "ring_run 0 [] [] ?rb (?i(0 := PushSeq 7 0))"
    using ring_run.push_step [of 0 "[]" "[]" ?rb "?i(0 := PushLoad 7)" 0 ?rb] eq by simp
  then have "ring_run 0 [] [] ?rb (?i(0 := PushExchange 7 0))"
    using ring_run.push_step [of 0 "[]" "[]" ?rb "?i(0 := PushSeq 7 0)" 0 ?rb] eq by simp
  then have r: "ring_run 0 [7] [] (?rb\<lparr>tail := 1\<rparr>) (?i(0 := PushData 7 0))"
    using ring_run.push_step [of 0 "[]" "[]" ?rb "?i(0 := PushExchange 7 0)" 0 "?rb\<lparr>tail := 1\<rparr>"] eq by simp
  then show ?thesis using ring_no_race [OF r, of 0 1 0]
    by (intro exI [of _ "[7]"] exI [of _ "?rb\<lparr>tail := 1\<rparr>"] exI [of _ "?i(0 := PushData 7 0)"]) simp
qed

theorem ring_alone_witness:
  "\<exists>rb pcs. ring_run (0 :: nat) [7] [] rb pcs \<and> ring_queue rb = [7] \<and>
     (\<exists>rb'. (push_turn ^^ 5) (rb, PushLoad 8) = (rb', Pushed True) \<and> ring_queue rb' = [7, 8]) \<and>
     (\<exists>rb'. (pop_turn ^^ 5) (rb, PopLoad) = (rb', Popped 7) \<and> ring_queue rb' = [])"
proof -
  obtain rb pcs where a: "ring_run (0 :: nat) [7] [] rb pcs" "\<forall>p. at_rest (pcs p)" "head rb = 0" "tl_of rb = 1"
    using example_push by blast
  have "ring_queue rb = [7]" using ring_queue_quiet [OF ring_run_ok [OF a(1)] a(2)] a(3) by simp
  then show ?thesis using ring_alone [OF a(1) _ a(2), of 8] a(1) by (intro exI [of _ rb] exI [of _ pcs]) simp
qed

end
