(* ===== verification/Dubu_Pool.thy ===== *)
theory Dubu_Pool
  imports Dubu_Prelude "HOL-Library.Multiset"
begin

text \<open>
  The size-class pool of \<^verbatim>\<open>Pool.h/.cpp\<close>: blocks of 3582410 bytes are carved into chunks of 4 to 1024 bytes,
  kept in one free list per size; \<^verbatim>\<open>Pop\<close> takes a chunk of the size class of its type and \<^verbatim>\<open>Push\<close> gives it back.
  What \<^verbatim>\<open>malloc\<close> returns for a block is an argument.
\<close>

section \<open>Model\<close>

definition size_of_block :: nat where "size_of_block = 3582410"
definition MaxChunkSize :: nat where "MaxChunkSize = 1024"

record DubuByteData =
  block_ptr :: nat
  useCnt :: int

record Pool =
  PoolList :: "DubuByteData list"
  PoolChunkList :: "nat \<Rightarrow> nat list"

definition empty_Pool :: Pool where
  "empty_Pool = \<lparr>PoolList = [], PoolChunkList = (\<lambda>len. [])\<rparr>"

definition class_count :: "nat \<Rightarrow> nat" where
  "class_count len = (let cnt = 10000; cnt = (if len > 64 then 2500 else cnt) in if len > 512 then 100 else cnt)"

text \<open>The two loops of the constructor of \<^verbatim>\<open>DubuByteData\<close>.\<close>

fun carve_class :: "nat \<Rightarrow> nat \<Rightarrow> nat \<Rightarrow> nat \<Rightarrow> (nat \<Rightarrow> nat list) \<Rightarrow> nat \<times> (nat \<Rightarrow> nat list)" where
  "carve_class base 0 pos len fl = (pos, fl)"
| "carve_class base (Suc n) pos len fl =
     carve_class base n (pos + len) len (fl(len := fl len @ [base + pos]))"

fun carve :: "nat \<Rightarrow> nat \<Rightarrow> nat \<Rightarrow> nat \<Rightarrow> (nat \<Rightarrow> nat list) \<Rightarrow> nat \<times> (nat \<Rightarrow> nat list)" where
  "carve base 0 pos len fl = (pos, fl)"
| "carve base (Suc n) pos len fl =
     (let (pos1, fl1) = carve_class base (class_count len) pos len fl in carve base n pos1 (2 * len) fl1)"

definition add_block :: "nat \<Rightarrow> Pool \<Rightarrow> Pool" where
  "add_block base pl = \<lparr>PoolList = PoolList pl @ [\<lparr>block_ptr = base, useCnt = 0\<rparr>],
     PoolChunkList = snd (carve base 9 0 4 (PoolChunkList pl))\<rparr>"

definition in_block :: "nat \<Rightarrow> DubuByteData \<Rightarrow> bool" where
  "in_block p b = (block_ptr b \<le> p \<and> p < block_ptr b + size_of_block)"

text \<open>\<^verbatim>\<open>FindBlock\<close> gives the index of the first block with the address; without one the process exits.\<close>

fun FindBlock :: "nat \<Rightarrow> DubuByteData list \<Rightarrow> nat result" where
  "FindBlock p [] = Inl ProcessExit"
| "FindBlock p (b # bs) = (if in_block p b then Inr 0 else andThen (FindBlock p bs) (\<lambda>i. Inr (Suc i)))"

definition count_use :: "int \<Rightarrow> nat \<Rightarrow> Pool \<Rightarrow> Pool result" where
  "count_use d p pl = andThen (FindBlock p (PoolList pl)) (\<lambda>i.
     Inr (pl\<lparr>PoolList := (PoolList pl)[i := (PoolList pl ! i)\<lparr>useCnt := useCnt (PoolList pl ! i) + d\<rparr>]\<rparr>))"

text \<open>\<^verbatim>\<open>std::bit_ceil\<close>: the smallest power of two that is not smaller.\<close>

fun bit_ceil_from :: "nat \<Rightarrow> nat \<Rightarrow> nat \<Rightarrow> nat" where
  "bit_ceil_from 0 p n = p"
| "bit_ceil_from (Suc f) p n = (if n \<le> p then p else bit_ceil_from f (2 * p) n)"

definition bit_ceil :: "nat \<Rightarrow> nat" where
  "bit_ceil n = bit_ceil_from n 1 n"

text \<open>\<open>Pop\<close> and \<open>Push\<close> of objects of \<open>sz\<close> bytes up to 1024 (larger ones go to the object pool). \<^verbatim>\<open>back()\<close> of an
  empty vector is undefined.\<close>

definition Pool_Pop :: "nat \<Rightarrow> nat \<Rightarrow> Pool \<Rightarrow> (nat \<times> Pool) result" where
  "Pool_Pop base sz pl =
     (let len = bit_ceil sz;
          pl1 = (if PoolChunkList pl len = [] then add_block base pl else pl)
      in if PoolChunkList pl1 len = [] then Inl OutOfRange
         else let p = last (PoolChunkList pl1 len);
                  pl2 = pl1\<lparr>PoolChunkList := (PoolChunkList pl1)(len := butlast (PoolChunkList pl1 len))\<rparr>
              in andThen (count_use 1 p pl2) (\<lambda>pl3. Inr (p, pl3)))"

definition Pool_Push :: "nat \<Rightarrow> nat \<Rightarrow> Pool \<Rightarrow> Pool result" where
  "Pool_Push sz p pl =
     (let len = bit_ceil sz
      in count_use (- 1) p (pl\<lparr>PoolChunkList := (PoolChunkList pl)(len := PoolChunkList pl len @ [p])\<rparr>))"

definition Pool_Initialize :: "nat \<Rightarrow> Pool" where
  "Pool_Initialize base = add_block base empty_Pool"

section \<open>How a block is carved\<close>

definition sizes :: "nat list" where
  "sizes = [4, 8, 16, 32, 64, 128, 256, 512, 1024]"

lemma sizes_powers: "sizes = map (\<lambda>i. 4 * 2 ^ i) [0..<9]"
  by (simp add: sizes_def upt_conv_Cons)

lemma set_sizes: "set sizes = (\<lambda>i. 4 * 2 ^ i) ` {0..<9}"
  unfolding sizes_powers set_map set_upt ..

type_synonym region = "nat \<times> nat"

definition class_regions :: "nat \<Rightarrow> nat \<Rightarrow> nat \<Rightarrow> region list" where
  "class_regions start n len = map (\<lambda>j. (start + j * len, len)) [0..<n]"

text \<open>A list of regions that lie one directly after the other, from \<open>a\<close> to \<open>b\<close>.\<close>

fun packed :: "nat \<Rightarrow> region list \<Rightarrow> nat \<Rightarrow> bool" where
  "packed a [] b = (a = b)"
| "packed a ((p, len) # rs) b = (p = a \<and> 0 < len \<and> packed (a + len) rs b)"

lemma packed_append: "packed a (xs @ ys) b = (\<exists>m. packed a xs m \<and> packed m ys b)"
  by (induction xs arbitrary: a) auto

lemma class_regions_Suc: "class_regions s (Suc n) len = (s, len) # class_regions (s + len) n len"
  unfolding class_regions_def by (subst upt_conv_Cons) (auto simp: map_Suc_upt [symmetric] algebra_simps simp del: upt_Suc)

lemma packed_class: "0 < len \<Longrightarrow> packed s (class_regions s n len) (s + n * len)"
proof (induction n arbitrary: s)
  case (Suc n)
  then show ?case using Suc.IH [of "s + len"] by (simp add: class_regions_Suc algebra_simps)
qed (simp add: class_regions_def)

lemma packed_bounds: "packed a rs b \<Longrightarrow> a \<le> b \<and> (\<forall>(p, len) \<in> set rs. a \<le> p \<and> p + len \<le> b \<and> 0 < len)"
  by (induction a rs b rule: packed.induct) fastforce+

definition apart :: "region \<Rightarrow> region \<Rightarrow> bool" where
  "apart r q = (fst r + snd r \<le> fst q \<or> fst q + snd q \<le> fst r)"

lemma packed_apart:
  "packed a rs b \<Longrightarrow> distinct rs \<and> (\<forall>r \<in> set rs. \<forall>q \<in> set rs. r \<noteq> q \<longrightarrow> apart r q)"
proof (induction a rs b rule: packed.induct)
  case (2 a p len rs b)
  have b: "\<forall>(q, l) \<in> set rs. a + len \<le> q" using 2(2) packed_bounds [of "a + len" rs b] by fastforce
  then have "\<forall>q \<in> set rs. apart (p, len) q \<and> apart q (p, len)" using 2(2) by (fastforce simp: apart_def)
  moreover have "(p, len) \<notin> set rs" using b 2(2) by fastforce
  ultimately show ?case using 2 by auto
qed simp

text \<open>All chunks of a block, in the order of their addresses, and where the last one ends.\<close>

fun carved :: "nat \<Rightarrow> nat \<Rightarrow> nat \<Rightarrow> region list" where
  "carved 0 start len = []"
| "carved (Suc n) start len =
     class_regions start (class_count len) len @ carved n (start + class_count len * len) (2 * len)"

fun carved_size :: "nat \<Rightarrow> nat \<Rightarrow> nat" where
  "carved_size 0 len = 0"
| "carved_size (Suc n) len = class_count len * len + carved_size n (2 * len)"

definition block_regions :: "nat \<Rightarrow> region list" where
  "block_regions base = carved 9 base 4"

lemma packed_carved: "0 < len \<Longrightarrow> packed start (carved n start len) (start + carved_size n len)"
proof (induction n arbitrary: start len)
  case (Suc n)
  then show ?case
    using packed_class [of len start "class_count len"] Suc.IH [of "2 * len" "start + class_count len * len"]
    by (auto simp: packed_append algebra_simps)
qed simp

lemma carved_size_numeral:
  "carved_size (numeral k) len = class_count len * len + carved_size (pred_numeral k) (2 * len)"
  by (simp add: numeral_eq_Suc)

lemma carved_size_block: "carved_size 9 4 = 3582400"
  by (simp add: carved_size_numeral class_count_def)

lemma packed_block: "packed base (block_regions base) (base + 3582400)"
  using packed_carved [of 4 base 9] by (simp add: carved_size_block block_regions_def)

text \<open>The chunks on the free lists, with their sizes.\<close>

definition free_chunks :: "(nat \<Rightarrow> nat list) \<Rightarrow> region multiset" where
  "free_chunks fl = (\<Sum>len \<leftarrow> sizes. image_mset (\<lambda>p. (p, len)) (mset (fl len)))"

lemma free_chunks_upd:
  assumes "len \<in> set sizes" "mset ps = mset (fl len) + M"
  shows "free_chunks (fl(len := ps)) = free_chunks fl + image_mset (\<lambda>p. (p, len)) M"
  using assms(1) unfolding free_chunks_def sizes_def
  by (auto simp: assms(2) add_ac)

lemma carve_class_effect:
  assumes "len \<in> set sizes"
  shows "fst (carve_class base n pos len fl) = pos + n * len \<and>
    free_chunks (snd (carve_class base n pos len fl)) = free_chunks fl + mset (class_regions (base + pos) n len) \<and>
    (\<forall>k. k \<noteq> len \<longrightarrow> snd (carve_class base n pos len fl) k = fl k)"
proof (induction n arbitrary: pos fl)
  case (Suc n)
  define fl' where "fl' = fl(len := fl len @ [base + pos])"
  have "free_chunks fl' = free_chunks fl + {#(base + pos, len)#}"
    using free_chunks_upd [OF assms, of "fl len @ [base + pos]" fl "{#base + pos#}"] by (simp add: fl'_def)
  moreover have "k \<noteq> len \<Longrightarrow> fl' k = fl k" for k by (simp add: fl'_def)
  ultimately show ?case using Suc.IH [of "pos + len" fl']
    by (simp add: class_regions_Suc fl'_def [symmetric] algebra_simps)
qed (simp add: class_regions_def)

lemma carve_effect:
  "\<forall>i < n. len * 2 ^ i \<in> set sizes \<Longrightarrow>
   fst (carve base n pos len fl) = pos + carved_size n len \<and>
   free_chunks (snd (carve base n pos len fl)) = free_chunks fl + mset (carved n (base + pos) len) \<and>
   (\<forall>k. k \<notin> set sizes \<longrightarrow> snd (carve base n pos len fl) k = fl k)"
proof (induction n arbitrary: pos len fl)
  case (Suc n)
  have len: "len \<in> set sizes" using Suc.prems by auto
  have rest: "\<forall>i < n. 2 * len * 2 ^ i \<in> set sizes"
  proof (intro allI impI)
    fix i assume "i < n"
    then show "2 * len * 2 ^ i \<in> set sizes" using Suc.prems [rule_format, of "Suc i"] by (simp add: mult_ac)
  qed
  obtain pos1 fl1 where c: "carve_class base (class_count len) pos len fl = (pos1, fl1)" by force
  note e = carve_class_effect [OF len, of base "class_count len" pos fl, unfolded c, simplified]
  show ?case using Suc.IH [OF rest, of pos1 fl1] e len c by (auto simp: add_ac)
qed simp

lemma carve_block:
  "fst (carve base 9 0 4 fl) = 3582400 \<and>
   free_chunks (snd (carve base 9 0 4 fl)) = free_chunks fl + mset (block_regions base) \<and>
   (\<forall>k. k \<notin> set sizes \<longrightarrow> snd (carve base 9 0 4 fl) k = fl k)"
proof -
  have "\<forall>i < 9. (4 :: nat) * 2 ^ i \<in> set sizes" by (simp add: set_sizes)
  from carve_effect [OF this, of base 0 fl] show ?thesis by (simp add: carved_size_block block_regions_def)
qed

section \<open>The invariant\<close>

definition blocks_apart :: "DubuByteData list \<Rightarrow> bool" where
  "blocks_apart = sorted_wrt (\<lambda>b c. apart (block_ptr b, size_of_block) (block_ptr c, size_of_block))"

definition all_regions :: "DubuByteData list \<Rightarrow> region multiset" where
  "all_regions bs = (\<Sum>b \<leftarrow> bs. mset (block_regions (block_ptr b)))"

text \<open>Every chunk of every block is on a free list or in use, and the use counts of the blocks are right.\<close>

definition pool_ok :: "Pool \<Rightarrow> region multiset \<Rightarrow> bool" where
  "pool_ok pl used = (blocks_apart (PoolList pl) \<and>
     free_chunks (PoolChunkList pl) + used = all_regions (PoolList pl) \<and>
     (\<forall>k. k \<notin> set sizes \<longrightarrow> PoolChunkList pl k = []) \<and>
     (\<forall>b \<in> set (PoolList pl). useCnt b = int (size (filter_mset (\<lambda>r. in_block (fst r) b) used))))"

lemma block_region_in: "(p, len) \<in> set (block_regions base) \<Longrightarrow> base \<le> p \<and> p + len \<le> base + 3582400 \<and> 0 < len"
  using packed_bounds [OF packed_block] by fastforce

lemma all_regions_in:
  "(p, len) \<in># all_regions bs \<Longrightarrow> \<exists>b \<in> set bs. block_ptr b \<le> p \<and> p + len \<le> block_ptr b + 3582400 \<and> 0 < len"
  unfolding all_regions_def by (induction bs) (auto dest!: block_region_in)

lemma all_regions_Cons: "all_regions (b # bs) = mset (block_regions (block_ptr b)) + all_regions bs"
  by (simp add: all_regions_def)

lemma all_regions_apart:
  "blocks_apart bs \<Longrightarrow> (\<forall>r. count (all_regions bs) r \<le> 1) \<and>
     (\<forall>r \<in># all_regions bs. \<forall>q \<in># all_regions bs. r \<noteq> q \<longrightarrow> apart r q)"
proof (induction bs)
  case (Cons b bs)
  let ?h = "block_regions (block_ptr b)"
  have ih: "\<forall>r. count (all_regions bs) r \<le> 1" "\<forall>r \<in># all_regions bs. \<forall>q \<in># all_regions bs. r \<noteq> q \<longrightarrow> apart r q"
    using Cons by (auto simp: blocks_apart_def)
  have h: "distinct ?h" "\<forall>r \<in> set ?h. \<forall>q \<in> set ?h. r \<noteq> q \<longrightarrow> apart r q"
    using packed_apart [OF packed_block] by auto
  have cross: "apart r q \<and> apart q r \<and> r \<noteq> q" if rq: "r \<in> set ?h" "q \<in># all_regions bs" for r q
  proof -
    obtain c where c: "c \<in> set bs" "block_ptr c \<le> fst q" "fst q + snd q \<le> block_ptr c + 3582400" "0 < snd q"
      using rq(2) all_regions_in [of "fst q" "snd q" bs] by auto
    have "block_ptr b \<le> fst r" "fst r + snd r \<le> block_ptr b + 3582400" "0 < snd r"
      using block_region_in [of "fst r" "snd r" "block_ptr b"] rq(1) by auto
    then show ?thesis using Cons.prems c by (auto simp: blocks_apart_def apart_def size_of_block_def)
  qed
  have "count (mset ?h) r = (if r \<in> set ?h then 1 else 0)" for r using h(1) unfolding distinct_count_atmost_1 by blast
  then have "count (all_regions (b # bs)) r \<le> 1" for r
    using ih(1) [rule_format, of r] cross [of r r] not_in_iff [of r "all_regions bs"]
    by (cases "r \<in> set ?h") (auto simp: all_regions_Cons)
  moreover have "apart r q" if "r \<in># all_regions (b # bs)" "q \<in># all_regions (b # bs)" "r \<noteq> q" for r q
    using that h(2) ih(2) cross unfolding all_regions_Cons by (metis set_mset_mset union_iff)
  ultimately show ?case by blast
qed (simp add: all_regions_def)

lemma FindBlock_found:
  "\<exists>b \<in> set bs. in_block p b \<Longrightarrow> \<exists>i < length bs. FindBlock p bs = Inr i \<and> in_block p (bs ! i)"
proof (induction bs)
  case (Cons b bs)
  show ?case
  proof (cases "in_block p b")
    case False
    then obtain i where "i < length bs" "FindBlock p bs = Inr i" "in_block p (bs ! i)" using Cons by auto
    then show ?thesis using False by (intro exI [of _ "Suc i"]) simp
  qed auto
qed simp

lemma one_block:
  assumes "blocks_apart bs" "i < length bs" "j < length bs" "in_block p (bs ! i)" "in_block p (bs ! j)"
  shows "i = j"
proof (rule ccontr)
  assume "i \<noteq> j"
  then consider "i < j" | "j < i" by linarith
  then show False
  proof cases
    case 1
    then show False using assms sorted_wrt_nth_less [OF assms(1) [unfolded blocks_apart_def], of i j]
      by (auto simp: apart_def in_block_def)
  next
    case 2
    then show False using assms sorted_wrt_nth_less [OF assms(1) [unfolded blocks_apart_def], of j i]
      by (auto simp: apart_def in_block_def)
  qed
qed

lemma same_blocks:
  assumes "map block_ptr bs = map block_ptr cs"
  shows "blocks_apart bs = blocks_apart cs" "all_regions bs = all_regions cs"
proof -
  have len: "length bs = length cs" using assms map_eq_imp_length_eq by blast
  have "i < length bs \<Longrightarrow> block_ptr (bs ! i) = block_ptr (cs ! i)" for i using assms len by (metis nth_map)
  then show "blocks_apart bs = blocks_apart cs" using len by (simp add: blocks_apart_def sorted_wrt_iff_nth_less)
  have "all_regions bs = (\<Sum>a \<leftarrow> map block_ptr bs. mset (block_regions a))" for bs by (simp add: all_regions_def o_def)
  then show "all_regions bs = all_regions cs" using assms by metis
qed

text \<open>Counting a chunk in or out.\<close>

lemma count_use_effect:
  assumes "blocks_apart (PoolList pl)" "\<exists>b \<in> set (PoolList pl). in_block p b"
  shows "\<exists>pl'. count_use d p pl = Inr pl' \<and> PoolChunkList pl' = PoolChunkList pl \<and>
    map block_ptr (PoolList pl') = map block_ptr (PoolList pl) \<and>
    (\<forall>b' \<in> set (PoolList pl'). \<exists>b \<in> set (PoolList pl). block_ptr b = block_ptr b' \<and>
       useCnt b' = useCnt b + (if in_block p b then d else 0))"
proof -
  let ?bs = "PoolList pl"
  obtain i where i: "i < length ?bs" "FindBlock p ?bs = Inr i" "in_block p (?bs ! i)"
    using FindBlock_found [OF assms(2)] by blast
  let ?b = "(?bs ! i)\<lparr>useCnt := useCnt (?bs ! i) + d\<rparr>"
  have "\<exists>b \<in> set ?bs. block_ptr b = block_ptr b' \<and> useCnt b' = useCnt b + (if in_block p b then d else 0)"
    if mem: "b' \<in> set (?bs[i := ?b])" for b'
  proof -
    obtain j where j: "j < length ?bs" "b' = ?bs[i := ?b] ! j" using mem by (metis in_set_conv_nth length_list_update)
    then show ?thesis
      using i one_block [OF assms(1) i(1) j(1) i(3)] by (intro bexI [of _ "?bs ! j"]) (auto simp: nth_list_update)
  qed
  moreover have "map block_ptr (?bs[i := ?b]) = map block_ptr ?bs" using i(1) by (simp add: map_update list_update_same_conv)
  ultimately show ?thesis using i(2) by (simp add: count_use_def andThen_def)
qed

lemma free_chunks_mem: "(p, len) \<in># free_chunks fl = (len \<in> set sizes \<and> p \<in> set (fl len))"
  by (auto simp: free_chunks_def sizes_def)

lemma carved_has:
  "i < n \<Longrightarrow> \<exists>p. (p, len * 2 ^ i) \<in> set (carved n start len)"
proof (induction n arbitrary: i start len)
  case (Suc n)
  show ?case
  proof (cases i)
    case 0
    have "0 < class_count len" by (simp add: class_count_def Let_def)
    then have "(start, len) \<in> set (class_regions start (class_count len) len)"
      by (auto simp: class_regions_def image_iff intro: bexI [of _ 0])
    then show ?thesis using 0 by auto
  next
    case (Suc j)
    then show ?thesis using Suc.IH [of j "2 * len" "start + class_count len * len"] Suc.prems
      by (auto simp: mult_ac)
  qed
qed simp

lemma block_has: "len \<in> set sizes \<Longrightarrow> \<exists>p. (p, len) \<in> set (block_regions base)"
proof -
  assume "len \<in> set sizes"
  then have "\<exists>i < 9. len = 4 * 2 ^ i" by (auto simp: set_sizes)
  then show ?thesis using carved_has [of _ 9 4 base] by (auto simp: block_regions_def)
qed

definition fresh_block :: "nat \<Rightarrow> Pool \<Rightarrow> bool" where
  "fresh_block base pl = (\<forall>b \<in> set (PoolList pl). apart (block_ptr b, size_of_block) (base, size_of_block))"

lemma used_in_blocks:
  "pool_ok pl used \<Longrightarrow> r \<in># used \<Longrightarrow> r \<in># all_regions (PoolList pl)"
  unfolding pool_ok_def by (metis union_iff)

lemma add_block_ok:
  assumes ok: "pool_ok pl used" and fresh: "fresh_block base pl"
  shows "pool_ok (add_block base pl) used"
proof -
  let ?b = "\<lparr>block_ptr = base, useCnt = 0\<rparr>"
  have "\<not> in_block (fst r) ?b" if mem: "r \<in># used" for r
  proof -
    obtain c where "c \<in> set (PoolList pl)" "block_ptr c \<le> fst r" "fst r + snd r \<le> block_ptr c + 3582400" "0 < snd r"
      using all_regions_in [of "fst r" "snd r"] used_in_blocks [OF ok mem] by auto
    then show ?thesis using fresh by (fastforce simp: fresh_block_def apart_def in_block_def size_of_block_def)
  qed
  then have none: "filter_mset (\<lambda>r. in_block (fst r) ?b) used = {#}"
    using filter_mset_cong [of used used "\<lambda>r. in_block (fst r) ?b" "\<lambda>r. False"] by simp
  have "blocks_apart (PoolList pl @ [?b])"
    using ok fresh by (auto simp: pool_ok_def blocks_apart_def sorted_wrt_append fresh_block_def)
  then show ?thesis using ok carve_block [of base "PoolChunkList pl"] none
    by (auto simp: pool_ok_def add_block_def all_regions_def add_ac)
qed

lemma Pool_Pop_effect:
  assumes ok: "pool_ok pl used" and fresh: "fresh_block base pl" and len: "bit_ceil sz \<in> set sizes"
  shows "\<exists>p pl'. Pool_Pop base sz pl = Inr (p, pl') \<and> pool_ok pl' (add_mset (p, bit_ceil sz) used)"
proof -
  let ?len = "bit_ceil sz"
  define pl1 where "pl1 = (if PoolChunkList pl ?len = [] then add_block base pl else pl)"
  have ok1: "pool_ok pl1 used" using ok add_block_ok [OF ok fresh] by (simp add: pl1_def)
  have ne: "PoolChunkList pl1 ?len \<noteq> []"
  proof (cases "PoolChunkList pl ?len = []")
    case True
    obtain q where "(q, ?len) \<in># mset (block_regions base)" using block_has [OF len] by auto
    then have "(q, ?len) \<in># free_chunks (PoolChunkList pl1)"
      using True carve_block [of base "PoolChunkList pl"] by (simp add: pl1_def add_block_def)
    then show ?thesis by (auto simp: free_chunks_mem)
  qed (simp add: pl1_def)
  define p where "p = last (PoolChunkList pl1 ?len)"
  define fl where "fl = (PoolChunkList pl1)(?len := butlast (PoolChunkList pl1 ?len))"
  have "PoolChunkList pl1 = fl(?len := fl ?len @ [p])" using ne by (simp add: fl_def p_def)
  then have fl: "free_chunks (PoolChunkList pl1) = free_chunks fl + {#(p, ?len)#}"
    using free_chunks_upd [OF len, of "fl ?len @ [p]" fl "{#p#}"] by simp
  then have "(p, ?len) \<in># all_regions (PoolList pl1)" using ok1 unfolding pool_ok_def by (metis multi_member_last union_iff)
  then obtain b where "b \<in> set (PoolList pl1)" "in_block p b"
    using all_regions_in by (fastforce simp: in_block_def size_of_block_def)
  then obtain pl' where pl': "count_use 1 p (pl1\<lparr>PoolChunkList := fl\<rparr>) = Inr pl'" "PoolChunkList pl' = fl"
      "map block_ptr (PoolList pl') = map block_ptr (PoolList pl1)"
      "\<forall>b' \<in> set (PoolList pl'). \<exists>b \<in> set (PoolList pl1). block_ptr b = block_ptr b' \<and>
         useCnt b' = useCnt b + (if in_block p b then 1 else 0)"
    using count_use_effect [of "pl1\<lparr>PoolChunkList := fl\<rparr>" p 1] ok1 by (auto simp: pool_ok_def)
  have "k \<notin> set sizes \<Longrightarrow> fl k = []" for k using ok1 len by (auto simp: fl_def pool_ok_def)
  then have "pool_ok pl' (add_mset (p, ?len) used)"
    using ok1 fl pl' same_blocks [OF pl'(3)] by (fastforce simp: pool_ok_def in_block_def)
  moreover have "Pool_Pop base sz pl = Inr (p, pl')"
    using ne pl'(1) by (simp add: Pool_Pop_def Let_def pl1_def [symmetric] p_def [symmetric] fl_def [symmetric])
  ultimately show ?thesis by blast
qed

lemma carved_len: "(p, l) \<in> set (carved n start len) \<Longrightarrow> \<exists>i < n. l = len * 2 ^ i"
proof (induction n arbitrary: start len)
  case (Suc n)
  consider "l = len" | "(p, l) \<in> set (carved n (start + class_count len * len) (2 * len))"
    using Suc.prems by (auto simp: class_regions_def)
  then show ?case
  proof cases
    case 2
    then obtain i where "i < n" "l = 2 * len * 2 ^ i" using Suc.IH by blast
    then show ?thesis by (intro exI [of _ "Suc i"]) (simp add: mult_ac)
  qed (auto intro: exI [of _ 0])
qed simp

lemma all_regions_len: "(p, l) \<in># all_regions bs \<Longrightarrow> l \<in> set sizes"
proof -
  assume "(p, l) \<in># all_regions bs"
  then obtain b where "(p, l) \<in> set (block_regions b)" unfolding all_regions_def by (induction bs) auto
  then obtain i where "i < 9" "l = 4 * 2 ^ i" using carved_len unfolding block_regions_def by blast
  then show ?thesis by (simp add: set_sizes)
qed

lemma Pool_Push_effect:
  assumes ok: "pool_ok pl used" and mem: "(p, bit_ceil sz) \<in># used"
  shows "\<exists>pl'. Pool_Push sz p pl = Inr pl' \<and> pool_ok pl' (used - {#(p, bit_ceil sz)#})"
proof -
  let ?len = "bit_ceil sz"
  define fl where "fl = (PoolChunkList pl)(?len := PoolChunkList pl ?len @ [p])"
  have all: "(p, ?len) \<in># all_regions (PoolList pl)" using used_in_blocks [OF ok mem] .
  have len: "?len \<in> set sizes" using all_regions_len [OF all] .
  have fl: "free_chunks fl = free_chunks (PoolChunkList pl) + {#(p, ?len)#}"
    using free_chunks_upd [OF len, of "PoolChunkList pl ?len @ [p]" "PoolChunkList pl" "{#p#}"] by (simp add: fl_def)
  obtain b where "b \<in> set (PoolList pl)" "in_block p b"
    using all_regions_in [OF all] by (fastforce simp: in_block_def size_of_block_def)
  then obtain pl' where pl': "count_use (- 1) p (pl\<lparr>PoolChunkList := fl\<rparr>) = Inr pl'" "PoolChunkList pl' = fl"
      "map block_ptr (PoolList pl') = map block_ptr (PoolList pl)"
      "\<forall>b' \<in> set (PoolList pl'). \<exists>b \<in> set (PoolList pl). block_ptr b = block_ptr b' \<and>
         useCnt b' = useCnt b + (if in_block p b then - 1 else 0)"
    using count_use_effect [of "pl\<lparr>PoolChunkList := fl\<rparr>" p "- 1"] ok by (auto simp: pool_ok_def)
  obtain rest where rest: "used = add_mset (p, ?len) rest" using mem by (metis mset_add)
  have "k \<notin> set sizes \<Longrightarrow> fl k = []" for k using ok len by (auto simp: fl_def pool_ok_def)
  then have "pool_ok pl' rest"
    using ok fl pl' same_blocks [OF pl'(3)] rest by (fastforce simp: pool_ok_def in_block_def)
  moreover have "Pool_Push sz p pl = Inr pl'" using pl'(1) by (simp add: Pool_Push_def Let_def fl_def)
  ultimately show ?thesis using rest by auto
qed

section \<open>What the pool guarantees\<close>

inductive pool_run :: "Pool \<Rightarrow> region multiset \<Rightarrow> bool" where
  start: "pool_run (Pool_Initialize base) {#}"
| pop: "pool_run pl used \<Longrightarrow> 0 < sz \<Longrightarrow> sz \<le> MaxChunkSize \<Longrightarrow> fresh_block base pl \<Longrightarrow>
    Pool_Pop base sz pl = Inr (p, pl') \<Longrightarrow> pool_run pl' (add_mset (p, bit_ceil sz) used)"
| push: "pool_run pl used \<Longrightarrow> (p, bit_ceil sz) \<in># used \<Longrightarrow> Pool_Push sz p pl = Inr pl' \<Longrightarrow>
    pool_run pl' (used - {#(p, bit_ceil sz)#})"

lemma bit_ceil_from_ge: "n \<le> p * 2 ^ f \<Longrightarrow> n \<le> bit_ceil_from f p n"
  by (induction f p n rule: bit_ceil_from.induct) (auto simp: mult_ac)

lemma bit_ceil_ge: "n \<le> bit_ceil n"
  unfolding bit_ceil_def by (rule bit_ceil_from_ge) (simp add: less_imp_le)

lemma bit_ceil_from_pow: "\<exists>i. bit_ceil_from f p n = p * 2 ^ i \<and> (i = 0 \<or> p * 2 ^ i < 2 * n)"
proof (induction f p n rule: bit_ceil_from.induct)
  case (2 f p n)
  show ?case
  proof (cases "n \<le> p")
    case False
    then obtain i where i: "bit_ceil_from f (2 * p) n = 2 * p * 2 ^ i" "i = 0 \<or> 2 * p * 2 ^ i < 2 * n" using 2 by blast
    then show ?thesis using False by (intro exI [of _ "Suc i"]) (auto simp: mult_ac)
  qed (auto intro: exI [of _ 0])
qed (auto intro: exI [of _ 0])

text \<open>The size class of an object of 3 to 1024 bytes is one the pool has; 1 and 2 have none.\<close>

lemma bit_ceil_sizes:
  assumes "2 < n" "n \<le> 1024"
  shows "bit_ceil n \<in> set sizes"
proof -
  obtain i where i: "bit_ceil n = 2 ^ i" "i = 0 \<or> 2 ^ i < 2 * n" using bit_ceil_from_pow [of n 1 n] by (auto simp: bit_ceil_def)
  have "(2 :: nat) ^ i < 2 ^ 11" using i(2) assms by auto
  then have "i < 11" by (rule power_less_imp_less_exp [rotated]) simp
  moreover have "2 \<le> i" using bit_ceil_ge [of n] i(1) assms(1) power_increasing [of i 1 "2 :: nat"] by (cases "i \<le> 1") auto
  moreover have "(2 :: nat) ^ i = 2 ^ 2 * 2 ^ (i - 2)" using \<open>2 \<le> i\<close> by (metis le_add_diff_inverse power_add)
  ultimately have "i - 2 < 9" "bit_ceil n = 4 * 2 ^ (i - 2)" using i(1) by simp_all
  then show ?thesis unfolding set_sizes by simp
qed

lemma bit_ceil_small: "bit_ceil 1 = 1" "bit_ceil 2 = 2"
  by (simp_all add: bit_ceil_def eval_nat_numeral)

lemma pool_ok_start: "pool_ok (Pool_Initialize base) {#}"
proof -
  have "pool_ok empty_Pool {#}"
    by (simp add: pool_ok_def empty_Pool_def blocks_apart_def all_regions_def free_chunks_def sizes_def)
  then show ?thesis unfolding Pool_Initialize_def by (rule add_block_ok) (simp add: fresh_block_def empty_Pool_def)
qed

lemma Pool_Pop_small:
  assumes "pool_ok pl used" "sz = 1 \<or> sz = 2"
  shows "Pool_Pop base sz pl = Inl OutOfRange"
proof -
  have k: "bit_ceil sz \<notin> set sizes" using assms(2) bit_ceil_small by (auto simp: sizes_def)
  then have "PoolChunkList pl (bit_ceil sz) = []" using assms(1) by (auto simp: pool_ok_def)
  moreover have "PoolChunkList (add_block base pl) (bit_ceil sz) = PoolChunkList pl (bit_ceil sz)"
    using carve_block [of base "PoolChunkList pl"] k by (simp add: add_block_def)
  ultimately show ?thesis by (simp add: Pool_Pop_def Let_def)
qed

lemma pool_run_ok: "pool_run pl used \<Longrightarrow> pool_ok pl used"
proof (induction rule: pool_run.induct)
  case (start base)
  show ?case by (rule pool_ok_start)
next
  case (pop pl used sz base p pl')
  have "2 < sz" using pop Pool_Pop_small [of pl used sz base] by (cases "sz = 1 \<or> sz = 2") auto
  then show ?case using pop Pool_Pop_effect [of pl used base sz] bit_ceil_sizes [of sz]
    by (auto simp: MaxChunkSize_def)
next
  case (push pl used p sz pl')
  then show ?case using Pool_Push_effect [of pl used p sz] by auto
qed

text \<open>
  C36. The chunks handed out by the pool never overlap: in every reachable state each chunk in use is there once, lies
  inside one block, and has no byte in common with any other chunk in use.
\<close>
theorem pool_chunks_apart:
  assumes "pool_run pl used"
  shows "(\<forall>r. count used r \<le> 1) \<and> (\<forall>r \<in># used. \<forall>q \<in># used. r \<noteq> q \<longrightarrow> apart r q) \<and>
    (\<forall>(p, len) \<in># used. \<exists>b \<in> set (PoolList pl). block_ptr b \<le> p \<and> p + len \<le> block_ptr b + size_of_block)"
proof -
  note ok = pool_run_ok [OF assms]
  note all = all_regions_apart [of "PoolList pl"]
  have "count used r \<le> count (all_regions (PoolList pl)) r" for r
    using ok unfolding pool_ok_def by (metis count_union le_add2)
  moreover have "blocks_apart (PoolList pl)" using ok by (simp add: pool_ok_def)
  ultimately have "\<forall>r. count used r \<le> 1" "\<forall>r \<in># used. \<forall>q \<in># used. r \<noteq> q \<longrightarrow> apart r q"
    using all used_in_blocks [OF ok] by (meson order_trans)+
  moreover have "\<exists>b \<in> set (PoolList pl). block_ptr b \<le> p \<and> p + len \<le> block_ptr b + size_of_block"
    if "(p, len) \<in># used" for p len
    using all_regions_in [OF used_in_blocks [OF ok that]] by (force simp: size_of_block_def)
  ultimately show ?thesis by auto
qed

text \<open>
  C37. \<^verbatim>\<open>Pop\<close> of an object of 3 to 1024 bytes always succeeds (it adds a block when the free list is empty) with a
  chunk at least as large as the object that was not in use, and \<^verbatim>\<open>Push\<close> of a chunk in use always finds its
  block and gives the chunk back.
\<close>
theorem pool_total:
  assumes "pool_run pl used" "2 < sz" "sz \<le> MaxChunkSize" "fresh_block base pl"
  shows "(\<exists>p pl'. Pool_Pop base sz pl = Inr (p, pl') \<and> sz \<le> bit_ceil sz \<and> (p, bit_ceil sz) \<notin># used \<and>
      pool_run pl' (add_mset (p, bit_ceil sz) used)) \<and>
    (\<forall>p. (p, bit_ceil sz) \<in># used \<longrightarrow>
      (\<exists>pl'. Pool_Push sz p pl = Inr pl' \<and> pool_run pl' (used - {#(p, bit_ceil sz)#})))"
proof
  note ok = pool_run_ok [OF assms(1)]
  have len: "bit_ceil sz \<in> set sizes" using bit_ceil_sizes assms(2,3) by (simp add: MaxChunkSize_def)
  obtain p pl' where p: "Pool_Pop base sz pl = Inr (p, pl')" "pool_ok pl' (add_mset (p, bit_ceil sz) used)"
    using Pool_Pop_effect [OF ok assms(4) len] by blast
  have "blocks_apart (PoolList pl')" using p(2) by (simp add: pool_ok_def)
  then have "count (all_regions (PoolList pl')) (p, bit_ceil sz) \<le> 1" using all_regions_apart by blast
  then have "count (add_mset (p, bit_ceil sz) used) (p, bit_ceil sz) \<le> 1"
    using p(2) unfolding pool_ok_def by (metis count_union le_add2 order_trans)
  then have "(p, bit_ceil sz) \<notin># used" by (simp add: not_in_iff)
  moreover have "pool_run pl' (add_mset (p, bit_ceil sz) used)"
    using pool_run.pop [OF assms(1) _ assms(3,4) p(1)] assms(2) by simp
  ultimately show "\<exists>p pl'. Pool_Pop base sz pl = Inr (p, pl') \<and> sz \<le> bit_ceil sz \<and> (p, bit_ceil sz) \<notin># used \<and>
      pool_run pl' (add_mset (p, bit_ceil sz) used)" using p(1) bit_ceil_ge by blast
  show "\<forall>p. (p, bit_ceil sz) \<in># used \<longrightarrow>
      (\<exists>pl'. Pool_Push sz p pl = Inr pl' \<and> pool_run pl' (used - {#(p, bit_ceil sz)#}))"
    using Pool_Push_effect [OF ok] pool_run.push [OF assms(1)] by blast
qed

text \<open>
  An object of one or two bytes has no size class: \<^verbatim>\<open>Pop\<close> adds a block in vain and takes the last element of an
  empty list.
\<close>
theorem pool_small_undefined:
  assumes "pool_run pl used" "sz = 1 \<or> sz = 2"
  shows "Pool_Pop base sz pl = Inl OutOfRange"
  using Pool_Pop_small [OF pool_run_ok [OF assms(1)] assms(2)] .

lemma fresh_example: "fresh_block 10000000 (Pool_Initialize 0)"
  by (simp add: fresh_block_def Pool_Initialize_def add_block_def empty_Pool_def apart_def size_of_block_def)

lemma example_pool: "\<exists>pl p. pool_run pl {#(p, 16)#}"
proof -
  have c: "bit_ceil 12 = 16" by (simp add: bit_ceil_def eval_nat_numeral)
  then have "bit_ceil 12 \<in> set sizes" by (simp add: sizes_def)
  then obtain p pl where "Pool_Pop 10000000 12 (Pool_Initialize 0) = Inr (p, pl)"
    using Pool_Pop_effect [OF pool_ok_start fresh_example] by blast
  from pool_run.pop [OF pool_run.start _ _ fresh_example this] show ?thesis
    unfolding c by (auto simp: MaxChunkSize_def)
qed

theorem pool_chunks_apart_witness:
  "\<exists>pl p. pool_run pl {#(p, 16)#} \<and> (\<exists>b \<in> set (PoolList pl). block_ptr b \<le> p \<and> p + 16 \<le> block_ptr b + size_of_block)"
proof -
  obtain pl p where r: "pool_run pl {#(p, 16)#}" using example_pool by blast
  then show ?thesis using pool_chunks_apart [OF r] by auto
qed

theorem pool_total_witness:
  "\<exists>p pl'. Pool_Pop 10000000 12 (Pool_Initialize 0) = Inr (p, pl')"
  using pool_total [OF pool_run.start, of 12 10000000 0] fresh_example by (auto simp: MaxChunkSize_def)

theorem pool_small_undefined_witness: "Pool_Pop 10000000 2 (Pool_Initialize 0) = Inl OutOfRange"
  using pool_small_undefined [OF pool_run.start] by simp

end
