(* ===== verification/Dubu_Retransmit.thy ===== *)
theory Dubu_Retransmit
  imports Dubu_Wire
begin

text \<open>
  Retransmission, \<^verbatim>\<open>RepeatMessage\<close> of \<^verbatim>\<open>Session.cpp\<close>, \<^verbatim>\<open>Client.cpp\<close> and \<^verbatim>\<open>InternalClient.cpp\<close>: which
  packets of a window go on the wire again, and with which bytes.
\<close>

text \<open>The datagram a packet buffer holds.\<close>

definition datagram :: "World \<Rightarrow> ptr \<Rightarrow> bytes" where
  "datagram w p = take (unat (osize (packets w p))) (obuffer (packets w p))"

text \<open>A pending packet is due when the kernel has finished sending it and the delay has passed since then.\<close>

definition due_again :: "u32 \<Rightarrow> u32 \<Rightarrow> World \<Rightarrow> PendingPacket \<Rightarrow> ptr option" where
  "due_again resendDelay now w pp =
     (case pp_buffer pp of
        None \<Rightarrow> None
      | Some p \<Rightarrow> if otype (packets w p) AND obj_type SENDING = 0 \<and> resendDelay \<le> now - pp_timeStamp pp
                  then Some p else None)"

definition resends :: "SOCKADDR_IN \<Rightarrow> u32 \<Rightarrow> u32 \<Rightarrow> World \<Rightarrow> PendingPacket list \<Rightarrow> u32 list \<Rightarrow> (SOCKADDR_IN \<times> bytes) list" where
  "resends to resendDelay now w pend qs =
     map (\<lambda>p. (to, datagram w p)) (List.map_filter (\<lambda>q. due_again resendDelay now w (pend ! slot q)) qs)"

definition numbers :: "u32 \<Rightarrow> u32 \<Rightarrow> u32 list" where
  "numbers a b = map of_nat [unat a..<unat b]"

lemma numbers_same [simp]: "numbers a a = []"
  by (simp add: numbers_def)

lemma numbers_Cons:
  assumes "unat a < unat b"
  shows "numbers a b = a # numbers (a + 1) b"
proof -
  have "unat (a + 1) = Suc (unat a)" using assms unat_less_u32 [of b] unat_inc [of a] by linarith
  then show ?thesis using assms by (simp add: numbers_def upt_conv_Cons)
qed

lemma set_numbers: "set (numbers a b) = {q. unat a \<le> unat q \<and> unat q < unat b}"
proof -
  have "q = of_nat (unat q)" for q :: u32 by simp
  moreover have "unat (of_nat n :: u32) = n" if "n < unat b" for n
    using that unat_less_u32 [of b] by (simp add: unat_of_nat)
  ultimately show ?thesis by (auto simp: numbers_def intro!: image_eqI [where x = "unat _"])
qed

lemma SendToRepeat_effect:
  assumes "SendToRepeat to p w = Inr w'"
  shows "wire w' = wire w @ [(to, datagram w p)]" "q \<noteq> p \<Longrightarrow> packets w' q = packets w q"
    "datagram w' q = datagram w q"
  using assms by (auto simp: SendToRepeat_def WSASendTo_def SetType_def OverlappedObj_Initialize_def datagram_def Let_def split: if_splits)

lemma resends_cong:
  assumes "\<forall>q \<in> set qs. pend' ! slot q = pend ! slot q"
    and "\<forall>q \<in> set qs. \<forall>p. pp_buffer (pend ! slot q) = Some p \<longrightarrow> packets w' p = packets w p"
  shows "resends to d now w' pend' qs = resends to d now w pend qs"
  using assms by (induction qs) (auto simp: resends_def List.map_filter_simps due_again_def datagram_def split: option.splits)

text \<open>The buffers pending under different numbers are different.\<close>

definition apart_from :: "PendingPacket list \<Rightarrow> u32 \<Rightarrow> u32 \<Rightarrow> bool" where
  "apart_from pend a b = (\<forall>q q' p. unat a \<le> unat q \<and> unat q < unat b \<and> unat a \<le> unat q' \<and> unat q' < unat b \<and> q \<noteq> q'
     \<and> pp_buffer (pend ! slot q) = Some p \<longrightarrow> pp_buffer (pend ! slot q') \<noteq> Some p)"

lemma apart_from_step: "apart_from pend a b \<Longrightarrow> unat a' \<ge> unat a \<Longrightarrow> apart_from pend a' b"
  unfolding apart_from_def by (meson order_trans)

lemma repeat_from_effect:
  assumes "unat current \<le> unat lim" "unat lim \<le> unat current + 64" "length pend = 64" "apart_from pend current lim"
    "repeat_from to d now lim current (pend, w) = Inr (pend', w')"
  shows "wire w' = wire w @ resends to d now w pend (numbers current lim) \<and> length pend' = 64 \<and>
    (\<forall>q. unat current \<le> unat q \<and> unat q < unat lim \<longrightarrow> pend' ! slot q =
       (if due_again d now w (pend ! slot q) = None then pend ! slot q else (pend ! slot q)\<lparr>pp_timeStamp := now\<rparr>)) \<and>
    (\<forall>i. (\<forall>q. unat current \<le> unat q \<and> unat q < unat lim \<longrightarrow> slot q \<noteq> i) \<longrightarrow> pend' ! i = pend ! i) \<and>
    (\<forall>p. datagram w' p = datagram w p)"
  using assms
proof (induction "unat lim - unat current" arbitrary: current pend w)
  case 0
  then have "current = lim" by (simp add: word_unat_eq_iff)
  then show ?case using 0 by (auto simp: repeat_from.simps resends_def List.map_filter_simps)
next
  case (Suc n)
  have lt: "unat current < unat lim" using Suc(2) by simp
  have inc: "unat (current + 1) = Suc (unat current)" using lt unat_less_u32 [of lim] unat_inc [of current] by linarith
  have ne: "current \<noteq> lim" using lt by auto
  have slots: "slot q \<noteq> slot current" if "unat (current + 1) \<le> unat q" "unat q < unat lim" for q
  proof
    assume "slot q = slot current"
    then have "q = current" by (rule window_slot_inj [of _ _ current]) (use that inc Suc.prems(2) in linarith)+
    then show False using that(1) inc by simp
  qed
  let ?pp = "pend ! slot current"
  obtain pend1 w1 where step: "repeat_from to d now lim (current + 1) (pend1, w1) = Inr (pend', w')"
    and one: "(due_again d now w ?pp = None \<and> pend1 = pend \<and> w1 = w) \<or>
      (\<exists>p. due_again d now w ?pp = Some p \<and> SendToRepeat to p w = Inr w1 \<and> pend1 = pend[slot current := ?pp\<lparr>pp_timeStamp := now\<rparr>])"
    using Suc.prems(5) ne by (subst (asm) repeat_from.simps) (auto simp: due_again_def split: option.splits if_splits)
  have len1: "length pend1 = 64" and other: "i \<noteq> slot current \<Longrightarrow> pend1 ! i = pend ! i" for i
    using one Suc.prems(3) by auto
  have buf: "pp_buffer (pend1 ! i) = pp_buffer (pend ! i)" for i
    using one Suc.prems(3) by (cases "i = slot current") (auto simp: nth_list_update_if)
  have apart1: "apart_from pend1 (current + 1) lim"
    using apart_from_step [OF Suc.prems(4), of "current + 1"] inc unfolding apart_from_def buf by auto
  have ih: "wire w' = wire w1 @ resends to d now w1 pend1 (numbers (current + 1) lim) \<and> length pend' = 64 \<and>
    (\<forall>q. unat (current + 1) \<le> unat q \<and> unat q < unat lim \<longrightarrow> pend' ! slot q =
       (if due_again d now w1 (pend1 ! slot q) = None then pend1 ! slot q else (pend1 ! slot q)\<lparr>pp_timeStamp := now\<rparr>)) \<and>
    (\<forall>i. (\<forall>q. unat (current + 1) \<le> unat q \<and> unat q < unat lim \<longrightarrow> slot q \<noteq> i) \<longrightarrow> pend' ! i = pend1 ! i) \<and>
    (\<forall>p. datagram w' p = datagram w1 p)"
    by (rule Suc.hyps(1)) (use Suc.hyps(2) Suc.prems lt inc len1 apart1 step in auto)
  have same: "packets w1 p = packets w p" if "unat (current + 1) \<le> unat q" "unat q < unat lim" "pp_buffer (pend ! slot q) = Some p" for q p
  proof -
    have "pp_buffer ?pp \<noteq> Some p" using Suc.prems(4) that inc lt unfolding apart_from_def by (metis Suc_leD not_less_eq_eq order_refl)
    then show ?thesis using one SendToRepeat_effect(2) by (fastforce simp: due_again_def split: option.splits if_splits)
  qed
  have again: "due_again d now w1 (pend1 ! slot q) = due_again d now w (pend ! slot q)"
    if "unat (current + 1) \<le> unat q" "unat q < unat lim" for q
    using same [OF that] other [OF slots [OF that]] by (auto simp: due_again_def split: option.splits)
  have rest: "resends to d now w1 pend1 (numbers (current + 1) lim) = resends to d now w pend (numbers (current + 1) lim)"
    using other slots same by (intro resends_cong) (auto simp: set_numbers)
  have first: "wire w1 = wire w @ (case due_again d now w ?pp of None \<Rightarrow> [] | Some p \<Rightarrow> [(to, datagram w p)])"
    using one SendToRepeat_effect(1) by auto
  have "wire w' = wire w @ resends to d now w pend (numbers current lim)"
    using ih first rest unfolding numbers_Cons [OF lt]
    by (auto simp: resends_def List.map_filter_simps split: option.splits)
  moreover have "pend' ! slot q =
       (if due_again d now w (pend ! slot q) = None then pend ! slot q else (pend ! slot q)\<lparr>pp_timeStamp := now\<rparr>)"
    if q: "unat current \<le> unat q" "unat q < unat lim" for q
  proof (cases "q = current")
    case True
    have "pend' ! slot current = pend1 ! slot current" using ih slots by blast
    then show ?thesis using True one Suc.prems(3) by auto
  next
    case False
    then have "unat (current + 1) \<le> unat q" using q(1) inc by (metis le_neq_implies_less Suc_leI word_unat_eq_iff)
    then show ?thesis using ih q(2) again other [OF slots] by simp
  qed
  moreover have "pend' ! i = pend ! i" if "\<forall>q. unat current \<le> unat q \<and> unat q < unat lim \<longrightarrow> slot q \<noteq> i" for i
  proof -
    have "i \<noteq> slot current" using that lt by blast
    moreover have "pend' ! i = pend1 ! i" using ih that inc by (metis Suc_leD)
    ultimately show ?thesis using other by simp
  qed
  moreover have "datagram w' p = datagram w p" for p
    using ih one SendToRepeat_effect(3) by metis
  ultimately show ?case using ih by blast
qed

text \<open>A retransmission run cannot fail when the operating system accepts the sends.\<close>

lemma SendToRepeat_total: "io_fine w \<Longrightarrow> \<exists>w'. SendToRepeat to p w = Inr w' \<and> io_fine w'"
  by (simp add: SendToRepeat_def WSASendTo_def SetType_def OverlappedObj_Initialize_def Let_def io_fine_def wsa_ok_def)

lemma repeat_from_total: "io_fine (snd pw) \<Longrightarrow> \<exists>pw'. repeat_from to d now lim current pw = Inr pw'"
proof (induction to d now lim current pw rule: repeat_from.induct)
  case (1 to d now lim current pw)
  obtain pend w where pw: "pw = (pend, w)" by force
  show ?case
  proof (cases "current = lim")
    case False
    let ?step = "case pp_buffer (pend ! slot current) of None \<Rightarrow> Inr (pend, w)
            | Some p \<Rightarrow> if otype (packets w p) AND obj_type SENDING = 0 \<and> d \<le> now - pp_timeStamp (pend ! slot current)
                then andThen (SendToRepeat to p w)
                  (\<lambda>w1. Inr (pend[slot current := (pend ! slot current)\<lparr>pp_timeStamp := now\<rparr>], w1)) else Inr (pend, w)"
    have "\<exists>pw1. ?step = Inr pw1 \<and> io_fine (snd pw1)"
    proof (cases "pp_buffer (pend ! slot current)")
      case (Some p)
      obtain w1 where "SendToRepeat to p w = Inr w1" "io_fine w1" using 1(2) SendToRepeat_total [of w to p] pw by auto
      then show ?thesis using Some 1(2) pw by simp
    qed (use 1(2) pw in simp)
    then obtain pw1 where "?step = Inr pw1" "io_fine (snd pw1)" by blast
    then show ?thesis using 1(1) [OF False, of pw1] False by (subst repeat_from.simps) (simp add: pw)
  qed (simp add: repeat_from.simps)
qed

section \<open>What is retransmitted\<close>

definition sent_at :: "ReliablePacketState \<Rightarrow> u32 \<Rightarrow> u32" where
  "sent_at rps q = pp_timeStamp (pendingPackets rps ! slot q)"

definition overdue :: "u32 \<Rightarrow> u32 \<Rightarrow> ReliablePacketState \<Rightarrow> World \<Rightarrow> u32 \<Rightarrow> bool" where
  "overdue d now rps w q = (case pend_map rps q of None \<Rightarrow> False
     | Some p \<Rightarrow> otype (packets w p) AND obj_type SENDING = 0 \<and> d \<le> now - sent_at rps q)"

lemma window_pend_map:
  assumes "window_ok rps" "unat (localWindowStart rps) \<le> unat q" "unat q < unat (localSeqence rps)"
  shows "pp_buffer (pendingPackets rps ! slot q) = pend_map rps q"
proof (cases "pp_buffer (pendingPackets rps ! slot q)")
  case (Some b)
  note d = window_slotD [OF assms(1) slot_less Some]
  have lim: "unat (localSeqence rps) \<le> unat (localWindowStart rps) + 64" using assms(1) by (simp add: window_ok_def)
  have "pp_sequenceNo (pendingPackets rps ! slot q) = q"
    by (rule window_slot_inj [of _ _ "localWindowStart rps"]) (use d assms(2,3) lim in linarith | use d in simp)+
  then show ?thesis using Some by (simp add: pend_map_def)
qed (simp add: pend_map_def Let_def)

lemma due_overdue:
  assumes "window_ok rps" "unat (localWindowStart rps) \<le> unat q" "unat q < unat (localSeqence rps)"
  shows "due_again d now w (pendingPackets rps ! slot q) = (if overdue d now rps w q then pend_map rps q else None)"
  using window_pend_map [OF assms] by (auto simp: due_again_def overdue_def sent_at_def split: option.splits)

lemma resends_overdue:
  assumes "\<forall>q \<in> set qs. due_again d now w (pend ! slot q) = (if overdue d now rps w q then pend_map rps q else None)"
  shows "resends to d now w pend qs = map (\<lambda>q. (to, datagram w (the (pend_map rps q)))) (filter (overdue d now rps w) qs)"
  using assms
  by (induction qs) (auto simp: resends_def List.map_filter_simps overdue_def split: option.splits)

lemma restamp_window:
  assumes ok: "window_ok rps" and len: "length pend = 64"
    and same: "\<forall>i < 64. pend ! i = pendingPackets rps ! i \<or> pend ! i = (pendingPackets rps ! i)\<lparr>pp_timeStamp := now\<rparr>"
  shows "window_ok (rps\<lparr>pendingPackets := pend\<rparr>) \<and> pend_map (rps\<lparr>pendingPackets := pend\<rparr>) = pend_map rps"
proof -
  have e: "pp_buffer (pend ! i) = pp_buffer (pendingPackets rps ! i)" "pp_sequenceNo (pend ! i) = pp_sequenceNo (pendingPackets rps ! i)"
    if "i < 64" for i using same [rule_format, OF that] by auto
  have "window_ok (rps\<lparr>pendingPackets := pend\<rparr>)" using ok len by (simp add: window_ok_def e)
  moreover have "pend_map (rps\<lparr>pendingPackets := pend\<rparr>) = pend_map rps" by (rule ext) (simp add: pend_map_def e)
  ultimately show ?thesis ..
qed

text \<open>The effect of a retransmission on the window, the wire and the buffers.\<close>

lemma RepeatMessage_effect:
  assumes ok: "window_ok rps" and inj: "inj_on (pend_map rps) (dom (pend_map rps))"
    and r: "RepeatMessage to d now (rps, w) = Inr (rps', w')"
  shows "wire w' = wire w @ map (\<lambda>q. (to, datagram w (the (pend_map rps q))))
        (filter (overdue d now rps w) (numbers (localWindowStart rps) (localSeqence rps)))
    \<and> pend_map rps' = pend_map rps \<and> window_ok rps'
    \<and> (\<forall>q \<in> dom (pend_map rps). sent_at rps' q = (if overdue d now rps w q then now else sent_at rps q))
    \<and> (\<forall>p. datagram w' p = datagram w p)"
proof -
  let ?a = "localWindowStart rps" and ?b = "localSeqence rps" and ?pend = "pendingPackets rps"
  have win: "unat ?a \<le> unat ?b" "unat ?b \<le> unat ?a + 64" "length ?pend = 64" using ok by (auto simp: window_ok_def)
  have apart: "apart_from ?pend ?a ?b"
    unfolding apart_from_def
  proof (intro allI impI notI, elim conjE)
    fix q q' p assume q: "unat ?a \<le> unat q" "unat q < unat ?b" "unat ?a \<le> unat q'" "unat q' < unat ?b" "q \<noteq> q'"
      "pp_buffer (?pend ! slot q) = Some p" "pp_buffer (?pend ! slot q') = Some p"
    then have "pend_map rps q = Some p" "pend_map rps q' = Some p" using window_pend_map [OF ok] by auto
    then show False using inj_onD [OF inj, of q q'] q(5) by auto
  qed
  obtain pend' where rf: "repeat_from to d now ?b ?a (?pend, w) = Inr (pend', w')" and rps': "rps' = rps\<lparr>pendingPackets := pend'\<rparr>"
    using r by (auto simp: RepeatMessage_def)
  note e = repeat_from_effect [OF win apart rf]
  have stamp: "pend' ! i = ?pend ! i \<or> pend' ! i = (?pend ! i)\<lparr>pp_timeStamp := now\<rparr>" if "i < 64" for i
    using e by (cases "\<exists>q. unat ?a \<le> unat q \<and> unat q < unat ?b \<and> slot q = i") (metis, metis)
  have keep: "window_ok rps' \<and> pend_map rps' = pend_map rps"
    unfolding rps' using e stamp by (intro restamp_window [OF ok]) auto
  have "sent_at rps' q = (if overdue d now rps w q then now else sent_at rps q)" if "q \<in> dom (pend_map rps)" for q
  proof -
    have q: "unat ?a \<le> unat q" "unat q < unat ?b" using pend_map_SomeD [OF ok] that by auto
    then show ?thesis using e due_overdue [OF ok q, of d now w] that by (auto simp: rps' sent_at_def overdue_def split: if_splits)
  qed
  moreover have "resends to d now w ?pend (numbers ?a ?b) = map (\<lambda>q. (to, datagram w (the (pend_map rps q)))) (filter (overdue d now rps w) (numbers ?a ?b))"
    using due_overdue [OF ok] by (intro resends_overdue) (simp add: set_numbers)
  ultimately show ?thesis using e keep by simp
qed

text \<open>The packet manager is not involved, and neither are the numbers.\<close>

lemma repeat_from_manager:
  "repeat_from to d now lim current pw = Inr pw' \<Longrightarrow> packetManager (snd pw') = packetManager (snd pw)"
proof (induction to d now lim current pw arbitrary: pw' rule: repeat_from.induct)
  case (1 to d now lim current pw)
  have one: "packetManager w1 = packetManager w" if "SendToRepeat to p w = Inr w1" for p w w1
    using that by (auto simp: SendToRepeat_def WSASendTo_def SetType_def OverlappedObj_Initialize_def Let_def split: if_splits)
  show ?case
  proof (cases "current = lim")
    case False
    from "1.prems" False obtain pw1 where step: "(case pw of (pend, w) \<Rightarrow>
           (case pp_buffer (pend ! slot current) of
              None \<Rightarrow> Inr (pend, w)
            | Some p \<Rightarrow>
                if otype (packets w p) AND obj_type SENDING = 0 \<and> d \<le> now - pp_timeStamp (pend ! slot current)
                then andThen (SendToRepeat to p w)
                  (\<lambda>w1. Inr (pend[slot current := (pend ! slot current)\<lparr>pp_timeStamp := now\<rparr>], w1))
                else Inr (pend, w))) = Inr pw1"
      and pw1: "repeat_from to d now lim (current + 1) pw1 = Inr pw'"
      by (subst (asm) repeat_from.simps) (auto elim!: andThen_InrE)
    have "packetManager (snd pw1) = packetManager (snd pw)"
      using step by (auto simp: one split: option.splits if_splits prod.splits)
    then show ?thesis using "1.IH" [OF False step pw1] by simp
  qed (use "1.prems" in \<open>simp add: repeat_from.simps\<close>)
qed

lemma RepeatMessage_manager:
  "RepeatMessage to d now (rps, w) = Inr (rps', w') \<Longrightarrow> packetManager w' = packetManager w \<and> sendRepeatSeq rps' = sendRepeatSeq rps"
  using repeat_from_manager by (fastforce simp: RepeatMessage_def)

text \<open>
  C31. Retransmission sends again, in the order of their numbers and byte for byte as they were sent, exactly the
  unacknowledged packets of a window that the kernel has finished sending and that were last sent at least the
  delay ago. It marks these as sent now, leaves the map of unacknowledged packets as it is, and cannot fail while
  the operating system accepts the sends.
\<close>

theorem overdue_sent_again:
  assumes "window_ok rps" "inj_on (pend_map rps) (dom (pend_map rps))" "io_fine w"
  shows "\<exists>rps' w'. RepeatMessage to d now (rps, w) = Inr (rps', w')
    \<and> wire w' = wire w @ map (\<lambda>q. (to, datagram w (the (pend_map rps q))))
        (filter (overdue d now rps w) (numbers (localWindowStart rps) (localSeqence rps)))
    \<and> pend_map rps' = pend_map rps \<and> window_ok rps'
    \<and> (\<forall>q \<in> dom (pend_map rps). sent_at rps' q = (if overdue d now rps w q then now else sent_at rps q))
    \<and> (\<forall>p. datagram w' p = datagram w p)"
proof -
  obtain pw' where "repeat_from to d now (localSeqence rps) (localWindowStart rps) (pendingPackets rps, w) = Inr pw'"
    using repeat_from_total [of "(pendingPackets rps, w)" to d now "localSeqence rps" "localWindowStart rps"] assms(3) by auto
  then obtain rps' w' where "RepeatMessage to d now (rps, w) = Inr (rps', w')" by (cases pw') (simp add: RepeatMessage_def)
  then show ?thesis using RepeatMessage_effect [OF assms(1,2)] by blast
qed

theorem overdue_sent_again_witness:
  "\<exists>rps rps' w'. pend_map rps = [1 \<mapsto> 5] \<and> RepeatMessage \<lparr>sin_addr = 1, sin_port = 2\<rparr> 100 5000 (rps, numbered_world 1) = Inr (rps', w')
     \<and> wire w' = [(\<lparr>sin_addr = 1, sin_port = 2\<rparr>, datagram (numbered_world 1) 5)] \<and> pend_map rps' = [1 \<mapsto> 5]"
proof -
  let ?r = "snd (UpdateSendSequenceNo new_ReliablePacketState)"
  obtain rps where rps: "AddPendingPacket (numbered_world 1) 5 ?r = (True, rps)" "window_ok rps" "pend_map rps = (pend_map ?r)(1 \<mapsto> 5)"
      "localSeqence rps = 2" "localWindowStart rps = localWindowStart ?r"
    using AddPendingPacket_accept [of ?r "numbered_world 1" 5] by (simp add: numbered_seq first_number) metis
  have pm: "pend_map rps = [1 \<mapsto> 5]" using rps(3) by simp
  have start: "localWindowStart rps = 0" using rps(5) by (simp add: UpdateSendSequenceNo_def new_ReliablePacketState_def)
  have "sent_at rps 1 = 0"
    using rps(1) by (auto simp: AddPendingPacket_def sent_at_def numbered_seq numbered_world_def get_header_header_bytes [of _ "[]", simplified]
        UpdateSendSequenceNo_def new_ReliablePacketState_def Let_def split: if_splits)
  then have od: "overdue 100 5000 rps (numbered_world 1) 1" "\<not> overdue 100 5000 rps (numbered_world 1) 0"
    by (simp_all add: overdue_def pm numbered_world_def)
  have nums: "numbers 0 2 = [0, 1]" by (simp add: numbers_def upt_conv_Cons)
  have fine: "io_fine (numbered_world 1)" by (simp add: io_fine_def numbered_world_def new_World_def)
  have "inj_on (pend_map rps) (dom (pend_map rps))" by (simp add: pm)
  moreover have "wire (numbered_world 1) = []" by (simp add: numbered_world_def new_World_def)
  ultimately have "\<exists>rps' w'. RepeatMessage \<lparr>sin_addr = 1, sin_port = 2\<rparr> 100 5000 (rps, numbered_world 1) = Inr (rps', w')
     \<and> wire w' = [(\<lparr>sin_addr = 1, sin_port = 2\<rparr>, datagram (numbered_world 1) 5)] \<and> pend_map rps' = [1 \<mapsto> 5]"
    using overdue_sent_again [OF rps(2) _ fine, of "\<lparr>sin_addr = 1, sin_port = 2\<rparr>" 100 5000] pm od start rps(4) nums by auto
  then show ?thesis using pm by blast
qed

end
