(* ===== verification/Dubu_Apps.thy ===== *)
theory Dubu_Apps
  imports Dubu_Service
begin

text \<open>
  What the echo server, the gateway and the echo client share: the sub-header of
  \<^verbatim>\<open>extra/GatewaySubHeader.h\<close>, the packets of \<^verbatim>\<open>extra/dubu_echo_packet.fbs\<close>, and sending through a session of
  a server. The FlatBuffers library and the code it generates are parameters: what a buffer is read as, and the
  bytes a packet is written as.
\<close>

section \<open>FlatBuffers\<close>

datatype PacketBody = Chatting u32 "bytes option" | Register u32 | Bot u32 u32

abbreviation (input) PacketBody_Chatting :: u8 where "PacketBody_Chatting \<equiv> 1"
abbreviation (input) PacketBody_Register :: u8 where "PacketBody_Register \<equiv> 2"
abbreviation (input) PacketBody_Bot :: u8 where "PacketBody_Bot \<equiv> 3"

text \<open>The type byte of the union, and the table it refers to, which a packet may lack.\<close>

record EchoPacket =
  body_type :: u8
  body :: "PacketBody option"

record Flat =
  VerifyPacketBuffer :: "bytes \<Rightarrow> u32 \<Rightarrow> bool"
  GetPacket :: "bytes \<Rightarrow> EchoPacket"
  FinishPacketBuffer :: "PacketBody \<Rightarrow> bytes"

fun type_of_body :: "PacketBody \<Rightarrow> u8" where
  "type_of_body (Chatting _ _) = PacketBody_Chatting"
| "type_of_body (Register _) = PacketBody_Register"
| "type_of_body (Bot _ _) = PacketBody_Bot"

text \<open>A packet that was written is read back as it was, whatever follows it in memory.\<close>

definition flat_ok :: "Flat \<Rightarrow> bool" where
  "flat_ok fb \<longleftrightarrow> (\<forall>b rest. GetPacket fb (FinishPacketBuffer fb b @ rest) = \<lparr>body_type = type_of_body b, body = Some b\<rparr>)"

lemma flat_okD: "flat_ok fb \<Longrightarrow> GetPacket fb (FinishPacketBuffer fb b) = \<lparr>body_type = type_of_body b, body = Some b\<rparr>"
  unfolding flat_ok_def by (metis append_Nil2)

definition body_as_Chatting :: "EchoPacket \<Rightarrow> (u32 \<times> bytes option) option" where
  "body_as_Chatting p = (if body_type p = PacketBody_Chatting
     then (case body p of Some (Chatting i m) \<Rightarrow> Some (i, m) | _ \<Rightarrow> None) else None)"

definition body_as_Register :: "EchoPacket \<Rightarrow> u32 option" where
  "body_as_Register p = (if body_type p = PacketBody_Register
     then (case body p of Some (Register i) \<Rightarrow> Some i | _ \<Rightarrow> None) else None)"

definition body_as_Bot :: "EchoPacket \<Rightarrow> (u32 \<times> u32) option" where
  "body_as_Bot p = (if body_type p = PacketBody_Bot
     then (case body p of Some (Bot i n) \<Rightarrow> Some (i, n) | _ \<Rightarrow> None) else None)"

text \<open>\<^verbatim>\<open>c_str()\<close> as the builder reads it: up to the first zero byte.\<close>

definition c_str :: "bytes \<Rightarrow> bytes" where
  "c_str m = takeWhile (\<lambda>b. b \<noteq> 0) m"

section \<open>The gateway's sub-header\<close>

text \<open>
  Twelve bytes: the type, the size, two bytes of padding whose value is left open by the compiler (the argument
  \<open>pad\<close>), and the two ids.
\<close>

definition GatewaySubHeader :: "u8 \<times> u8 \<Rightarrow> u32 \<Rightarrow> u32 \<Rightarrow> bytes" where
  "GatewaySubHeader pad depthId1 depthId2 = [2, 12, fst pad, snd pad] @ le32 depthId1 @ le32 depthId2"

definition depthId1 :: "bytes \<Rightarrow> nat \<Rightarrow> u32" where
  "depthId1 b off = rd32 b (off + 4)"

definition depthId2 :: "bytes \<Rightarrow> nat \<Rightarrow> u32" where
  "depthId2 b off = rd32 b (off + 8)"

lemma length_GatewaySubHeader [simp]: "length (GatewaySubHeader pad a b) = 12"
  by (simp add: GatewaySubHeader_def le32_def)

lemma GatewaySubHeader_not_Nil [simp]: "GatewaySubHeader pad a b \<noteq> []"
  by (simp add: GatewaySubHeader_def)

lemma rd32_nth: "rd32 (xs @ b) (length xs + i) = rd32 b i"
  by (simp add: rd32_def nth_append add.assoc)

lemma rd32_prefix: "i + 4 \<le> length b \<Longrightarrow> rd32 (b @ rest) i = rd32 b i"
  by (simp add: rd32_def nth_append)

lemma rd32_le32_rest: "rd32 (le32 v @ rest) 0 = v"
  by (subst rd32_prefix) (simp_all add: le32_def rd32_le32 [unfolded le32_def])

lemma GatewaySubHeader_read:
  assumes "length hd0 = n"
  shows "rd8 (hd0 @ GatewaySubHeader pad a b @ rest) n = 2" "GetSize (hd0 @ GatewaySubHeader pad a b @ rest) n = 12"
    "depthId1 (hd0 @ GatewaySubHeader pad a b @ rest) n = a" "depthId2 (hd0 @ GatewaySubHeader pad a b @ rest) n = b"
proof -
  let ?pre = "hd0 @ [2, 12, fst pad, snd pad]"
  have "length ?pre = n + 4" "length (?pre @ le32 a) = n + 8" using assms by (simp_all add: le32_def)
  then have "rd32 (?pre @ (le32 a @ le32 b @ rest)) (n + 4) = a" "rd32 ((?pre @ le32 a) @ (le32 b @ rest)) (n + 8) = b"
    using rd32_nth [of ?pre "le32 a @ le32 b @ rest" 0] rd32_nth [of "?pre @ le32 a" "le32 b @ rest" 0] by (simp_all only: rd32_le32_rest add_0_right)
  then show "depthId1 (hd0 @ GatewaySubHeader pad a b @ rest) n = a" "depthId2 (hd0 @ GatewaySubHeader pad a b @ rest) n = b"
    by (simp_all add: depthId1_def depthId2_def GatewaySubHeader_def)
qed (use assms in \<open>simp_all add: rd8_def GetSize_def GatewaySubHeader_def nth_append\<close>)

section \<open>Sending through a session of a server\<close>

definition session_send :: "ptr \<Rightarrow> bytes \<Rightarrow> u8 \<Rightarrow> u16 \<Rightarrow> PacketOpctions \<Rightarrow> bytes \<Rightarrow> server_step" where
  "session_send p payload code sz opt sub sw =
     (case sw of (sv, w) \<Rightarrow>
       (case sessionHeap sv p of
          None \<Rightarrow> Inl NullPointer
        | Some s \<Rightarrow> andThen (Session_SendPacket payload code sz opt sub (s, w))
            (\<lambda>(s1, w1). Inr (upd_session p s1 sv, w1))))"

text \<open>
  Sending through a session touches neither the receive state of any session, nor the cache buffers, nor which
  sessions exist and who they talk to.
\<close>

definition same_end :: "'e Endpoint_scheme \<Rightarrow> 'e Endpoint_scheme \<Rightarrow> bool" where
  "same_end s s' \<longleftrightarrow> rx_view s' = rx_view s \<and> chunckPakcetInj s' = chunckPakcetInj s \<and> dispatched s' = dispatched s
     \<and> identity s' = identity s \<and> hasSocket s' = hasSocket s"

definition sends_only :: "Server \<times> World \<Rightarrow> Server \<times> World \<Rightarrow> bool" where
  "sends_only sw sw' \<longleftrightarrow> sessionMap (fst sw') = sessionMap (fst sw) \<and> rx_world (snd sw') = rx_world (snd sw)
     \<and> dom (sessionHeap (fst sw')) = dom (sessionHeap (fst sw))
     \<and> (\<forall>p s s'. sessionHeap (fst sw) p = Some s \<longrightarrow> sessionHeap (fst sw') p = Some s' \<longrightarrow> same_end s s')"

lemma same_end_refl [simp]: "same_end s s"
  by (simp add: same_end_def)

lemma same_end_trans: "same_end a b \<Longrightarrow> same_end b c \<Longrightarrow> same_end a c"
  by (simp add: same_end_def)

lemma sends_only_refl [simp]: "sends_only sw sw"
  by (simp add: sends_only_def)

lemma sends_onlyD:
  assumes "sends_only sw sw'"
  shows "sessionHeap (fst sw) p = Some s \<Longrightarrow> \<exists>s'. sessionHeap (fst sw') p = Some s' \<and> same_end s s'"
    and "sessionHeap (fst sw) p = None \<Longrightarrow> sessionHeap (fst sw') p = None"
proof -
  have d: "p \<in> dom (sessionHeap (fst sw')) \<longleftrightarrow> p \<in> dom (sessionHeap (fst sw))" using assms by (simp add: sends_only_def)
  show "sessionHeap (fst sw) p = None \<Longrightarrow> sessionHeap (fst sw') p = None" using d by (simp add: domIff)
  assume s: "sessionHeap (fst sw) p = Some s"
  then obtain s' where "sessionHeap (fst sw') p = Some s'" using d by auto
  then show "\<exists>s'. sessionHeap (fst sw') p = Some s' \<and> same_end s s'" using assms s unfolding sends_only_def by blast
qed

lemma sends_only_trans:
  assumes "sends_only a b" "sends_only b c"
  shows "sends_only a c"
proof -
  have "same_end s s'" if h: "sessionHeap (fst a) p = Some s" "sessionHeap (fst c) p = Some s'" for p s s'
  proof -
    obtain t where t: "sessionHeap (fst b) p = Some t" "same_end s t" using sends_onlyD(1) [OF assms(1) h(1)] by blast
    then show ?thesis using sends_onlyD(1) [OF assms(2) t(1)] h(2) same_end_trans [of s t s'] by auto
  qed
  then show ?thesis using assms by (auto simp: sends_only_def)
qed

interpretation socketKept: session_invariant hasSocket "\<lambda>b c. b = b0" for b0
  by unfold_locales simp_all

lemma Session_SendPacket_same_end:
  assumes "Session_SendPacket payload code sz opt sub (s, w) = Inr (s', w')"
  shows "same_end s s'" "rx_world w' = rx_world w"
  using calmD [OF Session_SendPacket_calm assms] keeps_idD [OF Session_SendPacket_keeps_id assms]
    keepsD [OF socketKept.Session_SendPacket_keeps assms]
  by (simp_all add: same_end_def quiet_iff)

lemma session_send_sends_only:
  assumes "session_send p payload code sz opt sub (sv, w) = Inr (sv', w')"
  shows "sends_only (sv, w) (sv', w')"
proof -
  obtain s s1 where s: "sessionHeap sv p = Some s" "Session_SendPacket payload code sz opt sub (s, w) = Inr (s1, w')" "sv' = upd_session p s1 sv"
    using assms by (auto simp: session_send_def split: option.splits elim!: andThen_InrE)
  then show ?thesis using Session_SendPacket_same_end [OF s(2)] by (auto simp: sends_only_def upd_session_def)
qed

lemma session_send_wire:
  assumes "session_send p payload code sz opt sub (sv, w) = Inr (sv', w')" "sessionHeap sv p = Some s" "hasSocket s"
    "unat sz + length sub + 24 \<le> 1024"
  shows "wire w' = wire w \<or> (\<exists>seq d. wire w' = wire w @ [(addr s, d)]
    \<and> datagram_of opt code seq (endpointId s) sub (take (unat sz) payload) d)"
proof -
  obtain s1 where "Session_SendPacket payload code sz opt sub (s, w) = Inr (s1, w')"
    using assms(1,2) by (auto simp: session_send_def)
  from Session_SendPacket_wire [OF this assms(3,4)] show ?thesis by blast
qed

text \<open>A session within the rest of the program.\<close>

lemma truncate_extend [simp]:
  "rx_view (Session.truncate s) = rx_view s" "chunckPakcetInj (Session.truncate s) = chunckPakcetInj s"
  "dispatched (Session.truncate s) = dispatched s" "identity (Session.truncate s) = identity s"
  "rx_view (Session.extend t x) = rx_view t" "chunckPakcetInj (Session.extend t x) = chunckPakcetInj t"
  "dispatched (Session.extend t x) = dispatched t" "identity (Session.extend t x) = identity t"
  "Session.more (Session.extend t x) = x" "Session.truncate (Session.extend t x) = t"
  by (simp_all add: Session.defs rx_view_def identity_def)

section \<open>Examples\<close>

text \<open>A concrete pair of writer and reader, which satisfies the law.\<close>

fun write_message :: "bytes \<Rightarrow> bytes" where
  "write_message [] = [0]"
| "write_message (b # bs) = 1 # b # write_message bs"

fun read_message :: "bytes \<Rightarrow> bytes" where
  "read_message (n # b # bs) = (if n = 0 then [] else b # read_message bs)"
| "read_message _ = []"

fun example_write :: "PacketBody \<Rightarrow> bytes" where
  "example_write (Chatting i None) = [1, 0] @ le32 i"
| "example_write (Chatting i (Some m)) = [1, 1] @ le32 i @ write_message m"
| "example_write (Register i) = [2, 0] @ le32 i"
| "example_write (Bot i n) = [3, 0] @ le32 i @ le32 n"

definition example_read :: "bytes \<Rightarrow> EchoPacket" where
  "example_read b = \<lparr>body_type = rd8 b 0, body = Some (
     if rd8 b 0 = 1 then Chatting (rd32 b 2) (if rd8 b 1 = 0 then None else Some (read_message (drop 6 b)))
     else if rd8 b 0 = 2 then Register (rd32 b 2) else Bot (rd32 b 2) (rd32 b 6))\<rparr>"

definition example_flat :: Flat where
  "example_flat = \<lparr>VerifyPacketBuffer = \<lambda>_ _. True, GetPacket = example_read, FinishPacketBuffer = example_write\<rparr>"

lemma read_write_message: "read_message (write_message m @ rest) = m"
  by (induction m) (cases rest; simp)+

lemma flat_ok_example: "flat_ok example_flat"
proof -
  have r: "rd32 (x # y # le32 v @ rest) 2 = v" "rd32 (x # y # le32 u @ le32 v @ rest) 6 = v" for x y u v rest
    using rd32_nth [of "[x, y]" "le32 v @ rest" 0] rd32_nth [of "[x, y] @ le32 u" "le32 v @ rest" 0] rd32_le32_rest [of v rest]
    by (simp_all add: le32_def eval_nat_numeral)
  have d: "length (le32 v) = 4" for v by (simp add: le32_def)
  have "example_read (example_write b @ rest) = \<lparr>body_type = type_of_body b, body = Some b\<rparr>" for b rest
    using r d by (cases b rule: example_write.cases) (simp_all add: example_read_def rd8_def read_write_message)
  then show ?thesis by (simp add: flat_ok_def example_flat_def)
qed

definition example_pad :: "u32 \<Rightarrow> u8 \<times> u8" where
  "example_pad = (\<lambda>_. (0, 0))"

lemma example_flat_simps:
  "GetPacket example_flat (example_write b) = \<lparr>body_type = type_of_body b, body = Some b\<rparr>" "VerifyPacketBuffer example_flat b1 n"
  "FinishPacketBuffer example_flat = example_write"
  using flat_okD [OF flat_ok_example] by (simp_all add: example_flat_def)

lemma unreliable_sent:
  assumes "hasSocket s" "\<not> reliable opt" "unat sz + length sub + 24 \<le> 1024" "unat sz \<le> length payload" "ioError w = (\<lambda>_. None)"
  shows "\<exists>s' w'. Session_SendPacket payload code sz opt sub (s, w) = Inr (s', w') \<and> length (wire w') = Suc (length (wire w))"
proof -
  obtain p w1 where pop: "PopPacketBuffer w = (p, w1)" by force
  have io: "ioError w1 = (\<lambda>_. None)" and wi: "wire w1 = wire w" using pop assms(5) wire_pool(1) [of w]
    by (auto simp: PopPacketBuffer_def new_packet_buffer_def Let_def split_beta split: if_splits)
  have ok: "wsa_ok w2" if "ioError w2 = (\<lambda>_. None)" for w2 using that by (simp add: wsa_ok_def)
  show ?thesis
    using assms pop io wi by (simp add: Session_SendPacket_def SendPacket_def SendOne_def next_sequence_def GetRelativeTimeMs_def
        transmit_def SendTo_def WSASendTo_def SetType_def store_packet_def split_beta Let_def ok del: fun_upd_apply)
qed

end
