(* ===== verification/Dubu_EchoServer.thy ===== *)
theory Dubu_EchoServer
  imports Dubu_Apps Dubu_Threads
begin

text \<open>
  The echo server, \<^verbatim>\<open>DUBUEchoServer/EchoServer.cpp\<close> and \<^verbatim>\<open>EchoSessionHander.cpp\<close>: a server with a list of the
  clients that registered, and the handlers of its three packets. A handler runs inside the session that received
  the packet and may send through any session; the session is then both the record the receive path works on and an
  object of the server's heap, and \<open>within_server\<close> keeps the two the same.
\<close>

section \<open>EchoServer\<close>

text \<open>\<open>connectionList\<close> is a \<^verbatim>\<open>std::map\<close> from client ids to session pointers, which may be null.\<close>

record EchoServer =
  base :: Server
  connectionList :: "(u32 \<times> ptr option) list"

type_synonym echo_step = "EchoServer \<times> World \<Rightarrow> (EchoServer \<times> World) result"

definition new_EchoServer :: "u32 list \<Rightarrow> nat \<Rightarrow> EchoServer" where
  "new_EchoServer ids n = \<lparr>base = new_Server ids n, connectionList = []\<rparr>"

text \<open>A step of the server it inherits from.\<close>

definition on_base :: "server_step \<Rightarrow> echo_step" where
  "on_base f ew = (case ew of (es, w) \<Rightarrow> andThen (f (base es, w)) (\<lambda>(sv, w1). Inr (es\<lparr>base := sv\<rparr>, w1)))"

definition map_put :: "'k::linorder \<Rightarrow> 'v \<Rightarrow> ('k \<times> 'v) list \<Rightarrow> ('k \<times> 'v) list" where
  "map_put k v m = insort_key fst (k, v) (filter (\<lambda>e. fst e \<noteq> k) m)"

definition AddConnection :: "u32 \<Rightarrow> ptr option \<Rightarrow> EchoServer \<times> World \<Rightarrow> (bool \<times> EchoServer \<times> World) result" where
  "AddConnection clientId session ew =
     (case ew of (es, w) \<Rightarrow>
      if length (connectionList es) < unat (g_maxclientcount (config w))
      then Inr (True, es\<lparr>connectionList := map_put clientId session (connectionList es)\<rparr>, w)
      else (case session of
              None \<Rightarrow> Inl NullPointer
            | Some p \<Rightarrow> (case sessionHeap (base es) p of
                None \<Rightarrow> Inl NullPointer
              | Some s \<Rightarrow> Inr (False, es\<lparr>base := upd_session p (Session_Disconnect s) (base es)\<rparr>, w))))"

text \<open>The overridden \<^verbatim>\<open>DestroySession\<close>, and \<^verbatim>\<open>Server::RemoveSession\<close>, which calls it.\<close>

definition EchoServer_DestroySession :: "ptr \<Rightarrow> echo_step" where
  "EchoServer_DestroySession p ew =
     (case ew of (es, w) \<Rightarrow>
       on_base (DestroySession p) (es\<lparr>connectionList := filter (\<lambda>e. snd e \<noteq> Some p) (connectionList es)\<rparr>, w))"

definition EchoServer_RemoveSession :: "u32 \<Rightarrow> echo_step" where
  "EchoServer_RemoveSession i ew =
     (case ew of (es, w) \<Rightarrow>
       (case GetSession i (base es) of
          None \<Rightarrow> Inr (es, w)
        | Some p \<Rightarrow>
            (case sessionHeap (base es) p of
               None \<Rightarrow> Inl NullPointer
             | Some s \<Rightarrow> EchoServer_DestroySession p (es\<lparr>base := Manager_RemoveSession i
                 ((base es)\<lparr>peerMap := (peerMap (base es))(PeerKey (addr s) := None)\<rparr>)\<rparr>, w))))"

text \<open>The stack bytes that become the padding of the sub-header are the argument \<open>pad\<close>.\<close>

fun broadcast_to :: "(u32 \<Rightarrow> u8 \<times> u8) \<Rightarrow> bytes \<Rightarrow> u8 \<Rightarrow> u16 \<Rightarrow> PacketOpctions \<Rightarrow> (u32 \<times> ptr option) list \<Rightarrow> server_step" where
  "broadcast_to pad buffer code sz opt [] sw = Inr sw"
| "broadcast_to pad buffer code sz opt ((clientId, None) # es) sw = broadcast_to pad buffer code sz opt es sw"
| "broadcast_to pad buffer code sz opt ((clientId, Some p) # es) (sv, w) =
     (case sessionHeap sv p of
        None \<Rightarrow> Inl NullPointer
      | Some s \<Rightarrow>
          let sh = GatewaySubHeader (pad clientId) clientId (endpointId s);
              sendOpt = (if PACKET_MAX_SIZE < unat sz + unat (GetSize sh 0) + sizeof_PacketHeader
                         then opt\<lparr>order := False\<rparr> else opt)
          in andThen (session_send p buffer code sz sendOpt sh (sv, w)) (broadcast_to pad buffer code sz opt es))"

definition EchoServer_Broadcast :: "(u32 \<Rightarrow> u8 \<times> u8) \<Rightarrow> bytes \<Rightarrow> u8 \<Rightarrow> u16 \<Rightarrow> PacketOpctions \<Rightarrow> echo_step" where
  "EchoServer_Broadcast pad buffer code sz opt ew =
     on_base (broadcast_to pad buffer code sz opt (connectionList (fst ew))) ew"

section \<open>EchoSessionHander\<close>

text \<open>\<open>owner\<close> tells whether \<^verbatim>\<open>owner_\<close> has been set; the server it refers to is the state the handlers act on.\<close>

record EchoSessionHander =
  owner :: bool

definition EchoSessionHander_SetOwner :: "bool \<Rightarrow> EchoSessionHander \<Rightarrow> EchoSessionHander" where
  "EchoSessionHander_SetOwner own hd0 = hd0\<lparr>owner := own\<rparr>"

definition Echo_RegisterHandler :: "Flat \<Rightarrow> EchoSessionHander \<Rightarrow> ptr option \<Rightarrow> bytes \<Rightarrow> u16 \<Rightarrow> echo_step" where
  "Echo_RegisterHandler fb hd0 session buffer sz ew =
     (let packet = GetPacket fb (drop sizeof_PacketHeader buffer)
      in if body_type packet = PacketBody_Register then
           (case body_as_Register packet of
              None \<Rightarrow> Inr ew
            | Some i \<Rightarrow> if owner hd0 then andThen (AddConnection i session ew) (\<lambda>(_, ew1). Inr ew1) else Inr ew)
         else Inr ew)"

definition Echo_ChatHandler :: "Flat \<Rightarrow> (u32 \<Rightarrow> u8 \<times> u8) \<Rightarrow> EchoSessionHander \<Rightarrow> ptr option \<Rightarrow> bytes \<Rightarrow> u16 \<Rightarrow> echo_step" where
  "Echo_ChatHandler fb pad hd0 session buffer sz ew =
     (let opt = HeaderToOptions (get_header buffer);
          packet = GetPacket fb (drop sizeof_PacketHeader buffer)
      in if body_type packet = PacketBody_Chatting then
           (case body_as_Chatting packet of
              Some (i, Some msg) \<Rightarrow>
                if owner hd0 then
                  let out = FinishPacketBuffer fb (Chatting i (Some (c_str msg)))
                  in EchoServer_Broadcast pad out PacketBody_Chatting (of_nat (length out)) opt ew
                else Inr ew
            | _ \<Rightarrow> Inr ew)
         else Inr ew)"

definition Echo_BotHandler :: "Flat \<Rightarrow> (u32 \<Rightarrow> u8 \<times> u8) \<Rightarrow> EchoSessionHander \<Rightarrow> ptr option \<Rightarrow> bytes \<Rightarrow> u16 \<Rightarrow> echo_step" where
  "Echo_BotHandler fb pad hd0 session buffer sz ew =
     (let opt = HeaderToOptions (get_header buffer);
          packet = GetPacket fb (drop sizeof_PacketHeader buffer)
      in if body_type packet = PacketBody_Bot \<and> owner hd0 then
           (case (body_as_Bot packet, session) of
              (Some (i, _), Some p) \<Rightarrow>
                (case sessionHeap (base (fst ew)) p of
                   None \<Rightarrow> Inl NullPointer
                 | Some s \<Rightarrow> on_base (session_send p (drop sizeof_PacketHeader buffer) PacketBody_Bot
                     (sz - of_nat sizeof_PacketHeader) opt (GatewaySubHeader (pad i) i (endpointId s))) ew)
            | _ \<Rightarrow> Inl NullPointer)
         else Inr ew)"

section \<open>The handlers inside a session\<close>

text \<open>
  \<open>p\<close> is the session that runs the handler. Its record carries the server as the rest of the program state;
  the server's own copy of it is written before the handler runs, and read back after.
\<close>

definition within_server :: "ptr \<Rightarrow> echo_step \<Rightarrow> EchoServer Session_ext step" where
  "within_server p f sw =
     (case sw of (s, w) \<Rightarrow>
       (let es = Session.more s
        in andThen (f (es\<lparr>base := upd_session p (Session.truncate s) (base es)\<rparr>, w)) (\<lambda>(es1, w1).
             case sessionHeap (base es1) p of
               None \<Rightarrow> Inl NullPointer
             | Some s1 \<Rightarrow> Inr (Session.extend s1 es1, w1))))"

text \<open>The table \<^verbatim>\<open>main\<close> registers. No handler for packets with a sub-header is given.\<close>

definition echo_handlers :: "Flat \<Rightarrow> (u32 \<Rightarrow> u8 \<times> u8) \<Rightarrow> EchoSessionHander \<Rightarrow> ptr \<Rightarrow> EchoServer Session_ext handlers" where
  "echo_handlers fb pad hd0 p =
     (let entry = (\<lambda>f. \<lparr>verifier = Some (VerifyPacketBuffer fb), handler = Some (\<lambda>b n. within_server p (f b n)), handler2 = None\<rparr>)
      in Some [PacketBody_Chatting \<mapsto> entry (Echo_ChatHandler fb pad hd0 (Some p)),
               PacketBody_Register \<mapsto> entry (Echo_RegisterHandler fb hd0 (Some p)),
               PacketBody_Bot \<mapsto> entry (Echo_BotHandler fb pad hd0 (Some p))])"

text \<open>A datagram of session \<open>p\<close>, as the worker hands it to the session.\<close>

definition echo_packet :: "Flat \<Rightarrow> (u32 \<Rightarrow> u8 \<times> u8) \<Rightarrow> EchoSessionHander \<Rightarrow> ptr \<Rightarrow> bytes \<Rightarrow> u16 \<Rightarrow> echo_step" where
  "echo_packet fb pad hd0 p buffer sz ew =
     (case ew of (es, w) \<Rightarrow>
       (case sessionHeap (base es) p of
          None \<Rightarrow> Inl NullPointer
        | Some s \<Rightarrow> andThen (session_packet (echo_handlers fb pad hd0 p) buffer sz (Session.extend s es, w)) (\<lambda>(s1, w1).
            let es1 = Session.more s1
            in Inr (es1\<lparr>base := upd_session p (Session.truncate s1) (base es1)\<rparr>, w1))))"

section \<open>The handlers are good neighbours\<close>

text \<open>Sending, registering and disconnecting leave the receive state, the identities and the set of sessions as they are.\<close>

lemma broadcast_to_sends_only:
  "broadcast_to pad b code sz opt es (sv, w) = Inr (sv', w') \<Longrightarrow> sends_only (sv, w) (sv', w')"
proof (induction es arbitrary: sv w)
  case (Cons e es)
  obtain cid q where e: "e = (cid, q)" by force
  show ?case
  proof (cases q)
    case None
    then show ?thesis using Cons e by simp
  next
    case (Some p)
    obtain o1 sh sv1 w1 where "session_send p b code sz o1 sh (sv, w) = Inr (sv1, w1)" "broadcast_to pad b code sz opt es (sv1, w1) = Inr (sv', w')"
      using Cons.prems e Some by (auto simp: Let_def split: option.splits)
    then show ?thesis using session_send_sends_only Cons.IH sends_only_trans by blast
  qed
qed simp

lemma on_base_Inr: "on_base f (es, w) = Inr (es', w') \<longleftrightarrow> (\<exists>sv. f (base es, w) = Inr (sv, w') \<and> es' = es\<lparr>base := sv\<rparr>)"
  by (auto simp: on_base_def)

lemma AddConnection_cases:
  assumes "AddConnection i q (es, w) = Inr (r, es', w')"
  obtains "r" "length (connectionList es) < unat (g_maxclientcount (config w))" "w' = w"
      "es' = es\<lparr>connectionList := map_put i q (connectionList es)\<rparr>"
    | p s where "\<not> r" "q = Some p" "sessionHeap (base es) p = Some s" "w' = w"
      "es' = es\<lparr>base := upd_session p (Session_Disconnect s) (base es)\<rparr>"
  using assms by (auto simp: AddConnection_def split: if_splits option.splits)

lemma AddConnection_sends_only:
  assumes "AddConnection i q (es, w) = Inr (r, es', w')"
  shows "sends_only (base es, w) (base es', w')"
  using assms by (cases rule: AddConnection_cases)
    (auto simp: sends_only_def upd_session_def Session_Disconnect_def same_end_def rx_view_def identity_def)

lemma echo_handlers_sends_only:
  "Echo_RegisterHandler fb hd0 q b n (es, w) = Inr (es', w') \<Longrightarrow> sends_only (base es, w) (base es', w')"
  "Echo_ChatHandler fb pad hd0 q b n (es, w) = Inr (es', w') \<Longrightarrow> sends_only (base es, w) (base es', w')"
  "Echo_BotHandler fb pad hd0 q b n (es, w) = Inr (es', w') \<Longrightarrow> sends_only (base es, w) (base es', w')"
  by (auto simp: Echo_RegisterHandler_def Echo_ChatHandler_def Echo_BotHandler_def EchoServer_Broadcast_def on_base_Inr Let_def
      split: if_splits option.splits dest!: AddConnection_sends_only broadcast_to_sends_only session_send_sends_only)

text \<open>Hence the framework's guarantees to its sessions hold for the echo server: its handlers satisfy the contract.\<close>

lemma within_server_Inr:
  assumes "within_server p f (s, w) = Inr (s', w')"
  obtains es1 s1 where "f ((Session.more s)\<lparr>base := upd_session p (Session.truncate s) (base (Session.more s))\<rparr>, w) = Inr (es1, w')"
    "sessionHeap (base es1) p = Some s1" "s' = Session.extend s1 es1"
  using assms by (auto simp: within_server_def Let_def split: option.splits)

lemma within_server_calm:
  assumes f: "\<And>es w es' w'. f (es, w) = Inr (es', w') \<Longrightarrow> sends_only (base es, w) (base es', w')"
  shows "calm (within_server p f)" "keeps_id (within_server p f)"
proof -
  have st: "same_end (Session.truncate s) (Session.truncate s') \<and> rx_world w' = rx_world w"
    if h: "within_server p f (s, w) = Inr (s', w')" for s w s' w'
  proof -
    from h obtain es1 s1 where r: "f ((Session.more s)\<lparr>base := upd_session p (Session.truncate s) (base (Session.more s))\<rparr>, w) = Inr (es1, w')"
      and s1: "sessionHeap (base es1) p = Some s1" and s': "s' = Session.extend s1 es1" by (rule within_server_Inr)
    have "sessionHeap (base ((Session.more s)\<lparr>base := upd_session p (Session.truncate s) (base (Session.more s))\<rparr>)) p = Some (Session.truncate s)"
      by (simp add: upd_session_def)
    then have "same_end (Session.truncate s) s1" using sends_onlyD(1) [OF f [OF r], of p] s1 by auto
    then show ?thesis using f [OF r] s' by (simp add: sends_only_def)
  qed
  then show "calm (within_server p f)" "keeps_id (within_server p f)"
    by (auto simp: same_end_def quiet_iff intro!: calmI keeps_idI)
qed

lemma echo_handlers_good: "good_handlers (echo_handlers fb pad hd0 p)" "id_handlers (echo_handlers fb pad hd0 p)"
  using within_server_calm [OF echo_handlers_sends_only(1)] within_server_calm [OF echo_handlers_sends_only(2)]
    within_server_calm [OF echo_handlers_sends_only(3)]
  by (auto simp: good_handlers_def id_handlers_def echo_handlers_def Let_def split: if_splits)

section \<open>The list of connections\<close>

definition connections_ok :: "EchoServer \<Rightarrow> Config \<Rightarrow> bool" where
  "connections_ok es cfg \<longleftrightarrow> sorted (map fst (connectionList es)) \<and> distinct (map fst (connectionList es))
     \<and> length (connectionList es) \<le> unat (g_maxclientcount cfg)
     \<and> (\<forall>e \<in> set (connectionList es). \<exists>p s. snd e = Some p \<and> sessionHeap (base es) p = Some s)"

lemma map_put_keys:
  assumes "sorted (map fst m)" "distinct (map fst m)"
  shows "sorted (map fst (map_put k v m))" "distinct (map fst (map_put k v m))"
    "set (map_put k v m) = insert (k, v) {e \<in> set m. fst e \<noteq> k}" "length (map_put k v m) \<le> Suc (length m)"
  using assms by (auto simp: map_put_def sorted_insort_key sorted_filter distinct_map_filter set_insort_key
      distinct_insort_key le_SucI)

lemma connections_ok_heap:
  assumes "connections_ok es cfg" "dom (sessionHeap (base es)) \<subseteq> dom (sessionHeap sv)"
  shows "connections_ok (es\<lparr>base := sv\<rparr>) cfg"
proof -
  have "\<exists>p s. snd e = Some p \<and> sessionHeap sv p = Some s" if "e \<in> set (connectionList es)" for e
    using assms that unfolding connections_ok_def by blast
  then show ?thesis using assms(1) by (simp add: connections_ok_def)
qed

lemma AddConnection_ok:
  assumes "connections_ok es (config w)" "AddConnection i (Some p) (es, w) = Inr (r, es', w')" "sessionHeap (base es) p = Some s"
  shows "connections_ok es' (config w')"
  using assms(2)
proof (cases rule: AddConnection_cases)
  case 1
  then show ?thesis using assms(1,3) map_put_keys [of "connectionList es" i "Some p"] by (auto simp: connections_ok_def)
next
  case (2 p s)
  then show ?thesis using connections_ok_heap [OF assms(1), of "upd_session p (Session_Disconnect s) (base es)"]
    by (auto simp: upd_session_def)
qed

text \<open>A handler called by a live session keeps the list in order and the session alive.\<close>

definition carried_ok :: "ptr \<Rightarrow> Config \<Rightarrow> EchoServer \<Rightarrow> Config \<Rightarrow> bool" where
  "carried_ok p cfg es c \<longleftrightarrow> c = cfg \<and> connections_ok es c \<and> p \<in> dom (sessionHeap (base es))"

lemma sends_only_carried:
  assumes "carried_ok p cfg es (config w)" "sends_only (base es, w) (sv, w')"
  shows "carried_ok p cfg (es\<lparr>base := sv\<rparr>) (config w')"
  using assms connections_ok_heap [of es _ sv] by (auto simp: carried_ok_def sends_only_def rx_world_def)

lemma echo_handlers_carried:
  assumes ok: "carried_ok p cfg es (config w)"
  shows "Echo_RegisterHandler fb hd0 (Some p) b n (es, w) = Inr (es', w') \<Longrightarrow> carried_ok p cfg es' (config w')"
    "Echo_ChatHandler fb pad hd0 (Some p) b n (es, w) = Inr (es', w') \<Longrightarrow> carried_ok p cfg es' (config w')"
    "Echo_BotHandler fb pad hd0 (Some p) b n (es, w) = Inr (es', w') \<Longrightarrow> carried_ok p cfg es' (config w')"
proof -
  have add: "carried_ok p cfg es1 (config w1)" if "AddConnection i (Some p) (es, w) = Inr (r, es1, w1)" for i r es1 w1
    using AddConnection_ok [OF _ that] AddConnection_sends_only [OF that] ok by (auto simp: carried_ok_def sends_only_def rx_world_def)
  show "Echo_RegisterHandler fb hd0 (Some p) b n (es, w) = Inr (es', w') \<Longrightarrow> carried_ok p cfg es' (config w')"
    using ok by (auto simp: Echo_RegisterHandler_def Let_def split: if_splits option.splits dest: add)
  show "Echo_ChatHandler fb pad hd0 (Some p) b n (es, w) = Inr (es', w') \<Longrightarrow> carried_ok p cfg es' (config w')"
    using ok by (auto simp: Echo_ChatHandler_def EchoServer_Broadcast_def on_base_Inr Let_def split: if_splits option.splits
        dest!: broadcast_to_sends_only intro: sends_only_carried)
  show "Echo_BotHandler fb pad hd0 (Some p) b n (es, w) = Inr (es', w') \<Longrightarrow> carried_ok p cfg es' (config w')"
    using ok by (auto simp: Echo_BotHandler_def on_base_Inr Let_def split: if_splits option.splits
        dest!: session_send_sends_only intro: sends_only_carried)
qed

text \<open>The server a session carries is a part of it that the framework does not touch.\<close>

interpretation echoCarried: session_invariant "Session.more" "carried_ok p cfg" for p cfg
  by unfold_locales simp_all

lemma within_server_keeps:
  assumes f: "\<And>es w es' w'. carried_ok p cfg es (config w) \<Longrightarrow> f (es, w) = Inr (es', w') \<Longrightarrow> carried_ok p cfg es' (config w')"
  shows "keeps Session.more (carried_ok p cfg) (within_server p f)"
proof (rule keepsI)
  fix s w s' w' assume h: "within_server p f (s, w) = Inr (s', w')" and ok: "carried_ok p cfg (Session.more s) (config w)"
  let ?es = "(Session.more s)\<lparr>base := upd_session p (Session.truncate s) (base (Session.more s))\<rparr>"
  from h obtain es1 s1 where r: "f (?es, w) = Inr (es1, w')" and s': "s' = Session.extend s1 es1" by (rule within_server_Inr)
  have "carried_ok p cfg ?es (config w)"
    using ok connections_ok_heap [of "Session.more s" "config w" "upd_session p (Session.truncate s) (base (Session.more s))"]
    by (auto simp: carried_ok_def upd_session_def)
  then show "carried_ok p cfg (Session.more s') (config w')" using f [OF _ r] s' by simp
qed

lemma echo_handlers_keeping: "keeping_handlers Session.more (carried_ok p cfg) (echo_handlers fb pad hd0 p)"
  using within_server_keeps [of p _ "Echo_RegisterHandler fb hd0 (Some p) _ _", OF echo_handlers_carried(1)]
    within_server_keeps [of p _ "Echo_ChatHandler fb pad hd0 (Some p) _ _", OF echo_handlers_carried(2)]
    within_server_keeps [of p _ "Echo_BotHandler fb pad hd0 (Some p) _ _", OF echo_handlers_carried(3)]
  by (auto simp: keeping_handlers_def echo_handlers_def Let_def split: if_splits)

lemma echo_packet_ok:
  assumes ok: "connections_ok es (config w)" and r: "echo_packet fb pad hd0 p b n (es, w) = Inr (es', w')"
  shows "connections_ok es' (config w')" "config w' = config w"
proof -
  obtain s s1 where s: "sessionHeap (base es) p = Some s"
    and sp: "session_packet (echo_handlers fb pad hd0 p) b n (Session.extend s es, w) = Inr (s1, w')"
    and es': "es' = (Session.more s1)\<lparr>base := upd_session p (Session.truncate s1) (base (Session.more s1))\<rparr>"
    using r by (auto simp: echo_packet_def Let_def split: option.splits)
  have c: "carried_ok p (config w) (Session.more s1) (config w')"
    using keepsD [OF echoCarried.session_packet_keeps [OF echo_handlers_keeping] sp] ok s by (auto simp: carried_ok_def)
  then show "config w' = config w" by (simp add: carried_ok_def)
  have "connections_ok (Session.more s1) (config w')" using c by (auto simp: carried_ok_def)
  then show "connections_ok es' (config w')" unfolding es' by (rule connections_ok_heap) (auto simp: upd_session_def)
qed

section \<open>The life of the server\<close>

text \<open>
  Everything that can happen to the list: a datagram is handled by a session, a session is removed, and the
  framework's other work, which creates sessions and changes them but removes none.
\<close>

inductive echo_run :: "Flat \<Rightarrow> (u32 \<Rightarrow> u8 \<times> u8) \<Rightarrow> EchoSessionHander \<Rightarrow> EchoServer \<Rightarrow> World \<Rightarrow> EchoServer \<Rightarrow> World \<Rightarrow> bool"
  for fb pad hd0 es0 w0 where
  start: "echo_run fb pad hd0 es0 w0 es0 w0"
| packet: "echo_run fb pad hd0 es0 w0 es w \<Longrightarrow> echo_packet fb pad hd0 p b n (es, w) = Inr (es', w') \<Longrightarrow> echo_run fb pad hd0 es0 w0 es' w'"
| remove: "echo_run fb pad hd0 es0 w0 es w \<Longrightarrow> EchoServer_RemoveSession i (es, w) = Inr (es', w') \<Longrightarrow> echo_run fb pad hd0 es0 w0 es' w'"
| framework: "echo_run fb pad hd0 es0 w0 es w \<Longrightarrow> dom (sessionHeap (base es)) \<subseteq> dom (sessionHeap sv) \<Longrightarrow> config w' = config w \<Longrightarrow>
    echo_run fb pad hd0 es0 w0 (es\<lparr>base := sv\<rparr>) w'"

lemma EchoServer_RemoveSession_effect:
  assumes "EchoServer_RemoveSession i (es, w) = Inr (es', w')" "connections_ok es (config w)"
  shows "connections_ok es' (config w')" "config w' = config w"
    "GetSession i (base es) = Some p \<Longrightarrow> connectionList es' = filter (\<lambda>e. snd e \<noteq> Some p) (connectionList es)"
proof -
  consider "es' = es" "w' = w" "GetSession i (base es) = None"
    | q sv where "GetSession i (base es) = Some q" "DestroySession q (sv, w) = Inr (base es', w')" "sessionHeap sv = sessionHeap (base es)"
      "connectionList es' = filter (\<lambda>e. snd e \<noteq> Some q) (connectionList es)"
    using assms(1) by (auto simp: EchoServer_RemoveSession_def EchoServer_DestroySession_def on_base_Inr Manager_RemoveSession_def
        split: option.splits)
  note c = this
  show "GetSession i (base es) = Some p \<Longrightarrow> connectionList es' = filter (\<lambda>e. snd e \<noteq> Some p) (connectionList es)"
    using c by cases auto
  show cfg: "config w' = config w" using c by cases (auto dest: config_DestroySession)
  show "connections_ok es' (config w')"
    using c
  proof cases
    case (2 q sv)
    have h: "sessionHeap (base es') = (sessionHeap (base es))(q := None)" using DestroySession_frame [OF 2(2)] 2(3) by simp
    have "\<exists>p s. snd e = Some p \<and> sessionHeap (base es') p = Some s" if e: "e \<in> set (connectionList es')" for e
    proof -
      have "e \<in> set (connectionList es)" "snd e \<noteq> Some q" using e 2(4) by auto
      then show ?thesis using assms(2) h unfolding connections_ok_def by fastforce
    qed
    moreover have "length (connectionList es') \<le> length (connectionList es)" using 2(4) by simp
    ultimately show "connections_ok es' (config w')"
      using assms(2) cfg 2(4) by (auto simp: connections_ok_def sorted_filter distinct_map_filter intro: order_trans [OF length_filter_le])
  qed (use assms(2) in simp_all)
qed

text \<open>
  C32. Whatever happens to the echo server after it starts, its list of connections has one entry per client, at most
  as many as the configuration allows, and no entry refers to a session that has been destroyed, so that a broadcast
  never uses a dangling pointer.
\<close>
theorem connections_live:
  assumes "echo_run fb pad hd0 (new_EchoServer ids k) w0 es w"
  shows "distinct (map fst (connectionList es)) \<and> length (connectionList es) \<le> unat (g_maxclientcount (config w0))
    \<and> (\<forall>e \<in> set (connectionList es). \<exists>p s. snd e = Some p \<and> sessionHeap (base es) p = Some s)"
proof -
  have "connections_ok es (config w) \<and> config w = config w0"
    using assms
  proof (induction rule: echo_run.induct)
    case start
    show ?case by (simp add: connections_ok_def new_EchoServer_def)
  next
    case (packet es w p b n es' w')
    then show ?case using echo_packet_ok by metis
  next
    case (remove es w i es' w')
    then show ?case using EchoServer_RemoveSession_effect(1,2) by metis
  next
    case (framework es w sv w')
    then show ?case using connections_ok_heap [of es "config w0" sv] by auto
  qed
  then show ?thesis by (auto simp: connections_ok_def)
qed

section \<open>What a chat message becomes\<close>

definition for_client :: "(u32 \<Rightarrow> u8 \<times> u8) \<Rightarrow> PacketOpctions \<Rightarrow> u8 \<Rightarrow> bytes \<Rightarrow> (ptr \<rightharpoonup> Session) \<Rightarrow> u32 \<times> ptr option
    \<Rightarrow> SOCKADDR_IN \<times> bytes \<Rightarrow> bool" where
  "for_client pad opt code out heap e ad \<longleftrightarrow> (\<exists>p s seq. snd e = Some p \<and> heap p = Some s \<and> fst ad = addr s \<and>
     datagram_of opt code seq (endpointId s) (GatewaySubHeader (pad (fst e)) (fst e) (endpointId s)) out (snd ad))"

lemma for_client_same:
  assumes "for_client pad opt code out heap' e ad" "\<And>p s'. heap' p = Some s' \<Longrightarrow> \<exists>s. heap p = Some s \<and> same_end s s'"
  shows "for_client pad opt code out heap e ad"
proof -
  obtain p s' seq where h: "snd e = Some p" "heap' p = Some s'" "fst ad = addr s'"
    "datagram_of opt code seq (endpointId s') (GatewaySubHeader (pad (fst e)) (fst e) (endpointId s')) out (snd ad)"
    using assms(1) by (auto simp: for_client_def)
  obtain s where "heap p = Some s" "same_end s s'" using assms(2) [OF h(2)] by blast
  then show ?thesis using h by (auto simp: for_client_def same_end_def identity_def)
qed

lemma sends_only_back:
  "sends_only sw sw' \<Longrightarrow> sessionHeap (fst sw') p = Some s' \<Longrightarrow> \<exists>s. sessionHeap (fst sw) p = Some s \<and> same_end s s'"
  using sends_onlyD [of sw sw' p] by (cases "sessionHeap (fst sw) p") auto

lemma broadcast_to_wire:
  assumes "broadcast_to pad out code sz opt es (sv, w) = Inr (sv', w')" "unat sz = length out" "length out + 36 \<le> 1024"
    "\<forall>e \<in> set es. \<exists>p s. snd e = Some p \<and> sessionHeap sv p = Some s \<and> hasSocket s"
  shows "\<exists>ds. wire w' = wire w @ ds \<and> length ds \<le> length es \<and>
    (length ds = length es \<longrightarrow> list_all2 (for_client pad opt code out (sessionHeap sv)) es ds)"
  using assms(1,4)
proof (induction es arbitrary: sv w)
  case (Cons e es)
  obtain cid p s where e: "e = (cid, Some p)" "sessionHeap sv p = Some s" "hasSocket s" using Cons.prems(2) by (cases e) auto
  let ?sh = "GatewaySubHeader (pad cid) cid (endpointId s)"
  have sz: "unat (GetSize ?sh 0) = 12" using GatewaySubHeader_read(2) [of "[]" 0 "pad cid" cid "endpointId s" "[]"] by simp
  have "\<exists>sv1 w1. session_send p out code sz opt ?sh (sv, w) = Inr (sv1, w1) \<and> broadcast_to pad out code sz opt es (sv1, w1) = Inr (sv', w')"
    using Cons.prems(1) e assms(2,3) sz by (auto simp: Let_def split: if_splits)
  then obtain sv1 w1 where r: "session_send p out code sz opt ?sh (sv, w) = Inr (sv1, w1)" "broadcast_to pad out code sz opt es (sv1, w1) = Inr (sv', w')"
    by blast
  note so = session_send_sends_only [OF r(1)]
  have "\<forall>e \<in> set es. \<exists>p s. snd e = Some p \<and> sessionHeap sv1 p = Some s \<and> hasSocket s"
  proof
    fix e' assume "e' \<in> set es"
    then obtain p' s' where "snd e' = Some p'" "sessionHeap sv p' = Some s'" "hasSocket s'" using Cons.prems(2) by auto
    then show "\<exists>p s. snd e' = Some p \<and> sessionHeap sv1 p = Some s \<and> hasSocket s"
      using sends_onlyD(1) [OF so, of p' s'] by (auto simp: same_end_def)
  qed
  from Cons.IH [OF r(2) this] obtain ds where ds: "wire w' = wire w1 @ ds" "length ds \<le> length es"
    "length ds = length es \<longrightarrow> list_all2 (for_client pad opt code out (sessionHeap sv1)) es ds" by blast
  have kept: "list_all2 (for_client pad opt code out (sessionHeap sv)) es ds" if "length ds = length es"
    using ds(3) that by (auto elim!: list_all2_mono intro: for_client_same sends_only_back [OF so, simplified])
  consider "wire w1 = wire w" | seq d where "wire w1 = wire w @ [(addr s, d)]"
      "datagram_of opt code seq (endpointId s) ?sh out d"
    using session_send_wire [OF r(1) e(2,3)] assms(2,3) by auto
  then show ?case
  proof cases
    case 1
    then show ?thesis using ds(1,2) by (intro exI [of _ ds]) simp
  next
    case (2 seq d)
    have "for_client pad opt code out (sessionHeap sv) e (addr s, d)" using 2(2) e by (auto simp: for_client_def)
    then show ?thesis using 2(1) ds(1,2) kept by (intro exI [of _ "(addr s, d) # ds"]) simp
  qed
qed simp


section \<open>Witnesses\<close>

definition register_packet :: bytes where
  "register_packet = header_bytes \<lparr>totalSize = 30, packetCode = 2, flags = flag_value NONE, hSessionId = 7,
     hSequenceNo = 1, hTimestamp = 0, checksum = 0, chunkInfo = \<lparr>ci_size = 0, ci_flag = 0\<rparr>\<rparr> @ example_write (Register 5)"

definition example_echo :: EchoServer where
  "example_echo = \<lparr>base = example_server, connectionList = []\<rparr>"

lemma register_packet_simps:
  "get_header register_packet = \<lparr>totalSize = 30, packetCode = 2, flags = flag_value NONE, hSessionId = 7,
     hSequenceNo = 1, hTimestamp = 0, checksum = 0, chunkInfo = \<lparr>ci_size = 0, ci_flag = 0\<rparr>\<rparr>"
  "drop 24 register_packet = example_write (Register 5)"
  by (simp_all add: register_packet_def get_header_header_bytes)

lemma example_registered:
  "\<exists>es w. echo_packet example_flat example_pad \<lparr>owner = True\<rparr> 0 register_packet 30 (example_echo, late_world) = Inr (es, w)
     \<and> connectionList es = [(5, Some 0)]"
  by (simp add: echo_packet_def example_echo_def example_session_simps session_packet_def register_packet_simps Session_RecvDispatch_def
      RecvDispatch_def RecvUnreliable_def HandOn_def Session_PacketParse_def parse_handlers_def echo_handlers_def Let_def
      GetRelativeTimeMs_def has_flag_def example_flat_simps within_server_def Echo_RegisterHandler_def body_as_Register_def
      AddConnection_def map_put_def upd_session_def Session.defs example_session_def new_Session_def new_PacketStateBase_def
      default_config_def del: example_write.simps)
    (simp add: word_le_nat_alt)

theorem connections_live_witness:
  "\<exists>es w. echo_run example_flat example_pad \<lparr>owner = True\<rparr> (new_EchoServer [9] 2) late_world es w \<and> connectionList es = [(5, Some 0)]
     \<and> (\<exists>s. sessionHeap (base es) 0 = Some s)"
proof -
  have "echo_run example_flat example_pad \<lparr>owner = True\<rparr> (new_EchoServer [9] 2) late_world ((new_EchoServer [9] 2)\<lparr>base := example_server\<rparr>) late_world"
    by (intro echo_run.framework [OF echo_run.start]) (simp_all add: new_EchoServer_def new_Server_def)
  moreover have "(new_EchoServer [9] 2)\<lparr>base := example_server\<rparr> = example_echo" by (simp add: new_EchoServer_def example_echo_def)
  ultimately obtain es w where "echo_run example_flat example_pad \<lparr>owner = True\<rparr> (new_EchoServer [9] 2) late_world es w"
      "connectionList es = [(5, Some 0)]"
    using example_registered echo_run.packet by metis
  then show ?thesis using connections_live [of example_flat example_pad "\<lparr>owner = True\<rparr>" "[9]" 2 late_world es w] by auto
qed

definition chat_packet :: bytes where
  "chat_packet = header_bytes \<lparr>totalSize = 33, packetCode = 1, flags = flag_value NONE, hSessionId = 7,
     hSequenceNo = 2, hTimestamp = 0, checksum = 0, chunkInfo = \<lparr>ci_size = 0, ci_flag = 0\<rparr>\<rparr> @ example_write (Chatting 5 (Some [104]))"

lemma chat_packet_simps:
  "flags (get_header chat_packet) = flag_value NONE" "drop 24 chat_packet = example_write (Chatting 5 (Some [104]))"
  "length (example_write (Chatting 5 (Some [104]))) = 9"
  by (simp_all add: chat_packet_def get_header_header_bytes le32_def)


end
