(* ===== verification/Dubu_Gateway.thy ===== *)
theory Dubu_Gateway
  imports Dubu_Apps Dubu_InternalClient
begin

text \<open>
  The gateway, \<^verbatim>\<open>GateWay/GatewayServer.cpp\<close> and \<^verbatim>\<open>GatewaySessionHandler.cpp\<close>: a server for the clients with ten
  connections of its own to the echo server. What a client sends goes on through one of them, chosen by the client's
  session id; what comes back names the session it is for in its sub-header.
\<close>

section \<open>GatewayServer\<close>

abbreviation (input) echoCount :: nat where "echoCount \<equiv> 10"

record GatewayServer =
  gateway :: Server
  internalClientList :: "InternalClient list"

type_synonym gateway_step = "GatewayServer \<times> World \<Rightarrow> (GatewayServer \<times> World) result"

definition new_GatewayServer :: "u32 list \<Rightarrow> nat \<Rightarrow> GatewayServer" where
  "new_GatewayServer ids n = \<lparr>gateway = new_Server ids n, internalClientList = []\<rparr>"

definition on_gateway :: "server_step \<Rightarrow> gateway_step" where
  "on_gateway f gw = (case gw of (g, w) \<Rightarrow> andThen (f (gateway g, w)) (\<lambda>(sv, w1). Inr (g\<lparr>gateway := sv\<rparr>, w1)))"

text \<open>An operation of one of the internal clients, with the rest of the gateway around it.\<close>

definition on_client :: "nat \<Rightarrow> unit InternalClient_ext step \<Rightarrow> gateway_step" where
  "on_client i f gw =
     (case gw of (g, w) \<Rightarrow>
      if length (internalClientList g) \<le> i then Inl OutOfRange
      else andThen (f (internalClientList g ! i, w)) (\<lambda>(c, w1).
             Inr (g\<lparr>internalClientList := (internalClientList g)[i := c]\<rparr>, w1)))"

text \<open>The internal client for a session, \<^verbatim>\<open>internalClientList_[sessionId % echoCount_]->SendPacket\<close>.\<close>

definition send_inside :: "u32 \<Rightarrow> bytes \<Rightarrow> u8 \<Rightarrow> u16 \<Rightarrow> PacketOpctions \<Rightarrow> gateway_step" where
  "send_inside sessionId payload code sz opt =
     on_client (unat sessionId mod echoCount) (InternalClient_SendPacket payload code sz opt [])"

definition SendToResgister :: "Flat \<Rightarrow> bytes \<Rightarrow> u8 \<Rightarrow> u16 \<Rightarrow> gateway_step" where
  "SendToResgister fb buffer code sz =
     (let header = get_header buffer; newBuffer = FinishPacketBuffer fb (Register (hSessionId header))
      in send_inside (hSessionId header) newBuffer code (of_nat (length newBuffer)) (mk_opt True True 0))"

text \<open>The size of the header and, if there is one, of the sub-header.\<close>

definition payload_offset :: "bytes \<Rightarrow> u16" where
  "payload_offset buffer =
     of_nat sizeof_PacketHeader + (if 0 < drop_bit 5 (packetCode (get_header buffer))
       then ucast (GetSize buffer sizeof_PacketHeader) else 0)"

definition SendToEcho :: "bytes \<Rightarrow> u8 \<Rightarrow> u16 \<Rightarrow> gateway_step" where
  "SendToEcho buffer code sz =
     (let header = get_header buffer; offset = payload_offset buffer
      in send_inside (hSessionId header) (drop (unat offset) buffer) code (sz - offset) (HeaderToOptions header))"

definition SendToClient :: "u32 \<Rightarrow> bytes \<Rightarrow> u8 \<Rightarrow> u16 \<Rightarrow> PacketOpctions \<Rightarrow> gateway_step" where
  "SendToClient sessionId buffer code sz opt gw =
     (case GetSession sessionId (gateway (fst gw)) of
        None \<Rightarrow> Inr gw
      | Some p \<Rightarrow> on_gateway (session_send p buffer code sz opt []) gw)"

definition SendBotToEcho :: "bytes \<Rightarrow> u16 \<Rightarrow> gateway_step" where
  "SendBotToEcho buffer sz =
     (let header = get_header buffer; offset = payload_offset buffer
      in send_inside (hSessionId header) (drop (unat offset) buffer) PacketBody_Bot (sz - offset) (HeaderToOptions header))"

fun broadcast_sessions :: "bytes \<Rightarrow> u8 \<Rightarrow> u16 \<Rightarrow> (u32 \<times> ptr) list \<Rightarrow> server_step" where
  "broadcast_sessions buffer code sz [] sw = Inr sw"
| "broadcast_sessions buffer code sz ((i, p) # es) sw =
     andThen (session_send p buffer code sz (mk_opt True True 0) [] sw) (broadcast_sessions buffer code sz es)"

definition Gateway_Broadcast :: "bytes \<Rightarrow> u8 \<Rightarrow> u16 \<Rightarrow> gateway_step" where
  "Gateway_Broadcast buffer code sz gw = on_gateway (broadcast_sessions buffer code sz (sessionMap (gateway (fst gw)))) gw"

section \<open>GatewaySessionHandler\<close>

text \<open>
  \<open>gOwner\<close> tells whether \<^verbatim>\<open>owner_\<close> has been set. The session is null when the handler is called by an internal
  client.
\<close>

record GatewaySessionHandler =
  gOwner :: bool
  clientToGatway :: bool

definition Gateway_SetOwner :: "bool \<Rightarrow> GatewaySessionHandler \<Rightarrow> GatewaySessionHandler" where
  "Gateway_SetOwner own h = h\<lparr>gOwner := own\<rparr>"

definition SetClientToGatway :: "bool \<Rightarrow> GatewaySessionHandler \<Rightarrow> GatewaySessionHandler" where
  "SetClientToGatway b h = h\<lparr>clientToGatway := b\<rparr>"

definition Gateway_RegisterHandler :: "Flat \<Rightarrow> GatewaySessionHandler \<Rightarrow> ptr option \<Rightarrow> bytes \<Rightarrow> u16 \<Rightarrow> gateway_step" where
  "Gateway_RegisterHandler fb h session buffer sz gw =
     (let packet = GetPacket fb (drop sizeof_PacketHeader buffer)
      in if body_type packet = PacketBody_Register \<and> body_as_Register packet \<noteq> None \<and> gOwner h \<and> session \<noteq> None
         then SendToResgister fb buffer PacketBody_Register sz gw else Inr gw)"

definition Gateway_RegisterHandler2 :: "ptr option \<Rightarrow> bytes \<Rightarrow> u16 \<Rightarrow> bytes \<Rightarrow> u8 \<Rightarrow> gateway_step" where
  "Gateway_RegisterHandler2 session buffer sz sub t gw = Inr gw"

definition Gateway_ChatHandler :: "Flat \<Rightarrow> GatewaySessionHandler \<Rightarrow> ptr option \<Rightarrow> bytes \<Rightarrow> u16 \<Rightarrow> gateway_step" where
  "Gateway_ChatHandler fb h session buffer sz gw =
     (let packet = GetPacket fb (drop sizeof_PacketHeader buffer)
      in if body_type packet = PacketBody_Chatting then
           (case body_as_Chatting packet of
              Some (i, Some msg) \<Rightarrow> if gOwner h \<and> session \<noteq> None then SendToEcho buffer PacketBody_Chatting sz gw else Inr gw
            | _ \<Rightarrow> Inr gw)
         else Inr gw)"

definition Gateway_ChatHandler2 :: "Flat \<Rightarrow> GatewaySessionHandler \<Rightarrow> ptr option \<Rightarrow> bytes \<Rightarrow> u16 \<Rightarrow> bytes \<Rightarrow> u8 \<Rightarrow> gateway_step" where
  "Gateway_ChatHandler2 fb h session buffer sz sub t gw =
     (if rd8 buffer sizeof_PacketHeader = t then
        let offset = sizeof_PacketHeader + unat (GetSize buffer sizeof_PacketHeader);
            packet = GetPacket fb (drop offset buffer)
        in if body_type packet = PacketBody_Chatting then
             (case body_as_Chatting packet of
                Some (i, Some msg) \<Rightarrow>
                  if gOwner h then SendToClient (depthId1 buffer sizeof_PacketHeader) (drop offset buffer) PacketBody_Chatting
                    (sz - of_nat offset) (HeaderToOptions (get_header buffer)) gw
                  else Inr gw
              | _ \<Rightarrow> Inr gw)
           else Inr gw
      else Inr gw)"

definition Gateway_BotHandler :: "Flat \<Rightarrow> GatewaySessionHandler \<Rightarrow> ptr option \<Rightarrow> bytes \<Rightarrow> u16 \<Rightarrow> gateway_step" where
  "Gateway_BotHandler fb h session buffer sz gw =
     (let packet = GetPacket fb (drop sizeof_PacketHeader buffer)
      in if body_type packet = PacketBody_Bot \<and> gOwner h \<and> session \<noteq> None then SendBotToEcho buffer sz gw else Inr gw)"

definition Gateway_BotHandler2 :: "Flat \<Rightarrow> GatewaySessionHandler \<Rightarrow> ptr option \<Rightarrow> bytes \<Rightarrow> u16 \<Rightarrow> bytes \<Rightarrow> u8 \<Rightarrow> gateway_step" where
  "Gateway_BotHandler2 fb h session buffer sz sub t gw =
     (if rd8 buffer sizeof_PacketHeader = t then
        let offset = sizeof_PacketHeader + unat (GetSize buffer sizeof_PacketHeader);
            packet = GetPacket fb (drop offset buffer)
        in if body_type packet = PacketBody_Bot \<and> gOwner h
           then SendToClient (depthId1 buffer sizeof_PacketHeader) (drop offset buffer) PacketBody_Bot
                  (sz - of_nat offset) (HeaderToOptions (get_header buffer)) gw
           else Inr gw
      else Inr gw)"

section \<open>The handlers inside their owners\<close>

text \<open>
  A session that runs a handler carries the gateway as the rest of the program state, and so does an internal client.
  The table is the one \<^verbatim>\<open>main\<close> registers, for both.
\<close>

definition within_session :: "ptr \<Rightarrow> gateway_step \<Rightarrow> GatewayServer Session_ext step" where
  "within_session p f sw =
     (case sw of (s, w) \<Rightarrow>
       (let g = Session.more s
        in andThen (f (g\<lparr>gateway := upd_session p (Session.truncate s) (gateway g)\<rparr>, w)) (\<lambda>(g1, w1).
             case sessionHeap (gateway g1) p of
               None \<Rightarrow> Inl NullPointer
             | Some s1 \<Rightarrow> Inr (Session.extend s1 g1, w1))))"

definition within_client :: "nat \<Rightarrow> gateway_step \<Rightarrow> GatewayServer InternalClient_ext step" where
  "within_client i f cw =
     (case cw of (c, w) \<Rightarrow>
       (let g = InternalClient.more c
        in andThen (f (g\<lparr>internalClientList := (internalClientList g)[i := InternalClient.truncate c]\<rparr>, w)) (\<lambda>(g1, w1).
             if length (internalClientList g1) \<le> i then Inl OutOfRange
             else Inr (InternalClient.extend (internalClientList g1 ! i) g1, w1))))"

definition gateway_handlers :: "Flat \<Rightarrow> GatewaySessionHandler \<Rightarrow> ptr option \<Rightarrow> (gateway_step \<Rightarrow> 'e step) \<Rightarrow> 'e handlers" where
  "gateway_handlers fb h session within =
     (let entry = (\<lambda>f f2. \<lparr>verifier = Some (VerifyPacketBuffer fb), handler = Some (\<lambda>b n. within (f b n)),
                            handler2 = Some (\<lambda>b n sub t. within (f2 b n sub t))\<rparr>)
      in Some [PacketBody_Chatting \<mapsto> entry (Gateway_ChatHandler fb h session) (Gateway_ChatHandler2 fb h session),
               PacketBody_Register \<mapsto> entry (Gateway_RegisterHandler fb h session) (Gateway_RegisterHandler2 session),
               PacketBody_Bot \<mapsto> entry (Gateway_BotHandler fb h session) (Gateway_BotHandler2 fb h session)])"

text \<open>
  \<^verbatim>\<open>InnerDispatch\<close>: each client in turn handles what its completion port returns, until it returns nothing;
  \<open>completions\<close> are the results of the port, and an exhausted list means that the loop has not ended.
\<close>

fun drain_port :: "Flat \<Rightarrow> GatewaySessionHandler \<Rightarrow> nat \<Rightarrow> (ptr \<times> int) option list \<Rightarrow> gateway_step" where
  "drain_port fb h i [] gw = Inl LoopBound"
| "drain_port fb h i (completion # rest) (g, w) =
     (if length (internalClientList g) \<le> i then Inl OutOfRange
      else andThen (InternalClient_Dispatch (gateway_handlers fb h None (within_client i)) completion
                     (InternalClient.extend (internalClientList g ! i) g, w)) (\<lambda>(more, c, w1).
             let g1 = (InternalClient.more c)\<lparr>internalClientList := (internalClientList (InternalClient.more c))[i := InternalClient.truncate c]\<rparr>
             in if more then drain_port fb h i rest (g1, w1) else Inr (g1, w1)))"

fun inner_dispatch_from :: "Flat \<Rightarrow> GatewaySessionHandler \<Rightarrow> nat \<Rightarrow> (ptr \<times> int) option list list \<Rightarrow> gateway_step" where
  "inner_dispatch_from fb h i [] gw = Inr gw"
| "inner_dispatch_from fb h i (cs # css) gw = andThen (drain_port fb h i cs gw) (inner_dispatch_from fb h (Suc i) css)"

definition InnerDispatch :: "Flat \<Rightarrow> GatewaySessionHandler \<Rightarrow> (nat \<Rightarrow> (ptr \<times> int) option list) \<Rightarrow> gateway_step" where
  "InnerDispatch fb h ports = inner_dispatch_from fb h 0 (map ports [0..<echoCount])"

text \<open>
  \<^verbatim>\<open>Initialize\<close> creates the clients and then asks each for a connection, five times at most; \<open>ports\<close> are the
  results of the clients' completion ports. The address is 127.0.0.1:12345.
\<close>

fun create_clients :: "nat \<Rightarrow> gateway_step" where
  "create_clients 0 gw = Inr gw"
| "create_clients (Suc n) (g, w) =
     andThen (new_InternalClient \<lparr>sin_addr = 0x0100007F, sin_port = 0x3930\<rparr> w) (\<lambda>(c, w1).
       create_clients n (g\<lparr>internalClientList := internalClientList g @ [c]\<rparr>, w1))"

fun connect_clients :: "Flat \<Rightarrow> GatewaySessionHandler \<Rightarrow> (nat \<Rightarrow> (ptr \<times> int) option list) \<Rightarrow> nat list \<Rightarrow> gateway_step" where
  "connect_clients fb h ports [] gw = Inr gw"
| "connect_clients fb h ports (i # is) (g, w) =
     (if length (internalClientList g) \<le> i then Inl OutOfRange
      else andThen (InternalClient_ConnectTimes (gateway_handlers fb h None (within_client i)) (take 5 (ports i))
                     (InternalClient.extend (internalClientList g ! i) g, w)) (\<lambda>(c, w1).
             connect_clients fb h ports is ((InternalClient.more c)\<lparr>internalClientList :=
               (internalClientList (InternalClient.more c))[i := InternalClient.truncate c]\<rparr>, w1)))"

definition Gateway_Initialize :: "Flat \<Rightarrow> GatewaySessionHandler \<Rightarrow> (nat \<Rightarrow> (ptr \<times> int) option list) \<Rightarrow> gateway_step" where
  "Gateway_Initialize fb h ports gw =
     andThen (on_gateway Server_Initialize gw) (\<lambda>gw1.
       andThen (create_clients echoCount gw1) (connect_clients fb h ports [0..<echoCount]))"

text \<open>
  The destructor disconnects the clients that are connected and destroys all; \<open>cancelled\<close> are the buffers that come
  back cancelled from each client's socket.
\<close>

fun destroy_clients :: "ptr list list \<Rightarrow> InternalClient list \<Rightarrow> World \<Rightarrow> World result" where
  "destroy_clients cancelled [] w = Inr w"
| "destroy_clients cancelled (c # cs) w =
     andThen (if isConnect c then InternalClient_Disconnect (c, w) else Inr (c, w)) (\<lambda>(c1, w1).
       andThen (InternalClient_destructor (if cancelled = [] then [] else hd cancelled) c1 w1)
         (destroy_clients (tl cancelled) cs))"

definition Gateway_destructor :: "ptr list list \<Rightarrow> gateway_step" where
  "Gateway_destructor cancelled gw =
     (case gw of (g, w) \<Rightarrow>
        andThen (destroy_clients cancelled (internalClientList g) w) (\<lambda>w1. Inr (g\<lparr>internalClientList := []\<rparr>, w1)))"

section \<open>The handlers are good neighbours\<close>

text \<open>The handlers send, through a session or an internal client, and do nothing else to them.\<close>

definition gentle :: "GatewayServer \<times> World \<Rightarrow> GatewayServer \<times> World \<Rightarrow> bool" where
  "gentle gw gw' \<longleftrightarrow> sends_only (gateway (fst gw), snd gw) (gateway (fst gw'), snd gw')
     \<and> length (internalClientList (fst gw')) = length (internalClientList (fst gw))
     \<and> (\<forall>i < length (internalClientList (fst gw)). quiet (internalClientList (fst gw) ! i, snd gw) (internalClientList (fst gw') ! i, snd gw'))"

lemma gentle_refl [simp]: "gentle gw gw"
  by (simp add: gentle_def)

lemma send_inside_gentle:
  assumes "send_inside i payload code sz opt (g, w) = Inr (g', w')"
  shows "gentle (g, w) (g', w')"
proof -
  let ?j = "unat i mod 10"
  obtain c where r: "InternalClient_SendPacket payload code sz opt [] (internalClientList g ! ?j, w) = Inr (c, w')"
      "?j < length (internalClientList g)" "g' = g\<lparr>internalClientList := (internalClientList g)[?j := c]\<rparr>"
    using assms by (auto simp: send_inside_def on_client_def split: if_splits)
  have q: "quiet (internalClientList g ! ?j, w) (c, w')" by (rule calmD [OF InternalClient_SendPacket_calm r(1)])
  then have "rx_world w' = rx_world w" by (simp add: quiet_iff)
  then show ?thesis using q r(2,3) by (auto simp: gentle_def sends_only_def nth_list_update_if quiet_iff)
qed

lemma SendToClient_gentle:
  assumes "SendToClient i b code sz opt (g, w) = Inr (g', w')"
  shows "gentle (g, w) (g', w')"
proof (cases "GetSession i (gateway g)")
  case None
  then show ?thesis using assms by (simp add: SendToClient_def)
next
  case (Some p)
  obtain sv where r: "session_send p b code sz opt [] (gateway g, w) = Inr (sv, w')" "g' = g\<lparr>gateway := sv\<rparr>"
    using assms Some unfolding SendToClient_def on_gateway_def by (auto elim!: andThen_InrE)
  note so = session_send_sends_only [OF r(1)]
  then have "rx_world w' = rx_world w" by (simp add: sends_only_def)
  then show ?thesis using so r(2) by (simp add: gentle_def quiet_iff)
qed

lemma SendTo_gentle:
  "SendToResgister fb b code n (g, w) = Inr (g', w') \<Longrightarrow> gentle (g, w) (g', w')"
  "SendToEcho b code n (g, w) = Inr (g', w') \<Longrightarrow> gentle (g, w) (g', w')"
  "SendBotToEcho b n (g, w) = Inr (g', w') \<Longrightarrow> gentle (g, w) (g', w')"
  by (auto simp: SendToResgister_def SendToEcho_def SendBotToEcho_def Let_def dest: send_inside_gentle)

lemma gateway_handlers_gentle:
  "Gateway_RegisterHandler fb h q b n (g, w) = Inr (g', w') \<Longrightarrow> gentle (g, w) (g', w')"
  "Gateway_ChatHandler fb h q b n (g, w) = Inr (g', w') \<Longrightarrow> gentle (g, w) (g', w')"
  "Gateway_BotHandler fb h q b n (g, w) = Inr (g', w') \<Longrightarrow> gentle (g, w) (g', w')"
  by (auto simp: Gateway_RegisterHandler_def Gateway_ChatHandler_def Gateway_BotHandler_def Let_def
      split: if_splits option.splits dest!: SendTo_gentle)

lemma gateway_handlers2_gentle:
  "Gateway_RegisterHandler2 q b n sub t (g, w) = Inr (g', w') \<Longrightarrow> gentle (g, w) (g', w')"
  "Gateway_ChatHandler2 fb h q b n sub t (g, w) = Inr (g', w') \<Longrightarrow> gentle (g, w) (g', w')"
  "Gateway_BotHandler2 fb h q b n sub t (g, w) = Inr (g', w') \<Longrightarrow> gentle (g, w) (g', w')"
  by (auto simp: Gateway_RegisterHandler2_def Gateway_ChatHandler2_def Gateway_BotHandler2_def Let_def
      split: if_splits option.splits dest!: SendToClient_gentle)

lemma within_session_calm:
  assumes f: "\<And>g w g' w'. f (g, w) = Inr (g', w') \<Longrightarrow> gentle (g, w) (g', w')"
  shows "calm (within_session p f)"
proof
  fix s w s' w' assume h: "within_session p f (s, w) = Inr (s', w')"
  let ?g = "(Session.more s)\<lparr>gateway := upd_session p (Session.truncate s) (gateway (Session.more s))\<rparr>"
  obtain g1 s1 where r: "f (?g, w) = Inr (g1, w')" and s1: "sessionHeap (gateway g1) p = Some s1" and s': "s' = Session.extend s1 g1"
    using h by (auto simp: within_session_def Let_def split: option.splits)
  have so: "sends_only (gateway ?g, w) (gateway g1, w')" using f [OF r] by (simp add: gentle_def)
  have "same_end (Session.truncate s) s1" using sends_onlyD(1) [OF so, of p "Session.truncate s"] s1 by (simp add: upd_session_def)
  then show "quiet (s, w) (s', w')" using so s' by (simp add: quiet_iff same_end_def sends_only_def)
qed

lemma truncate_extend_client [simp]:
  "rx_view (InternalClient.truncate c) = rx_view c" "chunckPakcetInj (InternalClient.truncate c) = chunckPakcetInj c"
  "dispatched (InternalClient.truncate c) = dispatched c" "rx_view (InternalClient.extend d x) = rx_view d"
  "chunckPakcetInj (InternalClient.extend d x) = chunckPakcetInj d" "dispatched (InternalClient.extend d x) = dispatched d"
  by (simp_all add: InternalClient.defs rx_view_def)

lemma within_client_calm:
  assumes f: "\<And>g w g' w'. f (g, w) = Inr (g', w') \<Longrightarrow> gentle (g, w) (g', w')"
  shows "calm (within_client i f)"
proof
  fix c w c' w' assume h: "within_client i f (c, w) = Inr (c', w')"
  let ?g = "(InternalClient.more c)\<lparr>internalClientList := (internalClientList (InternalClient.more c))[i := InternalClient.truncate c]\<rparr>"
  obtain g1 where r: "f (?g, w) = Inr (g1, w')" and i: "i < length (internalClientList g1)"
    and c': "c' = InternalClient.extend (internalClientList g1 ! i) g1"
    using h by (auto simp: within_client_def Let_def split: if_splits)
  have g: "gentle (?g, w) (g1, w')" by (rule f [OF r])
  then have "i < length (internalClientList ?g)" using i by (simp_all add: gentle_def sends_only_def)
  moreover from this have "quiet (internalClientList ?g ! i, w) (internalClientList g1 ! i, w')"
    using g unfolding gentle_def fst_conv snd_conv by blast
  ultimately show "quiet (c, w) (c', w')" using c' by (simp add: quiet_iff)
qed

text \<open>So the framework's delivery guarantees hold for the gateway's sessions and for its internal clients.\<close>

lemma gateway_handlers_good:
  assumes "\<And>f. (\<And>g w g' w'. f (g, w) = Inr (g', w') \<Longrightarrow> gentle (g, w) (g', w')) \<Longrightarrow> calm (within f)"
  shows "good_handlers (gateway_handlers fb h q within)"
  unfolding good_handlers_def gateway_handlers_def Let_def
  by (auto split: if_splits intro!: assms dest: gateway_handlers_gentle gateway_handlers2_gentle)

lemma gateway_session_receiver:
  "receiver (Session_PacketParse (gateway_handlers fb h (Some p) (within_session p)))
     (Session_RecvChunckPacket (gateway_handlers fb h (Some p) (within_session p)))"
  by (intro session_receiver gateway_handlers_good within_session_calm)

lemma gateway_client_receiver:
  "receiver (InternalClient_PacketParse (gateway_handlers fb h None (within_client i)))
     (InternalClient_RecvChunckPacket (gateway_handlers fb h None (within_client i)))"
  by (intro internal_receiver gateway_handlers_good within_client_calm)

section \<open>The way back\<close>

text \<open>The options of a packet can be read off its flags.\<close>

lemma options_of_flags:
  assumes "flags h = opt_flags (mk_opt r ord ch)" "ch < 8" "ord \<Longrightarrow> r" "\<not> ord \<Longrightarrow> ch = 0"
  shows "HeaderToOptions h = mk_opt r ord ch"
proof -
  have "unat ch < 8" using assms(2) by (simp add: word_less_nat_alt)
  then have "unat ch \<in> {0, 1, 2, 3, 4, 5, 6, 7}" by auto
  then have "ch \<in> {0, 1, 2, 3, 4, 5, 6, 7}" by (auto simp: word_unat_eq_iff)
  then show ?thesis using assms(1,3,4)
    by (cases r; cases ord) (auto simp: HeaderToOptions_def opt_flags_def mk_opt_def has_flag_def channel_of_def)
qed

lemma within_client_Inr:
  assumes "within_client j f (c, w) = Inr (c', w')"
  obtains g1 where "f ((InternalClient.more c)\<lparr>internalClientList := (internalClientList (InternalClient.more c))[j := InternalClient.truncate c]\<rparr>, w)
    = Inr (g1, w')"
  using assms by (auto simp: within_client_def Let_def split: if_splits)

text \<open>A received datagram with a gateway sub-header, as bytes.\<close>

lemma relayed_bytes:
  assumes d: "datagram_of opt code seq ident (GatewaySubHeader pad cid sid) out d"
    and b: "take (length d - 24) (drop 24 b) = drop 24 d"
  obtains pre rest where "b = pre @ GatewaySubHeader pad cid sid @ out @ rest" "length pre = 24" "length d = 36 + length out"
proof -
  have len: "length d = 36 + length out" and body: "drop 24 d = GatewaySubHeader pad cid sid @ out"
    using d by (simp_all add: datagram_of_def)
  have "drop 24 b = take (length d - 24) (drop 24 b) @ drop (length d - 24) (drop 24 b)" by (rule append_take_drop_id [symmetric])
  then have "drop 24 b = GatewaySubHeader pad cid sid @ out @ drop (length d - 24) (drop 24 b)" using b body by (metis append.assoc)
  moreover from this have "24 < length b" by (metis GatewaySubHeader_not_Nil append_is_Nil_conv drop_eq_Nil linorder_not_less)
  ultimately show ?thesis using len that [of "take 24 b" "drop (length d - 24) (drop 24 b)"] by (metis append_take_drop_id length_take min.absorb2 less_imp_le)
qed


section \<open>The way there\<close>

lemma InternalClient_SendPacket_wire:
  assumes "InternalClient_SendPacket payload code sz opt sub (c, w) = Inr (c', w')" "hasSocket c" "unat sz + length sub + 24 \<le> 1024"
  shows "\<exists>seq d. wire w' = wire w @ [(addr c, d)] \<and> datagram_of opt code seq (endpointId c) sub (take (unat sz) payload) d"
proof -
  have "SendOne InternalClient_overflow payload code sz opt sub (c, w) = Inr (c', w')"
    using assms by (simp add: InternalClient_SendPacket_def SendPacket_def)
  then obtain seq c1 p w1 d where seq: "next_sequence opt c = Inr (seq, c1)"
    and tr: "transmit InternalClient_overflow opt p (c1, w1) = Inr (c', w')" and w1: "wire w1 = wire w"
    and d: "take (unat (osize (packets w1 p))) (obuffer (packets w1 p)) = d"
      "datagram_of opt code seq (endpointId c1) sub (take (unat sz) payload) d"
    by (rule SendOne_packet)
  have "wire w' = wire w1 @ [(addr c1, d)]"
  proof (cases "reliable opt \<longrightarrow> fst (register_pending opt p w1 c1)")
    case True
    then show ?thesis using transmit_wire(1) [OF tr] d by auto
  next
    case False
    obtain c2 where reg: "register_pending opt p w1 c1 = (False, c2)" using False by (metis prod.collapse)
    have "addr c2 = addr c1" using reg by (auto simp: register_pending_def upd_channel_def Let_def split: if_splits prod.splits)
    then show ?thesis using tr False reg d
      by (auto simp: transmit_def InternalClient_overflow_def SendToReliable_def WSASendTo_def SetType_def Let_def split: if_splits)
  qed
  then show ?thesis using d(2) w1 next_sequence_static [OF seq] by auto
qed


section \<open>Witnesses\<close>

definition example_client :: InternalClient where
  "example_client = \<lparr>rNopsNo = new_PacketStateBase, rpsNo = new_ReliablePacketState, cacheAlreadyPackets = replicate 4 new_CacheAlreadyPacket,
     chunckPakcetInj = Map.empty, hasSocket = True, addr = example_addr, endpointId = 9, rttMillisec = 100, timestamp = 0,
     isConnect = True, lastPongSeq = 0, dispatched = [], connNo = 1\<rparr>"

definition example_gateway :: GatewayServer where
  "example_gateway = \<lparr>gateway = example_server, internalClientList = [example_client]\<rparr>"

definition example_handler :: GatewaySessionHandler where
  "example_handler = \<lparr>gOwner = True, clientToGatway = False\<rparr>"

lemma example_datagram:
  "\<exists>seq d. datagram_of (mk_opt False False 0) 1 seq 7 (GatewaySubHeader (0, 0) 7 9) (example_write (Chatting 5 (Some [104]))) d"
proof -
  let ?out = "example_write (Chatting 5 (Some [104]))" and ?opt = "mk_opt False False 0" and ?sh = "GatewaySubHeader (0, 0) 7 9"
  have l: "length ?out = 9" by (simp add: le32_def)
  have sock: "hasSocket example_session" and o: "\<not> reliable ?opt" by (simp_all add: example_session_def mk_opt_def)
  obtain s' w' where r: "Session_SendPacket ?out 1 9 ?opt ?sh (example_session, late_world) = Inr (s', w')"
      "length (wire w') = Suc (length (wire late_world))"
    using unreliable_sent [OF sock o, of 9 ?sh ?out late_world 1] l by (auto simp: example_session_simps)
  have "wire w' \<noteq> wire late_world" using r(2) by auto
  then obtain seq d where "datagram_of ?opt 1 seq (endpointId example_session) ?sh (take (unat (9 :: u16)) ?out) d"
    using Session_SendPacket_wire [OF r(1) sock] by auto
  then show ?thesis using l by (auto simp: example_session_simps simp del: example_write.simps)
qed


lemma internal_unreliable_sent:
  assumes "hasSocket c" "\<not> reliable opt" "unat sz + length sub + 24 \<le> 1024" "unat sz \<le> length payload" "ioError w = (\<lambda>_. None)"
  shows "\<exists>c' w'. InternalClient_SendPacket payload code sz opt sub (c, w) = Inr (c', w')"
proof -
  obtain p w1 where pop: "PopPacketBuffer w = (p, w1)" by force
  have io: "ioError w1 = (\<lambda>_. None)" using pop assms(5)
    by (auto simp: PopPacketBuffer_def new_packet_buffer_def Let_def split_beta split: if_splits)
  have ok: "wsa_ok w2" if "ioError w2 = (\<lambda>_. None)" for w2 using that by (simp add: wsa_ok_def)
  show ?thesis
    using assms pop io by (simp add: InternalClient_SendPacket_def SendPacket_def SendOne_def next_sequence_def GetRelativeTimeMs_def
        transmit_def SendTo_def WSASendTo_def SetType_def store_packet_def split_beta Let_def ok del: fun_upd_apply)
qed


end
