(* ===== verification/Dubu_EchoClient.thy ===== *)
theory Dubu_EchoClient
  imports Dubu_Apps Dubu_Client
begin

text \<open>
  The echo client, \<^verbatim>\<open>DUBUEchoClient/EchoClient.cpp\<close>, \<^verbatim>\<open>EchoClientHander.cpp\<close> and the load test of \<^verbatim>\<open>main.cpp\<close>: chat
  and registration messages, and bot messages whose round trip it measures with a ring of the last 64 send times.
\<close>

section \<open>EchoClient\<close>

abbreviation (input) BotRingSize :: nat where "BotRingSize \<equiv> 64"

record EchoClient = Client +
  botSendNo :: "u32 list"
  botSendTimeMs :: "u32 list"
  botRecvCount :: u64
  botRttSumMs :: u64
  botRttSamples :: u64
  botRttMaxMs :: u32

type_synonym echo_client_step = "unit EchoClient_ext Client_ext step"

definition new_EchoClient :: "SOCKADDR_IN \<Rightarrow> World \<Rightarrow> (EchoClient \<times> World) result" where
  "new_EchoClient server w =
     andThen (new_Client server w) (\<lambda>(c, w1). Inr (Client.extend c
       (EchoClient.fields (replicate BotRingSize 0) (replicate BotRingSize 0) 0 0 0 0), w1))"

definition SendRegisterMessage :: "Flat \<Rightarrow> echo_client_step" where
  "SendRegisterMessage fb sw =
     (let buffer = FinishPacketBuffer fb (Register (endpointId (fst sw)))
      in Client_SendPacket buffer PacketBody_Register (of_nat (length buffer)) (mk_opt True True 0) [] sw)"

definition SendBotMessage :: "Flat \<Rightarrow> u32 \<Rightarrow> echo_client_step" where
  "SendBotMessage fb count1 sw =
     (case sw of (s, w) \<Rightarrow>
       (let idx = unat count1 mod BotRingSize; (now, w1) = GetRelativeTimeMs w;
            s1 = s\<lparr>botSendNo := (botSendNo s)[idx := count1], botSendTimeMs := (botSendTimeMs s)[idx := now]\<rparr>;
            buffer = FinishPacketBuffer fb (Bot (endpointId s) count1)
        in Client_SendPacket buffer PacketBody_Bot (of_nat (length buffer)) (mk_opt True False 0) [] (s1, w1)))"

text \<open>The loop that raises \<^verbatim>\<open>botRttMaxMs_\<close> ends with the larger of the two values.\<close>

definition RecvBotMessage :: "u32 \<Rightarrow> u32 \<Rightarrow> EchoClient \<times> World \<Rightarrow> EchoClient \<times> World" where
  "RecvBotMessage ident count1 sw =
     (case sw of (s, w) \<Rightarrow>
       (let s1 = s\<lparr>botRecvCount := botRecvCount s + 1\<rparr>; idx = unat count1 mod BotRingSize
        in if ident \<noteq> endpointId s then (s1, w)
           else if botSendNo s ! idx \<noteq> count1 then (s1, w)
           else let (now, w1) = GetRelativeTimeMs w; rtt = now - botSendTimeMs s ! idx
                in (s1\<lparr>botRttSumMs := botRttSumMs s + ucast rtt, botRttSamples := botRttSamples s + 1,
                       botRttMaxMs := max (botRttMaxMs s) rtt\<rparr>, w1)))"

definition SendChatMessage :: "Flat \<Rightarrow> bytes \<Rightarrow> u8 \<Rightarrow> echo_client_step" where
  "SendChatMessage fb chat channelId sw =
     (let buffer = FinishPacketBuffer fb (Chatting (endpointId (fst sw)) (Some (c_str chat)))
      in Client_SendPacket buffer PacketBody_Chatting (of_nat (length buffer)) (mk_opt True True channelId) [] sw)"

definition SendDumpChatMessage :: "Flat \<Rightarrow> bytes \<Rightarrow> u8 \<Rightarrow> echo_client_step" where
  "SendDumpChatMessage fb chat channelId sw =
     (let buffer = FinishPacketBuffer fb (Chatting (endpointId (fst sw)) (Some (c_str chat)))
      in Client_SendPacket buffer PacketBody_Chatting (of_nat (length buffer)) (mk_opt True False channelId) [] sw)"

text \<open>The counters are read and set to zero in one atomic exchange each.\<close>

definition ExchangeBot :: "EchoClient \<Rightarrow> (u64 \<times> u64 \<times> u64 \<times> u32) \<times> EchoClient" where
  "ExchangeBot s = ((botRecvCount s, botRttSumMs s, botRttSamples s, botRttMaxMs s),
     s\<lparr>botRecvCount := 0, botRttSumMs := 0, botRttSamples := 0, botRttMaxMs := 0\<rparr>)"

section \<open>EchoClientHander\<close>

text \<open>\<open>current\<close> tells whether the thread's current bot client is set; the thread sets it to the client it dispatches.\<close>

definition EchoClient_ChatHandler :: "bytes \<Rightarrow> u16 \<Rightarrow> echo_client_step" where
  "EchoClient_ChatHandler buffer sz sw = Inr sw"

definition EchoClient_BotHandler :: "Flat \<Rightarrow> bool \<Rightarrow> bytes \<Rightarrow> u16 \<Rightarrow> echo_client_step" where
  "EchoClient_BotHandler fb current buffer sz sw =
     (let packet = GetPacket fb (drop sizeof_PacketHeader buffer)
      in if body_type packet = PacketBody_Bot then
           (case body_as_Bot packet of
              Some (ident, count1) \<Rightarrow> if current then Inr (RecvBotMessage ident count1 sw) else Inr sw
            | None \<Rightarrow> Inr sw)
         else Inr sw)"

definition echo_client_handlers :: "Flat \<Rightarrow> bool \<Rightarrow> unit EchoClient_ext Client_ext handlers" where
  "echo_client_handlers fb current =
     Some [PacketBody_Chatting \<mapsto> \<lparr>verifier = Some (VerifyPacketBuffer fb), handler = Some EchoClient_ChatHandler, handler2 = None\<rparr>,
           PacketBody_Bot \<mapsto> \<lparr>verifier = Some (VerifyPacketBuffer fb), handler = Some (EchoClient_BotHandler fb current), handler2 = None\<rparr>]"

section \<open>The load test\<close>

text \<open>
  One client of a thread of \<^verbatim>\<open>RunBotMode\<close>, with the time and the number of its last message. In its turn it handles
  what its completion port returns, until that is nothing, and sends the next message when the interval has passed.
  An exhausted list of completions means that the inner loop has not ended.
\<close>

record BotSlot =
  bot :: EchoClient
  lastSend :: u32
  sendNo :: u32

fun drain_bot :: "Flat \<Rightarrow> (ptr \<times> int) option list \<Rightarrow> echo_client_step" where
  "drain_bot fb [] sw = Inl LoopBound"
| "drain_bot fb (completion # rest) sw =
     andThen (Client_Dispatch (echo_client_handlers fb True) completion sw)
       (\<lambda>(again, s, w). if again then drain_bot fb rest (s, w) else Inr (s, w))"

definition bot_turn :: "Flat \<Rightarrow> u32 \<Rightarrow> (ptr \<times> int) option list \<Rightarrow> BotSlot \<times> u64 \<times> World \<Rightarrow> (BotSlot \<times> u64 \<times> World) result" where
  "bot_turn fb intervalMs completions st =
     (case st of (b, totalSent, w) \<Rightarrow>
      if \<not> isConnect (bot b) then Inr st
      else andThen (drain_bot fb completions (bot b, w)) (\<lambda>(s1, w1).
             let (cur, w2) = GetRelativeTimeMs w1
             in if intervalMs \<le> cur - lastSend b
                then andThen (SendBotMessage fb (sendNo b + 1) (s1, w2)) (\<lambda>(s2, w3).
                       Inr (\<lparr>bot = s2, lastSend = cur, sendNo = sendNo b + 1\<rparr>, totalSent + 1, w3))
                else Inr (b\<lparr>bot := s1\<rparr>, totalSent, w2)))"

text \<open>The first send times are spread over the interval.\<close>

definition spread_start :: "u32 \<Rightarrow> u32 \<Rightarrow> nat \<Rightarrow> nat \<Rightarrow> u32" where
  "spread_start now intervalMs count1 i = now - ucast ((ucast intervalMs * of_nat i :: u64) div of_nat count1)"

text \<open>The summary printed every ten seconds: clients alive, messages received, average and largest round trip.\<close>

fun collect_bots :: "EchoClient list \<Rightarrow> (u32 \<times> u64 \<times> u64 \<times> u64 \<times> u32) \<times> EchoClient list" where
  "collect_bots [] = ((0, 0, 0, 0, 0), [])"
| "collect_bots (c # cs) =
     (case ExchangeBot c of ((r, sum1, n, mx), c1) \<Rightarrow>
       (case collect_bots cs of ((alive, rs, sums, ns, mxs), cs1) \<Rightarrow>
          (((if isConnect c then alive + 1 else alive), r + rs, sum1 + sums, n + ns, max mx mxs), c1 # cs1)))"

definition bot_stats :: "EchoClient list \<Rightarrow> (u32 \<times> u64 \<times> u64 \<times> u32) \<times> EchoClient list" where
  "bot_stats cs =
     (case collect_bots cs of ((alive, r, sum1, n, mx), cs1) \<Rightarrow> ((alive, r, if 0 < n then sum1 div n else 0, mx), cs1))"

section \<open>What the client measures\<close>

text \<open>The counters and the ring are a part of the client that sending does not touch.\<close>

interpretation clientCarried: endpoint_invariant "Client.more" "\<lambda>x c. x = x0" for x0
  by unfold_locales simp_all

lemma Client_overflow_more:
  assumes "Client_overflow p (s, w) = Inr (s', w')"
  shows "Client.more s' = Client.more s"
proof -
  obtain w1 where "reset_states (s\<lparr>isConnect := False\<rparr>, w1) = Inr (s', w')"
    using assms by (auto simp: Client_overflow_def Client_Disconnect_def Client_Reset_def)
  from clientCarried.reset_states_view [OF this] show ?thesis by simp
qed

lemma Client_SendPacket_more:
  assumes "Client_SendPacket payload code sz opt sub (s, w) = Inr (s', w')"
  shows "Client.more s' = Client.more s"
proof -
  have "keeps Client.more (\<lambda>x c. x = Client.more s) (Client_overflow p)" for p
  proof (rule keepsI)
    fix s1 w1 s2 w2 assume "Client_overflow p (s1, w1) = Inr (s2, w2)" "Client.more s1 = Client.more s"
    then show "Client.more s2 = Client.more s" by (simp only: Client_overflow_more)
  qed
  from keepsD [OF clientCarried.SendPacket_keeps [of _ Client_overflow, OF this] assms [unfolded Client_SendPacket_def]]
  show ?thesis by simp
qed

lemma counters_of_more:
  fixes s s' :: EchoClient
  assumes "Client.more s' = Client.more s"
  shows "botSendNo s' = botSendNo s" "botSendTimeMs s' = botSendTimeMs s" "botRecvCount s' = botRecvCount s"
    "botRttSumMs s' = botRttSumMs s" "botRttSamples s' = botRttSamples s" "botRttMaxMs s' = botRttMaxMs s"
  using assms by (cases s; cases s'; simp)+

lemma SendBotMessage_ring:
  assumes "SendBotMessage fb k (s, w) = Inr (s', w')"
  shows "botSendNo s' = (botSendNo s)[unat k mod 64 := k]" "botSendTimeMs s' = (botSendTimeMs s)[unat k mod 64 := fst (GetRelativeTimeMs w)]"
proof -
  obtain now w1 where t: "GetRelativeTimeMs w = (now, w1)" by force
  let ?s = "s\<lparr>botSendNo := (botSendNo s)[unat k mod 64 := k], botSendTimeMs := (botSendTimeMs s)[unat k mod 64 := now]\<rparr>"
  obtain payload sz where r: "Client_SendPacket payload 3 sz (mk_opt True False 0) [] (?s, w1) = Inr (s', w')"
    using assms t by (auto simp: SendBotMessage_def Let_def)
  show "botSendNo s' = (botSendNo s)[unat k mod 64 := k]"
    "botSendTimeMs s' = (botSendTimeMs s)[unat k mod 64 := fst (GetRelativeTimeMs w)]"
    using counters_of_more(1,2) [OF Client_SendPacket_more [OF r]] t by simp_all
qed

text \<open>Messages sent one after the other.\<close>

fun send_bots :: "Flat \<Rightarrow> u32 list \<Rightarrow> echo_client_step" where
  "send_bots fb [] sw = Inr sw"
| "send_bots fb (k # ks) sw = andThen (SendBotMessage fb k sw) (send_bots fb ks)"

lemma send_bots_ring:
  assumes "send_bots fb ks (s, w) = Inr (s', w')" "\<forall>k \<in> set ks. unat k mod 64 \<noteq> i"
  shows "botSendNo s' ! i = botSendNo s ! i \<and> botSendTimeMs s' ! i = botSendTimeMs s ! i"
  using assms
proof (induction ks arbitrary: s w)
  case (Cons k ks)
  obtain s1 w1 where r: "SendBotMessage fb k (s, w) = Inr (s1, w1)" "send_bots fb ks (s1, w1) = Inr (s', w')" using Cons.prems(1) by auto
  have "botSendNo s1 ! i = botSendNo s ! i" "botSendTimeMs s1 ! i = botSendTimeMs s ! i"
    using SendBotMessage_ring [OF r(1)] Cons.prems(2) by auto
  then show ?case using Cons.IH [OF r(2)] Cons.prems(2) by simp
qed simp

text \<open>
  The round trip of an own message is measured from the moment it was sent, also when other messages were sent in
  between, as long as none of them took its place in the ring.
\<close>

lemma bot_round_trip:
  assumes "SendBotMessage fb k (s, w) = Inr (s1, w1)" "send_bots fb ks (s1, w1) = Inr (s2, w2)"
    and "\<forall>k' \<in> set ks. unat k' mod 64 \<noteq> unat k mod 64" "length (botSendNo s) = 64" "length (botSendTimeMs s) = 64"
    and "RecvBotMessage (endpointId s2) k (s2, w3) = (s3, w4)"
  shows "botRttSumMs s3 = botRttSumMs s2 + ucast (fst (GetRelativeTimeMs w3) - fst (GetRelativeTimeMs w))"
    "botRttSamples s3 = botRttSamples s2 + 1" "fst (GetRelativeTimeMs w3) - fst (GetRelativeTimeMs w) \<le> botRttMaxMs s3"
proof -
  let ?i = "unat k mod 64"
  have i: "?i < 64" by simp
  have "botSendNo s1 ! ?i = k" "botSendTimeMs s1 ! ?i = fst (GetRelativeTimeMs w)"
    using SendBotMessage_ring [OF assms(1)] assms(4,5) i by simp_all
  then have m: "botSendNo s2 ! ?i = k" "botSendTimeMs s2 ! ?i = fst (GetRelativeTimeMs w)"
    using send_bots_ring [OF assms(2,3)] by simp_all
  show "botRttSumMs s3 = botRttSumMs s2 + ucast (fst (GetRelativeTimeMs w3) - fst (GetRelativeTimeMs w))"
    "botRttSamples s3 = botRttSamples s2 + 1" "fst (GetRelativeTimeMs w3) - fst (GetRelativeTimeMs w) \<le> botRttMaxMs s3"
    using assms(6) m by (auto simp: RecvBotMessage_def Let_def split: prod.splits)
qed

end
