(* ===== verification/Dubu_ChunkTransfer.thy ===== *)
theory Dubu_ChunkTransfer
  imports Dubu_Wire
begin

text \<open>
  A message too long for one datagram, from \<^verbatim>\<open>SendPacketChunk\<close> to the handler of the receiver: what the sender
  puts on the wire, what \<^verbatim>\<open>RecvChunckPacket\<close> keeps of it, and the message it hands on.
\<close>

section \<open>Receiving\<close>

text \<open>The chunks \<open>B 0\<close> to \<open>B (n - 1)\<close> of one message, as the receive path gets them; \<open>hs\<close> is the size of their headers.\<close>

definition chunk_batch :: "nat \<Rightarrow> u32 \<Rightarrow> u16 \<Rightarrow> nat \<Rightarrow> (nat \<Rightarrow> bytes) \<Rightarrow> bool" where
  "chunk_batch n q tot hs B \<longleftrightarrow> 0 < n \<and> n \<le> 16 \<and> hs < 1024 \<and> (\<forall>j < n. let h = get_header (B j) in
     has_flag (flags h) CHUNK \<and> hSequenceNo h = q + of_nat j \<and> chunkInfo h = \<lparr>ci_size = tot, ci_flag = chunk_flag n j\<rparr>
     \<and> hs \<le> length (B j) \<and> length (B j) \<le> 1024
     \<and> of_nat hs = 24 + (if 0 < drop_bit 5 (packetCode h) then ucast (GetSize (B j) 24) else 0 :: u16))"

definition chunk_entry :: "nat \<Rightarrow> u32 \<Rightarrow> (nat \<Rightarrow> bytes) \<Rightarrow> (nat \<rightharpoonup> ptr) \<Rightarrow> 'e Endpoint_scheme \<Rightarrow> World \<Rightarrow> bool" where
  "chunk_entry n q B m s w \<longleftrightarrow> own_ok {} s w \<and> (\<forall>j p. m j = Some p \<longrightarrow> cached w p = B j \<and> unat (csize (caches w p)) = length (B j))
     \<and> (case chunckPakcetInj s q of None \<Rightarrow> m = Map.empty | Some ck \<Rightarrow> collected n m ck)"

lemma chunk_entry_used:
  assumes "chunk_entry n q B m s w" "n \<le> 16" "m j = Some p"
  shows "p \<in> cacheInUse w"
proof -
  obtain ck where ck: "chunckPakcetInj s q = Some ck" "collected n m ck"
    using assms(1,3) by (auto simp: chunk_entry_def split: option.splits)
  then have "j < 16" "length (ck_buffers ck) = 16" "ck_buffers ck ! j = Some p" using assms(2,3) by (auto simp: collected_def)
  then have "cache_at s (ChunkLoc q j) = Some p" using ck by simp
  then show ?thesis using assms(1) unfolding chunk_entry_def own_ok_def by blast
qed

text \<open>One chunk is stored.\<close>

lemma store_chunk_entry:
  assumes batch: "chunk_batch n q tot hs B" and ent: "chunk_entry n q B m s w" and j: "j < n" "j \<notin> dom m"
  shows "\<exists>p ck s1 w1. store_chunk (B j) (of_nat (length (B j))) s w = Inr (ck, s1, w1) \<and> chunk_entry n q B (m(j \<mapsto> p)) s1 w1
    \<and> chunckPakcetInj s1 q = Some ck \<and> ck_size ck = tot \<and> collected n (m(j \<mapsto> p)) ck"
proof -
  let ?h = "get_header (B j)"
  have h: "hSequenceNo ?h = q + of_nat j" "chunkInfo ?h = \<lparr>ci_size = tot, ci_flag = chunk_flag n j\<rparr>" "length (B j) \<le> 1024" and n: "n \<le> 16"
    using batch j(1) by (auto simp: chunk_batch_def Let_def)
  have len: "unat (of_nat (length (B j)) :: u16) = length (B j)" using h(3) by (simp add: unsigned_of_nat take_bit_nat_eq_self)
  have key: "StartSequnceNum (hSequenceNo ?h) (chunk_flag n j) = q" using StartSequnceNum_chunk [of j q n] j(1) n h(1) by simp
  obtain m1 where upd: "Inj_Update (hSequenceNo ?h) (chunk_flag n j) (chunckPakcetInj s) = (q, m1)"
    by (simp add: Inj_Update_def key)
  then have m1: "m1 = (case chunckPakcetInj s q of None \<Rightarrow> (chunckPakcetInj s)(q \<mapsto> new_ChunkPacket) | Some _ \<Rightarrow> chunckPakcetInj s)"
    by (simp add: Inj_Update_def key)
  obtain ck0 where ck0: "m1 q = Some ck0" "collected n m ck0"
    using ent m1 collected_new [of n] by (auto simp: chunk_entry_def split: option.splits)
  obtain p w0 where pop: "Cache_PopPacketBuffer w = (p, w0)" by force
  obtain w1 where copy: "CachePacketBuffer_Copy p (B j) (of_nat (length (B j))) w0 = Inr w1"
    using h(3) len by (simp add: CachePacketBuffer_Copy_def)
  define ck where "ck = (snd (SetBuffer (chunk_flag n j) p ck0))\<lparr>ck_size := tot\<rparr>"
  let ?s1 = "s\<lparr>chunckPakcetInj := m1(q \<mapsto> ck)\<rparr>"
  have st: "store_chunk (B j) (of_nat (length (B j))) s w = Inr (ck, ?s1, w1)"
    using upd pop copy ck0(1) h(2) by (simp add: store_chunk_def Let_def ck_def)
  have col: "collected n (m(j \<mapsto> p)) ck" using collected_SetBuffer [OF ck0(2) j(1) n j(2), of p] by (simp add: ck_def collected_def)
  have own: "own_ok {} s w" using ent by (simp add: chunk_entry_def)
  have cm: "cm_ok w" using own by (simp add: own_ok_def)
  have own1: "own_ok {} ?s1 w1" using store_chunk_owns(1) [OF st own] .
  have "cached w1 p = B j \<and> unat (csize (caches w1 p)) = length (B j)"
    using cached_Copy(1) [OF copy] copy len by (auto simp: CachePacketBuffer_Copy_def split: if_splits)
  moreover have "cached w1 q' = B i \<and> unat (csize (caches w1 q')) = length (B i)" if "m i = Some q'" "i \<noteq> j" for i q'
  proof -
    have "q' \<in> cacheInUse w" using chunk_entry_used [OF ent n that(1)] .
    then have c: "caches w1 q' = caches w q'" by (rule store_chunk_owns(2) [OF st own])
    then have "cached w1 q' = cached w q'" by (simp add: cached_def)
    then show ?thesis using ent that(1) c by (simp add: chunk_entry_def)
  qed
  ultimately have "chunk_entry n q B (m(j \<mapsto> p)) ?s1 w1" using own1 col by (simp add: chunk_entry_def)
  then show ?thesis using st col ck_def by (intro exI [of _ p] exI [of _ ck] exI [of _ ?s1] exI [of _ w1]) simp
qed

text \<open>Putting the chunks together.\<close>

definition chunk_part :: "nat \<Rightarrow> (nat \<Rightarrow> bytes) \<Rightarrow> nat \<Rightarrow> bytes" where
  "chunk_part hs B i = (if 0 < i then drop hs (B i) else B i)"

lemma assemble_chunks:
  assumes "\<forall>j. i \<le> j \<and> j < i + k \<longrightarrow> j < length bufs \<and> bufs ! j = Some (P j) \<and> cached w (P j) = B j \<and> hs \<le> length (B j)
      \<and> length (B j) = unat (csize (caches w (P j)))"
    and "inj_on P {i..<i + k}" "unat hs16 = hs"
    and "length acc + length (concat (map (chunk_part hs B) [i..<i + k])) \<le> cap"
  shows "\<exists>w'. assemble hs16 cap bufs k i acc w = Inr (acc @ concat (map (chunk_part hs B) [i..<i + k]), w')"
  using assms
proof (induction k arbitrary: i acc w)
  case (Suc k)
  have i: "i < length bufs" "bufs ! i = Some (P i)" "cached w (P i) = B i" "hs \<le> length (B i)" "length (B i) = unat (csize (caches w (P i)))"
    using Suc.prems(1) by auto
  let ?w = "Cache_PushPacketBuffer (P i) w" and ?part = "chunk_part hs B i"
  have split: "[i..<i + Suc k] = i # [Suc i..<Suc i + k]" by (simp add: upt_conv_Cons)
  have len: "length acc + length ?part \<le> cap" using Suc.prems(4) by (simp only: split list.map concat.simps length_append)
  have other: "caches ?w (P j) = caches w (P j)" if "Suc i \<le> j" "j < Suc i + k" for j
  proof (rule cachePool.push_content)
    show "P j \<noteq> P i" using inj_on_eq_iff [OF Suc.prems(2), of j i] that by simp
  qed
  have "\<exists>w'. assemble hs16 cap bufs k (Suc i) (acc @ ?part) ?w
      = Inr ((acc @ ?part) @ concat (map (chunk_part hs B) [Suc i..<Suc i + k]), w')"
  proof (rule Suc.IH)
    show "\<forall>j. Suc i \<le> j \<and> j < Suc i + k \<longrightarrow> j < length bufs \<and> bufs ! j = Some (P j) \<and> cached ?w (P j) = B j \<and> hs \<le> length (B j)
      \<and> length (B j) = unat (csize (caches ?w (P j)))"
    proof (intro allI impI)
      fix j assume j: "Suc i \<le> j \<and> j < Suc i + k"
      then have "i \<le> j \<and> j < i + Suc k" by simp
      from Suc.prems(1) [rule_format, OF this] other [of j] j show "j < length bufs \<and> bufs ! j = Some (P j) \<and> cached ?w (P j) = B j
          \<and> hs \<le> length (B j) \<and> length (B j) = unat (csize (caches ?w (P j)))" unfolding cached_def by metis
    qed
    show "inj_on P {Suc i..<Suc i + k}" by (rule inj_on_subset [OF Suc.prems(2)]) auto
    show "length (acc @ ?part) + length (concat (map (chunk_part hs B) [Suc i..<Suc i + k])) \<le> cap"
      using Suc.prems(4) by (simp only: split list.map concat.simps length_append add.assoc)
  qed (rule Suc.prems(3))
  moreover have "assemble hs16 cap bufs (Suc k) i acc w = assemble hs16 cap bufs k (Suc i) (acc @ ?part) ?w"
  proof -
    have "take (unat (csize (caches w (P i)))) (cbuffer (caches w (P i))) = B i" using i(3) by (simp add: cached_def)
    then show ?thesis using i(1,2,4,5) len Suc.prems(3)
      by (cases "0 < i") (simp_all add: Let_def chunk_part_def del: length_take)
  qed
  ultimately show ?case unfolding split by simp
qed simp

definition whole_message :: "nat \<Rightarrow> nat \<Rightarrow> (nat \<Rightarrow> bytes) \<Rightarrow> bytes" where
  "whole_message n hs B = concat (map (chunk_part hs B) [0..<n])"

text \<open>What follows the handler: the block is given back and the entry is removed.\<close>

definition message_done :: "u32 \<Rightarrow> ptr \<Rightarrow> 'e Endpoint_scheme \<times> World \<Rightarrow> ('e Endpoint_scheme \<times> World) result" where
  "message_done q big sw = (case sw of (s, w) \<Rightarrow>
     andThen (PushBig big w) (\<lambda>w1. Inr (s\<lparr>chunckPakcetInj := (chunckPakcetInj s)(q := None)\<rparr>, w1)))"

lemma deliver_whole:
  assumes batch: "chunk_batch n q tot hs B" and ent: "chunk_entry n q B m s w" and full: "dom m = {..<n}"
    and ck: "chunckPakcetInj s q = Some ck" "ck_size ck = tot" and j: "j < n"
    and fits: "unat tot + hs \<le> 8192" "length (whole_message n hs B) \<le> unat tot + hs"
  shows "\<exists>w1 big. \<forall>parse. deliver_chunks parse (B j) ck (s, w) =
    andThen (parse (whole_message n hs B) (of_nat (length (whole_message n hs B))) (s, w1)) (message_done q big)"
proof -
  let ?h = "get_header (B j)"
  have h: "hSequenceNo ?h = q + of_nat j" "chunkInfo ?h = \<lparr>ci_size = tot, ci_flag = chunk_flag n j\<rparr>" and n: "n \<le> 16" "hs < 1024"
    and hsz: "24 + (if 0 < drop_bit 5 (packetCode ?h) then ucast (GetSize (B j) 24) else 0 :: u16) = of_nat hs"
    and long: "\<forall>i < n. hs \<le> length (B i)"
    using batch j by (auto simp: chunk_batch_def Let_def)
  have uhs: "unat (of_nat hs :: u16) = hs" using n(2) by (simp add: unsigned_of_nat take_bit_nat_eq_self)
  have cap: "unat (tot + of_nat hs) = unat tot + hs" using fits(1) uhs by (simp add: unat_word_ariths)
  have key: "StartSequnceNum (q + of_nat j) (chunk_flag n j) = q" using StartSequnceNum_chunk [of j q n] j n by simp
  have col: "collected n m ck" using ent ck(1) by (simp add: chunk_entry_def)
  obtain big w0 where big: "PopBig (tot + of_nat hs) w = Inr (big, w0)" "caches w0 = caches w" using fits(1) cap by (simp add: PopBig_def)
  have w0: "cached w0 p = cached w p" for p by (simp add: cached_def big(2))
  have cnt: "unat (ck_count ck) = n" using col full by (simp add: collected_def)
  define P where "P = (\<lambda>i. the (m i))"
  have P: "m i = Some (P i)" if "i < n" for i
  proof -
    have "i \<in> dom m" using full that by simp
    then show ?thesis by (auto simp: P_def)
  qed
  have bufs: "ck_buffers ck ! i = Some (P i)" "length (ck_buffers ck) = 16" if "i < n" for i using col P [OF that] n that by (auto simp: collected_def)
  have at: "cache_at s (ChunkLoc q i) = Some (P i)" if "i < n" for i using bufs [OF that] ck(1) that n by simp
  have inj: "inj_on P {0..<0 + n}"
  proof (rule inj_onI)
    fix x y assume "x \<in> {0..<0 + n}" "y \<in> {0..<0 + n}" "P x = P y"
    then have "cache_at s (ChunkLoc q x) = Some (P x)" "cache_at s (ChunkLoc q y) = Some (P x)" using at by auto
    then have "ChunkLoc q x = ChunkLoc q y" using ent unfolding chunk_entry_def own_ok_def by blast
    then show "x = y" by simp
  qed
  have "\<exists>w1. assemble (of_nat hs) (unat tot + hs) (ck_buffers ck) n 0 [] w0 = Inr ([] @ concat (map (chunk_part hs B) [0..<0 + n]), w1)"
  proof (rule assemble_chunks [OF _ inj uhs])
    show "\<forall>i. 0 \<le> i \<and> i < 0 + n \<longrightarrow> i < length (ck_buffers ck) \<and> ck_buffers ck ! i = Some (P i) \<and> cached w0 (P i) = B i
       \<and> hs \<le> length (B i) \<and> length (B i) = unat (csize (caches w0 (P i)))"
    proof (intro allI impI)
      fix i assume "0 \<le> i \<and> i < 0 + n"
      then have i: "i < n" by simp
      have "cached w (P i) = B i \<and> unat (csize (caches w (P i))) = length (B i)" using ent P [OF i] by (simp add: chunk_entry_def)
      then show "i < length (ck_buffers ck) \<and> ck_buffers ck ! i = Some (P i) \<and> cached w0 (P i) = B i
         \<and> hs \<le> length (B i) \<and> length (B i) = unat (csize (caches w0 (P i)))"
        using bufs [OF i] i n long w0 by (simp add: big(2))
    qed
    show "length [] + length (concat (map (chunk_part hs B) [0..<0 + n])) \<le> unat tot + hs" using fits(2) by (simp add: whole_message_def)
  qed
  then obtain w1 where asm: "assemble (of_nat hs) (unat tot + hs) (ck_buffers ck) n 0 [] w0 = Inr (whole_message n hs B, w1)"
    by (auto simp: whole_message_def)
  have "deliver_chunks parse (B j) ck (s, w) =
      andThen (parse (whole_message n hs B) (of_nat (length (whole_message n hs B))) (s, w1)) (message_done q big)" for parse
    using big(1) asm cap cnt ck(2) h
    by (simp add: deliver_chunks_def Let_def hsz message_done_def [abs_def] Inj_Remove_def key)
  then show ?thesis by blast
qed

text \<open>The chunks arrive in the order \<open>js\<close>.\<close>

fun receive_chunks_of :: "(bytes \<Rightarrow> u16 \<Rightarrow> 'e step) \<Rightarrow> (nat \<Rightarrow> bytes) \<Rightarrow> nat list \<Rightarrow> 'e step" where
  "receive_chunks_of parse B [] sw = Inr sw"
| "receive_chunks_of parse B (j # js) sw =
     andThen (RecvChunckPacket parse (B j) (of_nat (length (B j))) sw) (receive_chunks_of parse B js)"

lemma receive_whole:
  assumes batch: "chunk_batch n q tot hs B" and fits: "unat tot + hs \<le> 8192" "length (whole_message n hs B) \<le> unat tot + hs"
    and ent: "chunk_entry n q B m s w" and js: "js \<noteq> []" "distinct js" "set js = {..<n} - dom m" "dom m \<subseteq> {..<n}"
  shows "\<exists>s1 w1 big. \<forall>parse. receive_chunks_of parse B js (s, w) =
    andThen (parse (whole_message n hs B) (of_nat (length (whole_message n hs B))) (s1, w1)) (message_done q big)"
  using ent js
proof (induction js arbitrary: m s w)
  case (Cons j js)
  have j: "j < n" "j \<notin> dom m" using Cons.prems(4) by auto
  have n: "0 < n" "n \<le> 16" and fl: "has_flag (flags (get_header (B j))) CHUNK" using batch j(1) by (auto simp: chunk_batch_def Let_def)
  obtain p ck s1 w1 where st: "store_chunk (B j) (of_nat (length (B j))) s w = Inr (ck, s1, w1)"
    and ent1: "chunk_entry n q B (m(j \<mapsto> p)) s1 w1" and ck: "chunckPakcetInj s1 q = Some ck" "ck_size ck = tot"
    and col: "collected n (m(j \<mapsto> p)) ck"
    using store_chunk_entry [OF batch Cons.prems(1) j] by blast
  have pull: "IsPull ck \<longleftrightarrow> js = []"
  proof -
    have "dom (m(j \<mapsto> p)) = {..<n} \<longleftrightarrow> {..<n} - insert j (dom m) = {}" using j Cons.prems(5) by auto
    moreover have "set js = {..<n} - insert j (dom m)" using Cons.prems(3,4) by auto
    ultimately show ?thesis using IsPull_collected [OF col n] by auto
  qed
  show ?case
  proof (cases "js = []")
    case True
    then have full: "dom (m(j \<mapsto> p)) = {..<n}" using IsPull_collected [OF col n] pull by simp
    obtain w2 big where "\<forall>parse. deliver_chunks parse (B j) ck (s1, w1) =
        andThen (parse (whole_message n hs B) (of_nat (length (whole_message n hs B))) (s1, w2)) (message_done q big)"
      using deliver_whole [OF batch ent1 full ck j(1) fits] by blast
    moreover have "andThen x (receive_chunks_of parse B []) = x" for x and parse :: "bytes \<Rightarrow> u16 \<Rightarrow> 'a step" by (cases x) simp_all
    ultimately have "\<forall>parse. receive_chunks_of parse B (j # js) (s, w) =
        andThen (parse (whole_message n hs B) (of_nat (length (whole_message n hs B))) (s1, w2)) (message_done q big)"
      using True st fl pull by (simp add: RecvChunckPacket_def del: receive_chunks_of.simps(1))
    then show ?thesis by blast
  next
    case False
    have "set js = {..<n} - dom (m(j \<mapsto> p))" "dom (m(j \<mapsto> p)) \<subseteq> {..<n}" using Cons.prems(3-5) j by auto
    from Cons.IH [OF ent1 False _ this] obtain s2 w2 big where "\<forall>parse. receive_chunks_of parse B js (s1, w1) =
        andThen (parse (whole_message n hs B) (of_nat (length (whole_message n hs B))) (s2, w2)) (message_done q big)"
      using Cons.prems(3) by auto
    moreover have "receive_chunks_of parse B (j # js) (s, w) = receive_chunks_of parse B js (s1, w1)" for parse
      using False st fl pull by (simp add: RecvChunckPacket_def)
    ultimately show ?thesis by auto
  qed
qed simp

section \<open>Sending\<close>

definition chunk_opt :: "u16 \<Rightarrow> u16 \<Rightarrow> PacketOpctions" where
  "chunk_opt tot f = (mk_opt True False 0)\<lparr>isChunck := True, chunckTotal := tot, chunckFlag := f\<rparr>"

lemma chunk_opt_simps [simp]:
  "reliable (chunk_opt tot f)" "\<not> order (chunk_opt tot f)" "isChunck (chunk_opt tot f)" "chunckTotal (chunk_opt tot f) = tot"
  "chunckFlag (chunk_opt tot f) = f" "opt_flags (chunk_opt tot f) = 3"
  by (simp_all add: chunk_opt_def mk_opt_def opt_flags_def)

lemma SendOne_chunk:
  assumes "SendOne Session_overflow pl code sz (chunk_opt tot f) sub (s, w) = Inr (s', w')"
  shows "sendRepeatSeq (rpsNo s') = sendRepeatSeq (rpsNo s) + 1" "addr s' = addr s" "endpointId s' = endpointId s"
    "wire w' = wire w \<or> (\<exists>d. wire w' = wire w @ [(addr s, d)] \<and>
       datagram_of (chunk_opt tot f) code (sendRepeatSeq (rpsNo s) + 1) (endpointId s) sub (take (unat sz) pl) d)"
proof -
  let ?opt = "chunk_opt tot f"
  obtain seq s1 p w1 d where seq: "next_sequence ?opt s = Inr (seq, s1)"
    and tr: "transmit Session_overflow ?opt p (s1, w1) = Inr (s', w')" and w1: "wire w1 = wire w"
    and d: "take (unat (osize (packets w1 p))) (obuffer (packets w1 p)) = d"
      "datagram_of ?opt code seq (endpointId s1) sub (take (unat sz) pl) d"
    using SendOne_packet [OF assms] .
  have s1: "seq = sendRepeatSeq (rpsNo s) + 1" "sendRepeatSeq (rpsNo s1) = seq" "addr s1 = addr s" "endpointId s1 = endpointId s"
    using seq by (auto simp: next_sequence_def UpdateSendSequenceNo_def)
  obtain ok s2 where reg: "register_pending ?opt p w1 s1 = (ok, s2)" by force
  have s2: "sendRepeatSeq (rpsNo s2) = seq" "addr s2 = addr s" "endpointId s2 = endpointId s"
    using reg s1 by (auto simp: register_pending_def AddPendingPacket_def Let_def split: prod.splits if_splits)
  have s': "s' = s2" using tr reg by (auto simp: transmit_def Session_overflow_def split: if_splits)
  show "sendRepeatSeq (rpsNo s') = sendRepeatSeq (rpsNo s) + 1" "addr s' = addr s" "endpointId s' = endpointId s"
    using s' s2 s1 by simp_all
  show "wire w' = wire w \<or> (\<exists>d. wire w' = wire w @ [(addr s, d)] \<and>
       datagram_of ?opt code (sendRepeatSeq (rpsNo s) + 1) (endpointId s) sub (take (unat sz) pl) d)"
  proof (cases ok)
    case True
    then show ?thesis using transmit_wire(1) [OF tr] reg d w1 s1 by auto
  next
    case False
    then show ?thesis using tr reg w1 by (auto simp: transmit_def Session_overflow_def)
  qed
qed

text \<open>The size of chunk \<open>j\<close> of \<open>n\<close>.\<close>

definition chunk_size :: "u16 \<Rightarrow> u16 \<Rightarrow> nat \<Rightarrow> nat \<Rightarrow> u16" where
  "chunk_size sz cs n j = (if Suc j = n \<and> 0 < sz mod cs then sz mod cs else cs)"

definition is_chunk :: "bytes \<Rightarrow> u8 \<Rightarrow> u16 \<Rightarrow> u16 \<Rightarrow> bytes \<Rightarrow> nat \<Rightarrow> u32 \<Rightarrow> u32 \<Rightarrow> nat \<Rightarrow> bytes \<Rightarrow> bool" where
  "is_chunk payload code sz cs sub n q ident j d \<longleftrightarrow> datagram_of (chunk_opt sz (chunk_flag n j)) code (q + of_nat j) ident sub
     (take (unat (chunk_size sz cs n j)) (drop (j * unat cs) payload)) d"

lemma send_chunks_wire:
  assumes "send_chunks Session_overflow payload code sz cs sub k i (push_bit i (- 1)) (s, w) = Inr (s', w')" "i + k = n"
    and "q + of_nat i = sendRepeatSeq (rpsNo s) + 1"
  shows "length (wire w') \<le> length (wire w) + k \<and> (length (wire w') = length (wire w) + k \<longrightarrow>
    (\<exists>ds. length ds = k \<and> wire w' = wire w @ map (Pair (addr s)) ds \<and>
      (\<forall>j < k. is_chunk payload code sz cs sub n q (endpointId s) (i + j) (ds ! j))))"
  using assms
proof (induction k arbitrary: i s w)
  case (Suc k)
  let ?opt = "chunk_opt sz (chunk_flag n i)" and ?size = "chunk_size sz cs n i"
  have last: "Suc i = n \<longleftrightarrow> k = 0" using Suc.prems(2) by auto
  have fl: "(if k = 0 then push_bit i (- 1) else push_bit i 1) = chunk_flag n i" using last by (simp add: chunk_flag_def)
  have opt: "(mk_opt True False 0)\<lparr>isChunck := True, chunckTotal := sz, chunckFlag := chunk_flag n i\<rparr> = ?opt" by (simp add: chunk_opt_def)
  have sz: "(if k = 0 \<and> 0 < sz mod cs then sz mod cs else cs) = ?size" using last by (simp add: chunk_size_def)
  define lb where "lb = (if k = 0 then push_bit i (- 1) else push_bit 1 (push_bit i (- 1 :: u16)))"
  obtain s1 w1 where one: "SendOne Session_overflow (drop (i * unat cs) payload) code ?size ?opt sub (s, w) = Inr (s1, w1)"
    and rest: "send_chunks Session_overflow payload code sz cs sub k (Suc i) lb (s1, w1) = Inr (s', w')"
    using Suc.prems(1) unfolding send_chunks.simps Let_def fl sz opt lb_def [symmetric] by (auto elim!: andThen_InrE)
  note o = SendOne_chunk [OF one]
  have ih: "length (wire w') \<le> length (wire w1) + k \<and> (length (wire w') = length (wire w1) + k \<longrightarrow>
    (\<exists>ds. length ds = k \<and> wire w' = wire w1 @ map (Pair (addr s1)) ds \<and>
      (\<forall>j < k. is_chunk payload code sz cs sub n q (endpointId s1) (Suc i + j) (ds ! j))))"
  proof (cases "k = 0")
    case True
    then show ?thesis using rest by simp
  next
    case False
    have "lb = push_bit (Suc i) (- 1)" unfolding lb_def if_not_P [OF False] push_bit_push_bit by (simp only: plus_1_eq_Suc)
    then have "send_chunks Session_overflow payload code sz cs sub k (Suc i) (push_bit (Suc i) (- 1)) (s1, w1) = Inr (s', w')"
      using rest by (simp only:)
    then show ?thesis by (rule Suc.IH) (use Suc.prems(2,3) o(1) in \<open>auto simp: algebra_simps\<close>)
  qed
  show ?case
  proof (cases "length (wire w1) = Suc (length (wire w))")
    case True
    then obtain d where d: "wire w1 = wire w @ [(addr s, d)]" "datagram_of ?opt code (q + of_nat i) (endpointId s) sub
        (take (unat ?size) (drop (i * unat cs) payload)) d"
      using o(4) Suc.prems(3) by auto
    have "\<exists>ds. length ds = Suc k \<and> wire w' = wire w @ map (Pair (addr s)) ds \<and>
        (\<forall>j < Suc k. is_chunk payload code sz cs sub n q (endpointId s) (i + j) (ds ! j))" if all: "length (wire w') = length (wire w1) + k"
    proof -
      obtain ds where ds: "length ds = k" "wire w' = wire w1 @ map (Pair (addr s)) ds"
        "\<forall>j < k. is_chunk payload code sz cs sub n q (endpointId s) (Suc i + j) (ds ! j)" using ih all o(2,3) by auto
      have "is_chunk payload code sz cs sub n q (endpointId s) (i + j) ((d # ds) ! j)" if "j < Suc k" for j
        using that d(2) ds(3) by (cases j) (auto simp: is_chunk_def)
      then show ?thesis using d(1) ds by (intro exI [of _ "d # ds"]) simp
    qed
    then show ?thesis using ih True by auto
  next
    case False
    then have "wire w1 = wire w" using o(4) by auto
    then show ?thesis using ih by auto
  qed
qed simp

text \<open>All of them leave when the window has room and the operating system accepts the sends.\<close>

lemma SendOne_room:
  assumes "io_fine w" "unat sz + length sub + 24 \<le> 1024" "unat sz \<le> length pl"
    and room: "sendRepeatSeq (rpsNo s) + 1 - localWindowStart (rpsNo s) < 64"
  shows "\<exists>s' w'. SendOne Session_overflow pl code sz (chunk_opt tot f) sub (s, w) = Inr (s', w') \<and> io_fine w'
    \<and> length (wire w') = Suc (length (wire w)) \<and> localWindowStart (rpsNo s') = localWindowStart (rpsNo s)"
proof -
  let ?opt = "chunk_opt tot f" and ?q = "sendRepeatSeq (rpsNo s) + 1"
  obtain s1 where seq: "next_sequence ?opt s = Inr (?q, s1)" and s1: "localWindowStart (rpsNo s1) = localWindowStart (rpsNo s)"
    by (simp add: next_sequence_def UpdateSendSequenceNo_def)
  obtain p w1 d where one: "SendOne Session_overflow pl code sz ?opt sub (s, w) = transmit Session_overflow ?opt p (s1, w1)"
    and w1: "wire w1 = wire w" "ioError w1 = ioError w" and h: "hSequenceNo (get_header (obuffer (packets w1 p))) = ?q"
    by (rule SendOne_transmit [OF seq assms(2,3)]) (rule that; assumption)
  have "\<not> 64 \<le> ?q - localWindowStart (rpsNo s1)" using room s1 by simp
  then obtain s2 where reg: "register_pending ?opt p w1 s1 = (True, s2)" and s2: "localWindowStart (rpsNo s2) = localWindowStart (rpsNo s1)"
    using h by (simp add: register_pending_def AddPendingPacket_def Let_def)
  have "\<exists>w'. SendToReliable (addr s2) p w1 = Inr w' \<and> io_fine w' \<and> length (wire w') = Suc (length (wire w))"
    using assms(1) w1 by (auto simp: SendToReliable_def WSASendTo_def SetType_def io_fine_def wsa_ok_def)
  then show ?thesis using one reg s1 s2 by (auto simp: transmit_def)
qed

lemma send_chunks_room:
  assumes "io_fine w" "unat (sendRepeatSeq (rpsNo s) + 1 - localWindowStart (rpsNo s)) + k \<le> 64" "i + k = n"
    and "\<And>j. j < n \<Longrightarrow> unat (chunk_size sz cs n j) + length sub + 24 \<le> 1024"
    and "\<And>j. j < n \<Longrightarrow> unat (chunk_size sz cs n j) \<le> length payload - j * unat cs"
  shows "\<exists>s' w'. send_chunks Session_overflow payload code sz cs sub k i lb (s, w) = Inr (s', w')
    \<and> length (wire w') = length (wire w) + k"
  using assms(1-3)
proof (induction k arbitrary: i s w lb)
  case (Suc k)
  have i: "i < n" and last: "Suc i = n \<longleftrightarrow> k = 0" using Suc.prems(3) by auto
  let ?tot = "if k = 0 then lb else push_bit i 1" and ?x = "sendRepeatSeq (rpsNo s) + 1 - localWindowStart (rpsNo s)"
  have sz: "(if k = 0 \<and> 0 < sz mod cs then sz mod cs else cs) = chunk_size sz cs n i" using last by (simp add: chunk_size_def)
  have "?x < 64" using Suc.prems(2) by (simp add: word_less_nat_alt)
  then obtain s1 w1 where one: "SendOne Session_overflow (drop (i * unat cs) payload) code (chunk_size sz cs n i) (chunk_opt sz ?tot) sub (s, w) = Inr (s1, w1)"
    and r: "io_fine w1" "length (wire w1) = Suc (length (wire w))" "localWindowStart (rpsNo s1) = localWindowStart (rpsNo s)"
    using SendOne_room [OF Suc.prems(1) assms(4) [OF i], of "drop (i * unat cs) payload" s code sz ?tot] assms(5) [OF i] by auto
  have x1: "sendRepeatSeq (rpsNo s1) + 1 - localWindowStart (rpsNo s1) = ?x + 1" using SendOne_chunk(1) [OF one] r(3) by simp
  have inc: "unat (x + 1) = Suc (unat x)" if "unat x < 64" for x :: u32 using that by (simp add: unat_word_ariths)
  have "unat ?x < 64" using Suc.prems(2) by simp
  from inc [OF this] have "unat (sendRepeatSeq (rpsNo s1) + 1 - localWindowStart (rpsNo s1)) + k \<le> 64"
    using Suc.prems(2) unfolding x1 by linarith
  from Suc.IH [OF r(1) this, of "Suc i" "if k = 0 then lb else push_bit 1 lb"] obtain s' w'
    where "send_chunks Session_overflow payload code sz cs sub k (Suc i) (if k = 0 then lb else push_bit 1 lb) (s1, w1) = Inr (s', w')"
      "length (wire w') = length (wire w) + Suc k" using Suc.prems(3) r(2) by auto
  then show ?case using one unfolding send_chunks.simps Let_def sz by (auto simp: chunk_opt_def)
qed simp

section \<open>From end to end\<close>

text \<open>What the socket of the receiver makes of a datagram with a valid checksum.\<close>

definition cleared :: "bytes \<Rightarrow> bytes" where
  "cleared d = set_header ((get_header d)\<lparr>checksum := 0\<rparr>) d"

lemma cleared_simps: "24 \<le> length d \<Longrightarrow> length (cleared d) = length d" "drop 24 (cleared d) = drop 24 d"
  "get_header (cleared d) = (get_header d)\<lparr>checksum := 0\<rparr>"
  by (simp_all add: cleared_def length_set_header get_set_header) (simp add: set_header_def)

lemma slices: "concat (map (\<lambda>j. take c (drop (j * c) xs)) [0..<n]) = take (n * c) xs"
proof (induction n)
  case (Suc n)
  have "Suc n * c = n * c + c" by simp
  then show ?case using Suc by (simp only: take_add upt_Suc_append map_append concat_append le0) simp
qed simp

text \<open>How many chunks, and what each holds.\<close>

definition chunk_count :: "u16 \<Rightarrow> u16 \<Rightarrow> nat" where
  "chunk_count sz cs = unat (sz div cs + (if 0 < sz mod cs then 1 else 0))"

lemma chunk_count_nat:
  assumes "1 < unat cs"
  shows "chunk_count sz cs = unat sz div unat cs + (if 0 < unat sz mod unat cs then 1 else 0)"
proof -
  have m: "0 < sz mod cs \<longleftrightarrow> 0 < unat sz mod unat cs" by (simp add: word_less_nat_alt unat_mod_distrib)
  have "unat sz div unat cs \<le> unat sz div 2" using assms by (intro div_le_mono2) auto
  moreover have "unat sz < 65536" using unsigned_less [of sz] by simp
  ultimately have "unat sz div unat cs + 1 < 65536" by linarith
  then show ?thesis by (auto simp: chunk_count_def m unat_word_ariths unat_div_distrib)
qed

lemma chunk_count_enough:
  assumes "1 < unat cs"
  shows "unat sz \<le> chunk_count sz cs * unat cs"
proof -
  have "s \<le> (d + (if 0 < m then 1 else 0)) * c" if "s = d * c + m" "m \<le> c" for s d m c :: nat using that by (cases "0 < m") simp_all
  then show ?thesis unfolding chunk_count_nat [OF assms] by this (use assms in \<open>simp_all add: less_imp_le\<close>)
qed

lemma chunk_slice:
  assumes "1 < unat cs" "unat sz \<le> length payload" "j < chunk_count sz cs"
  shows "take (unat (chunk_size sz cs (chunk_count sz cs) j)) (drop (j * unat cs) payload) = take (unat cs) (drop (j * unat cs) (take (unat sz) payload))"
proof -
  let ?c = "unat cs" and ?s = "unat sz"
  note n = chunk_count_nat [OF assms(1), of sz]
  have md: "unat (sz mod cs) = ?s mod ?c" "0 < sz mod cs \<longleftrightarrow> 0 < ?s mod ?c" by (simp_all add: word_less_nat_alt unat_mod_distrib)
  have e: "?s = ?s div ?c * ?c + ?s mod ?c" by simp
  show ?thesis
  proof (cases "Suc j = chunk_count sz cs \<and> 0 < ?s mod ?c")
    case True
    then have "chunk_count sz cs = Suc (?s div ?c)" unfolding n by simp
    then have "j = ?s div ?c" using True by simp
    moreover from this have "?s - j * ?c = ?s mod ?c" using e by (metis add_diff_cancel_left')
    moreover have "?s mod ?c \<le> ?c" using assms(1) by (simp add: less_imp_le)
    ultimately show ?thesis using True md by (simp add: chunk_size_def drop_take min_def)
  next
    case False
    then have "Suc j \<le> ?s div ?c" using n assms(3) by (auto split: if_splits)
    then have "Suc j * ?c \<le> ?s" using e by (metis div_times_less_eq_dividend le_trans mult_le_mono1)
    then have "?c \<le> ?s - j * ?c" by simp
    then show ?thesis using False md by (auto simp: chunk_size_def drop_take min_def)
  qed
qed

lemma chunk_size_le:
  assumes "cs \<noteq> 0"
  shows "unat (chunk_size sz cs n j) \<le> unat cs"
proof -
  have "0 < unat cs" using assms by (simp add: unat_gt_0)
  then show ?thesis by (simp add: chunk_size_def unat_mod_distrib less_imp_le)
qed

lemma chunk_size_left:
  assumes "1 < unat cs" "unat sz \<le> length payload" "j < chunk_count sz cs"
  shows "unat (chunk_size sz cs (chunk_count sz cs) j) \<le> length payload - j * unat cs"
proof -
  let ?c = "unat cs" and ?s = "unat sz"
  note n = chunk_count_nat [OF assms(1), of sz]
  have e: "?s = ?s div ?c * ?c + ?s mod ?c" by simp
  have md: "unat (sz mod cs) = ?s mod ?c" "0 < sz mod cs \<longleftrightarrow> 0 < ?s mod ?c" by (simp_all add: word_less_nat_alt unat_mod_distrib)
  show ?thesis
  proof (cases "Suc j = chunk_count sz cs \<and> 0 < ?s mod ?c")
    case True
    then have "chunk_count sz cs = Suc (?s div ?c)" unfolding n by simp
    then have "j = ?s div ?c" using True by simp
    then have "?s mod ?c = ?s - j * ?c" by (metis minus_div_mult_eq_mod)
    then show ?thesis using True md assms(2) by (simp add: chunk_size_def)
  next
    case False
    then have "Suc j \<le> ?s div ?c" using n assms(3) by (auto split: if_splits)
    then have "Suc j * ?c \<le> ?s" using e by (metis div_times_less_eq_dividend le_trans mult_le_mono1)
    then show ?thesis using False md assms(2) by (auto simp: chunk_size_def)
  qed
qed

text \<open>What makes a packet code and a sub-header readable again: the code leaves the upper three bits free, and the sub-header starts with its type and its size.\<close>

definition sub_header_ok :: "u8 \<Rightarrow> bytes \<Rightarrow> bool" where
  "sub_header_ok code sub \<longleftrightarrow> code < 32 \<and> (sub = [] \<or> 2 \<le> length sub \<and> length sub < 256 \<and> rd8 sub 1 = of_nat (length sub)
     \<and> 0 < sub_type sub \<and> sub_type sub < 8)"

lemma code_field:
  fixes code t :: u8
  assumes "code < 32" "t < 8"
  shows "drop_bit 5 code = 0" "drop_bit 5 (code OR push_bit 5 t) = t"
proof -
  have "drop_bit 5 code = 0"
    using assms(1) by (simp add: drop_bit_eq_div word_less_nat_alt) (simp add: div_word_less word_less_nat_alt)
  moreover have "unat (drop_bit 5 (push_bit 5 t)) = unat t"
    using assms(2) by (simp add: drop_bit_eq_div push_bit_eq_mult unat_div_distrib unat_word_ariths word_less_nat_alt)
  then have "drop_bit 5 (push_bit 5 t) = t" by (rule unsigned_word_eqI)
  ultimately show "drop_bit 5 code = 0" "drop_bit 5 (code OR push_bit 5 t) = t" by (simp_all add: drop_bit_or)
qed

lemma chunk_room: "sub_header_ok code sub \<Longrightarrow>
  length sub < 256 \<and> unat (1000 - of_nat (length sub) :: u16) = 1000 - length sub \<and> 1 < unat (1000 - of_nat (length sub) :: u16)"
  by (auto simp: sub_header_ok_def unat_sub word_le_nat_alt unsigned_of_nat take_bit_nat_eq_self)

lemma chunk_count_bounds:
  assumes "744 \<le> unat cs" "unat sz \<le> 8192" "0 < unat sz"
  shows "0 < chunk_count sz cs" "chunk_count sz cs \<le> 16"
proof -
  have c1: "1 < unat cs" using assms(1) by simp
  show "0 < chunk_count sz cs" using chunk_count_enough [OF c1, of sz] assms(3) by (cases "chunk_count sz cs") auto
  have "unat sz div unat cs \<le> unat sz div 744" using assms(1) by (intro div_le_mono2) auto
  also have "\<dots> \<le> 8192 div 744" using assms(2) by (intro div_le_mono)
  finally show "chunk_count sz cs \<le> 16" using chunk_count_nat [OF c1, of sz] by (simp split: if_splits)
qed

text \<open>The header and the sub-header of a chunk, as the receiver measures them.\<close>

lemma header_size:
  assumes "sub_header_ok code sub" "drop 24 b = sub @ rest" "24 + length sub \<le> length b"
    and "packetCode (get_header b) = (if sub = [] then code else code OR push_bit 5 (sub_type sub))"
  shows "of_nat (24 + length sub) = 24 + (if 0 < drop_bit 5 (packetCode (get_header b)) then ucast (GetSize b 24) else 0 :: u16)"
proof (cases "sub = []")
  case True
  then show ?thesis using assms(1,4) code_field [of code 0] by (simp add: sub_header_ok_def)
next
  case False
  then have s: "2 \<le> length sub" "length sub < 256" "rd8 sub 1 = of_nat (length sub)" "0 < sub_type sub" "sub_type sub < 8" "code < 32"
    using assms(1) by (simp_all add: sub_header_ok_def)
  have "GetSize b 24 = rd8 (drop 24 b) 1" using assms(3) by (simp add: GetSize_def rd8_def)
  then have "GetSize b 24 = of_nat (length sub)" using assms(2) s(1,3) by (simp add: rd8_def nth_append)
  moreover have "ucast (of_nat (length sub) :: u8) = (of_nat (length sub) :: u16)"
    using s(2) by (simp add: word_eq_iff_unsigned unsigned_ucast_eq unsigned_of_nat take_bit_nat_eq_self)
  ultimately show ?thesis using False assms(4) code_field(2) [OF s(6,5)] s(4) by simp
qed

text \<open>The chunks on the wire are a batch the receiver can put together, and the whole is the message.\<close>

lemma chunks_batch:
  assumes sub: "sub_header_ok code sub" and cs: "cs = 1000 - of_nat (length sub)" and n: "n = chunk_count sz cs" "0 < n" "n \<le> 16"
    and sz: "unat sz \<le> length payload" and ds: "\<And>j. j < n \<Longrightarrow> is_chunk payload code sz cs sub n q ident j (ds ! j)"
  defines "B \<equiv> \<lambda>j. cleared (ds ! j)" and "hs \<equiv> 24 + length sub"
  shows "chunk_batch n q sz hs B" "drop 24 (whole_message n hs B) = sub @ take (unat sz) payload" "24 \<le> length (whole_message n hs B)"
    "get_header (whole_message n hs B) = (get_header (ds ! 0))\<lparr>checksum := 0\<rparr>"
proof -
  note room = chunk_room [OF sub, folded cs]
  have ls: "length sub < 256" and ucs: "unat cs = 1000 - length sub" and c1: "1 < unat cs" using room by simp_all
  let ?slice = "\<lambda>j. take (unat cs) (drop (j * unat cs) (take (unat sz) payload))"
  have d: "datagram_of (chunk_opt sz (chunk_flag n j)) code (q + of_nat j) ident sub (?slice j) (ds ! j)" if "j < n" for j
    using ds [OF that] chunk_slice [OF c1 sz, of j] that by (simp add: is_chunk_def n(1))
  have len: "length (?slice j) \<le> unat cs" for j by simp
  have B: "length (B j) = 24 + length sub + length (?slice j)" "drop 24 (B j) = sub @ ?slice j" "get_header (B j) = (get_header (ds ! j))\<lparr>checksum := 0\<rparr>"
    if "j < n" for j
    using d [OF that] by (simp_all only: B_def datagram_of_def cleared_simps)
  have chunk: "let h = get_header (B j) in
     has_flag (flags h) CHUNK \<and> hSequenceNo h = q + of_nat j \<and> chunkInfo h = \<lparr>ci_size = sz, ci_flag = chunk_flag n j\<rparr>
     \<and> hs \<le> length (B j) \<and> length (B j) \<le> 1024
     \<and> of_nat hs = 24 + (if 0 < drop_bit 5 (packetCode h) then ucast (GetSize (B j) 24) else 0 :: u16)" if j: "j < n" for j
  proof -
    have "packetCode (get_header (B j)) = (if sub = [] then code else code OR push_bit 5 (sub_type sub))"
      using d [OF j] B(3) [OF j] by (simp add: datagram_of_def)
    from header_size [OF sub B(2) [OF j] _ this] B(1) [OF j]
    have "of_nat hs = 24 + (if 0 < drop_bit 5 (packetCode (get_header (B j))) then ucast (GetSize (B j) 24) else 0 :: u16)" by (simp add: hs_def)
    moreover have "length (B j) \<le> 1024" using B(1) [OF j] len [of j] ucs ls by linarith
    moreover have "has_flag 3 CHUNK" by (simp add: has_flag_def)
    ultimately show ?thesis using B(1,3) [OF j] d [OF j] by (simp add: datagram_of_def hs_def Let_def)
  qed
  then show "chunk_batch n q sz hs B" using n ls by (simp add: chunk_batch_def hs_def)
  have parts: "chunk_part hs B j = (if j = 0 then take 24 (B 0) @ sub else []) @ ?slice j" if "j < n" for j
  proof -
    have "drop hs (B j) = drop (length sub) (drop 24 (B j))" by (simp add: hs_def add.commute)
    then have "drop hs (B j) = ?slice j" unfolding B(2) [OF that] by simp
    moreover have "B 0 = take 24 (B 0) @ sub @ ?slice 0" using B(2) [OF n(2)] by (metis append_take_drop_id)
    ultimately show ?thesis by (auto simp: chunk_part_def)
  qed
  have "whole_message n hs B = concat (map (\<lambda>j. (if j = 0 then take 24 (B 0) @ sub else []) @ ?slice j) [0..<n])"
    unfolding whole_message_def using parts by (intro arg_cong [where f = concat] map_cong) auto
  also have "\<dots> = take 24 (B 0) @ sub @ concat (map ?slice [0..<n])"
    using n(2) by (simp add: upt_conv_Cons) (intro arg_cong [where f = concat] map_cong; simp)
  also have "\<dots> = take 24 (B 0) @ sub @ take (unat sz) payload"
  proof -
    have "unat sz \<le> n * unat cs" unfolding n(1) by (rule chunk_count_enough [OF c1])
    then show ?thesis by (simp add: slices del: take_take)
  qed
  finally have whole: "whole_message n hs B = take 24 (B 0) @ sub @ take (unat sz) payload" .
  have l0: "24 \<le> length (B 0)" using B(1) [OF n(2)] by simp
  show "drop 24 (whole_message n hs B) = sub @ take (unat sz) payload" "24 \<le> length (whole_message n hs B)" using whole l0 by simp_all
  have "get_header (whole_message n hs B) = get_header (take 24 (whole_message n hs B))" using get_header_take [of 24] by simp
  also have "\<dots> = get_header (B 0)" using whole l0 get_header_take [of 24 "B 0"] by simp
  finally show "get_header (whole_message n hs B) = (get_header (ds ! 0))\<lparr>checksum := 0\<rparr>" using B(3) [OF n(2)] by simp
qed

text \<open>
  C9. A message too long for one datagram arrives whole. When the send window has room, \<^verbatim>\<open>SendPacket\<close> cuts the message into
  chunks and puts every one of them on the wire, each with a valid checksum; the receiver may get them in any order, and with the last of
  them it hands its parser, once, a packet with the code, the sub-header and the very bytes of the message, then gives the block back and
  forgets the entry. Nothing is handed on before.
\<close>

theorem chunk_transfer:
  assumes sock: "hasSocket s" and io: "io_fine w" and sub: "sub_header_ok code sub"
    and size: "1024 < unat sz + length sub + 24" "unat sz + length sub + 24 \<le> 8192" "unat sz \<le> length payload"
    and n: "n = chunk_count sz (1000 - of_nat (length sub))" and q: "q = sendRepeatSeq (rpsNo s) + 1"
    and room: "unat (q - localWindowStart (rpsNo s)) + n \<le> 64"
    and recv: "own_ok {} r v" "chunckPakcetInj r q = None" and js: "distinct js" "set js = {..<n}"
  shows "\<exists>s' w' ds r1 v1 big msg. Session_SendPacket payload code sz opt sub (s, w) = Inr (s', w')
    \<and> wire w' = wire w @ map (Pair (addr s)) ds \<and> length ds = n \<and> (\<forall>d \<in> set ds. checksum_ok d (of_nat (length d)))
    \<and> packetCode (get_header msg) = (if sub = [] then code else code OR push_bit 5 (sub_type sub))
    \<and> drop 24 msg = sub @ take (unat sz) payload
    \<and> (\<forall>parse. receive_chunks_of parse (\<lambda>j. cleared (ds ! j)) js (r, v) =
         andThen (parse msg (of_nat (24 + length sub + unat sz)) (r1, v1)) (message_done q big))"
proof -
  define cs :: u16 where "cs = 1000 - of_nat (length sub)"
  have ls: "length sub < 256" and ucs: "unat cs = 1000 - length sub" and c1: "1 < unat cs" "cs \<noteq> 0"
    using chunk_room [OF sub, folded cs_def] by auto
  have nn: "n = chunk_count sz cs" using n by (simp add: cs_def)
  have n16: "0 < n" "n \<le> 16" unfolding nn using chunk_count_bounds [of cs sz] ucs ls size by auto
  have fit: "unat (chunk_size sz cs n j) + length sub + 24 \<le> 1024" for j using chunk_size_le [OF c1(2), of sz n j] ucs ls by linarith
  have left: "unat (chunk_size sz cs n j) \<le> length payload - j * unat cs" if "j < n" for j
    using chunk_size_left [OF c1(1) size(3)] that nn by simp
  have sp: "Session_SendPacket payload code sz opt sub (s, w) = send_chunks Session_overflow payload code sz cs sub n 0 (push_bit 0 (- 1)) (s, w)"
    using sock size(1) c1(2)
    unfolding Session_SendPacket_def SendPacket_def SendPacketChunk_def Let_def cs_def [symmetric] nn chunk_count_def by simp
  obtain s' w' where snd: "send_chunks Session_overflow payload code sz cs sub n 0 (push_bit 0 (- 1)) (s, w) = Inr (s', w')"
    and len: "length (wire w') = length (wire w) + n"
    using send_chunks_room [OF io _ _ fit left, of s n 0 code "push_bit 0 (- 1)"] room q by auto
  obtain ds where ds: "length ds = n" "wire w' = wire w @ map (Pair (addr s)) ds"
    "\<And>j. j < n \<Longrightarrow> is_chunk payload code sz cs sub n q (endpointId s) j (ds ! j)"
    using send_chunks_wire [OF snd, of n q] q len by auto
  define msg where "msg = whole_message n (24 + length sub) (\<lambda>j. cleared (ds ! j))"
  note b = chunks_batch [OF sub cs_def nn n16 size(3) ds(3), folded msg_def]
  have lm: "length msg = 24 + length sub + unat sz"
    using arg_cong [OF b(2), of length] b(3) size(3) by simp
  have ent: "chunk_entry n q (\<lambda>j. cleared (ds ! j)) Map.empty r v" using recv by (simp add: chunk_entry_def)
  have "0 \<in> set js" using js(2) n16(1) by simp
  then have jn: "js \<noteq> []" "set js = {..<n} - dom (Map.empty :: nat \<rightharpoonup> ptr)" "dom (Map.empty :: nat \<rightharpoonup> ptr) \<subseteq> {..<n}"
    using js(2) by (cases js, simp_all)
  have f: "unat sz + (24 + length sub) \<le> 8192" "length msg \<le> unat sz + (24 + length sub)" using size(2) lm by simp_all
  obtain r1 v1 big where rc: "\<forall>parse. receive_chunks_of parse (\<lambda>j. cleared (ds ! j)) js (r, v) =
      andThen (parse msg (of_nat (24 + length sub + unat sz)) (r1, v1)) (message_done q big)"
    using receive_whole [OF b(1) f [unfolded msg_def] ent jn(1) js(1) jn(2,3), folded msg_def, unfolded lm] by blast
  have ck: "\<forall>d \<in> set ds. checksum_ok d (of_nat (length d))" 
  proof
    fix d assume "d \<in> set ds"
    then obtain j where "j < n" "d = ds ! j" using ds(1) by (metis in_set_conv_nth)
    then show "checksum_ok d (of_nat (length d))" using ds(3) [of j] unfolding is_chunk_def datagram_of_def by metis
  qed
  have code: "packetCode (get_header msg) = (if sub = [] then code else code OR push_bit 5 (sub_type sub))"
    using b(4) ds(3) [OF n16(1)] by (simp add: is_chunk_def datagram_of_def)
  from sp [unfolded snd] ds(2,1) ck code b(2) rc show ?thesis by blast
qed

theorem chunk_transfer_witness:
  "\<exists>s' w' ds r1 v1 big msg. Session_SendPacket (replicate 1500 7) 3 1500 (mk_opt True False 0) [] (wire_session, wire_world) = Inr (s', w')
    \<and> length ds = 2 \<and> drop 24 msg = replicate 1500 7
    \<and> (\<forall>parse. receive_chunks_of parse (\<lambda>j. cleared (ds ! j)) [1, 0] (new_Session default_config, wire_world) =
         andThen (parse msg 1524 (r1, v1)) (message_done 1 big))"
proof -
  have c: "chunk_count 1500 (1000 - of_nat (length ([] :: bytes))) = 2" by (simp add: chunk_count_def)
  have s: "hasSocket wire_session" "sendRepeatSeq (rpsNo wire_session) = 0" "localWindowStart (rpsNo wire_session) = 0"
    by (simp_all add: wire_session_def new_Session_def new_ReliablePacketState_def)
  have none: "cache_at (new_Session default_config) l = None" for l
    by (cases l) (auto simp: new_Session_def new_CacheAlreadyPacket_def no_cache_def simp del: replicate.simps)
  have w: "io_fine wire_world" "cm_ok wire_world" using pools_ok_new_World
    by (simp_all add: wire_world_def) (simp add: io_fine_def new_World_def)
  have r: "own_ok {} (new_Session default_config) wire_world" "chunckPakcetInj (new_Session default_config) 1 = None"
    using none w by (simp_all add: own_ok_def) (simp add: new_Session_def)
  have "{..<2} = {1, 0 :: nat}" by auto
  then show ?thesis
    using chunk_transfer [OF s(1) w(1), of 3 "[]" 1500 "replicate 1500 7" 2 1 "new_Session default_config" wire_world "[1, 0]" "mk_opt True False 0"]
      c s r by (simp add: sub_header_ok_def del: replicate.simps receive_chunks_of.simps) metis
qed

end
