(* ===== verification/Dubu_EndToEnd.thy ===== *)
theory Dubu_EndToEnd
  imports Dubu_Reliability Dubu_ChunkTransfer Dubu_Retransmit Dubu_EchoClient
begin

text \<open>
  A client and the session at the other end of its connection: whatever the network does with the datagrams of the
  client, what the session hands on of an ordered channel is a prefix of what the client was asked to send on it.
\<close>

section \<open>The windows of an endpoint\<close>

datatype flow = Chan nat | Free

fun window :: "'e Endpoint_scheme \<Rightarrow> flow \<Rightarrow> ReliablePacketState" where
  "window s (Chan c) = reliablePacketState (channel s c)"
| "window s Free = rpsNo s"

definition flows :: "'e Endpoint_scheme \<Rightarrow> flow set" where
  "flows s = insert Free (Chan ` {..<length (cacheAlreadyPackets s)})"

lemma flows_iff [simp]: "Free \<in> flows s" "Chan c \<in> flows s \<longleftrightarrow> c < length (cacheAlreadyPackets s)"
  by (auto simp: flows_def)

text \<open>What a datagram of a window is: the packet of that number on the channel, or nothing of any channel.\<close>

definition in_flow :: "(nat \<Rightarrow> bytes list) \<Rightarrow> flow \<Rightarrow> u32 \<Rightarrow> bytes \<Rightarrow> bool" where
  "in_flow D f q d = (case f of Chan c \<Rightarrow> 0 < unat q \<and> unat q \<le> length (D c) \<and> d = D c ! (unat q - 1)
     | Free \<Rightarrow> \<forall>c. \<not> on_channel c d)"

definition pending :: "'e Endpoint_scheme \<Rightarrow> flow \<Rightarrow> u32 \<Rightarrow> ptr \<Rightarrow> bool" where
  "pending s f q p \<longleftrightarrow> f \<in> flows s \<and> pend_map (window s f) q = Some p"

text \<open>
  The outbox of an endpoint: \<open>D c\<close> lists the datagrams sent on channel \<open>c\<close>. Every unacknowledged packet still
  holds its datagram, in a buffer of its own.
\<close>

definition outbox_ok :: "(nat \<Rightarrow> bytes list) \<Rightarrow> 'e Endpoint_scheme \<Rightarrow> World \<Rightarrow> bool" where
  "outbox_ok D s w \<longleftrightarrow> pm_ok w \<and> (\<forall>f \<in> flows s. window_ok (window s f))
     \<and> (\<forall>c < length (cacheAlreadyPackets s). sendRepeatSeq (window s (Chan c)) = of_nat (length (D c)))
     \<and> (\<forall>c. length (D c) < 4294967295) \<and> (\<forall>f q p. pending s f q p \<longrightarrow> p \<in> inUse w \<and> in_flow D f q (datagram w p))
     \<and> (\<forall>f q f' q' p. pending s f q p \<longrightarrow> pending s f' q' p \<longrightarrow> f = f' \<and> q = q')
     \<and> (\<forall>c i. i < length (D c) \<longrightarrow> on_channel c (D c ! i) \<and> seq_of (D c ! i) = of_nat (Suc i))"

lemma outbox_okD:
  assumes "outbox_ok D s w"
  shows "pm_ok w" "f \<in> flows s \<Longrightarrow> window_ok (window s f)" "pending s f q p \<Longrightarrow> p \<in> inUse w"
    "pending s f q p \<Longrightarrow> in_flow D f q (datagram w p)" "pending s f q p \<Longrightarrow> pending s f' q' p \<Longrightarrow> f = f' \<and> q = q'"
    "c < length (cacheAlreadyPackets s) \<Longrightarrow> sendRepeatSeq (window s (Chan c)) = of_nat (length (D c))"
    "length (D c) < 4294967295"
    "i < length (D c) \<Longrightarrow> on_channel c (D c ! i) \<and> seq_of (D c ! i) = of_nat (Suc i)"
  using assms unfolding outbox_ok_def by blast+

text \<open>Nothing new is pending, and what is pending stays where it is.\<close>

lemma outbox_shrink:
  assumes ok: "outbox_ok D s w" and pm: "pm_ok w'" and fl: "length (cacheAlreadyPackets s') = length (cacheAlreadyPackets s)"
    and win: "\<And>f. f \<in> flows s \<Longrightarrow> window_ok (window s' f) \<and> sendRepeatSeq (window s' f) = sendRepeatSeq (window s f)"
    and pend: "\<And>f q p. pending s' f q p \<Longrightarrow> pending s f q p \<and> p \<in> inUse w' \<and> datagram w' p = datagram w p"
  shows "outbox_ok D s' w'"
proof -
  have f: "f \<in> flows s' \<longleftrightarrow> f \<in> flows s" for f using fl by (cases f) auto
  show ?thesis
    unfolding outbox_ok_def
  proof (intro conjI allI impI ballI)
    show "p \<in> inUse w'" "in_flow D f q (datagram w' p)" if "pending s' f q p" for f q p
      using pend [OF that] outbox_okD(4) [OF ok] by auto
    show "f = f'" "q = q'" if "pending s' f q p" "pending s' f' q' p" for f q f' q' p
      using pend [OF that(1)] pend [OF that(2)] outbox_okD(5) [OF ok] by auto
    show "sendRepeatSeq (window s' (Chan c)) = of_nat (length (D c))" if "c < length (cacheAlreadyPackets s')" for c
      using win [of "Chan c"] outbox_okD(6) [OF ok, of c] that fl by auto
  qed (use ok pm win f outbox_okD(7,8) [OF ok] in auto)
qed

text \<open>A new packet, in a fresh buffer.\<close>

lemma outbox_add:
  assumes ok: "outbox_ok D s w" and pm: "pm_ok w'" and fl: "length (cacheAlreadyPackets s') = length (cacheAlreadyPackets s)"
    and win: "\<And>f. f \<in> flows s \<Longrightarrow> window_ok (window s' f)"
    and fresh: "p0 \<notin> inUse w" "p0 \<in> inUse w'"
    and pend: "\<And>f q p. pending s' f q p \<Longrightarrow> pending s f q p \<and> p \<in> inUse w' \<and> datagram w' p = datagram w p
        \<or> f = f0 \<and> q = q0 \<and> p = p0"
    and new: "pending s' f0 q0 p0 \<Longrightarrow> in_flow D' f0 q0 (datagram w' p0)"
    and D': "\<And>c. c < length (cacheAlreadyPackets s) \<Longrightarrow> sendRepeatSeq (window s' (Chan c)) = of_nat (length (D' c))"
      "\<And>c. length (D' c) < 4294967295" "\<And>c. \<exists>e. D' c = D c @ e" "\<And>c i. i < length (D' c) \<Longrightarrow> on_channel c (D' c ! i) \<and> seq_of (D' c ! i) = of_nat (Suc i)"
  shows "outbox_ok D' s' w'"
proof -
  have f: "f \<in> flows s' \<longleftrightarrow> f \<in> flows s" for f using fl by (cases f) auto
  have grow: "in_flow D' f q d" if "in_flow D f q d" for f q d
  proof (cases f)
    case (Chan c)
    obtain e where "D' c = D c @ e" using D'(3) by blast
    then show ?thesis using that Chan by (auto simp: in_flow_def nth_append)
  qed (use that in \<open>simp add: in_flow_def\<close>)
  have old: "p \<noteq> p0" if "pending s f q p" for f q p using outbox_okD(3) [OF ok that] fresh(1) by auto
  show ?thesis
    unfolding outbox_ok_def
  proof (intro conjI allI impI ballI)
    show "p \<in> inUse w'" if "pending s' f q p" for f q p using pend [OF that] fresh(2) by auto
    show "in_flow D' f q (datagram w' p)" if "pending s' f q p" for f q p
    proof (cases "pending s f q p \<and> datagram w' p = datagram w p")
      case True
      then show ?thesis using grow outbox_okD(4) [OF ok] by auto
    next
      case False
      then have "f = f0" "q = q0" "p = p0" using pend [OF that] by auto
      then show ?thesis using new that by simp
    qed
    show "f = f'" "q = q'" if "pending s' f q p" "pending s' f' q' p" for f q f' q' p
      using pend [OF that(1)] pend [OF that(2)] outbox_okD(5) [OF ok, of f q p f' q'] old by blast+
  qed (use ok pm win f fl D'(1,2,4) in auto)
qed

section \<open>Sending\<close>

lemma window_rpsNo: "window (s\<lparr>rpsNo := r\<rparr>) f = (if f = Free then r else window s f)"
  by (cases f) simp_all

lemma window_upd_channel:
  "c < length (cacheAlreadyPackets s) \<Longrightarrow> f \<in> flows s \<Longrightarrow>
     window (upd_channel c (upd_state (\<lambda>_. r)) s) f = (if f = Chan c then r else window s f)"
  by (cases f) (simp_all add: upd_channel_def upd_state_def nth_list_update)

lemma length_upd_channel [simp]: "length (cacheAlreadyPackets (upd_channel c f s)) = length (cacheAlreadyPackets s)"
  by (simp add: upd_channel_def)

text \<open>A window that takes a new packet.\<close>

lemma window_takes:
  assumes ok: "window_ok rps" and left: "unat (sendRepeatSeq rps) < 4294967294"
    and q: "hSequenceNo (get_header (obuffer (packets w p))) = sendRepeatSeq rps + 1"
    and add: "AddPendingPacket w p (snd (UpdateSendSequenceNo rps)) = (True, rps')"
  shows "window_ok rps'" "pend_map rps' = (pend_map rps)(sendRepeatSeq rps + 1 \<mapsto> p)" "sendRepeatSeq rps' = sendRepeatSeq rps + 1"
proof -
  let ?rps = "snd (UpdateSendSequenceNo rps)" and ?q = "sendRepeatSeq rps + 1"
  have inc: "unat ?q = unat (sendRepeatSeq rps) + 1" using left by (intro unat_inc) simp
  have ok1: "window_ok ?rps" using window_ok_UpdateSend [OF ok] left by simp
  have "unat (localSeqence ?rps) \<le> unat ?q" using ok inc by (simp add: window_ok_def UpdateSendSequenceNo_def)
  moreover have "unat ?q < unat (localWindowStart ?rps) + 64"
    using AddPendingPacket_reject [of ?rps w p] add q by (metis not_le prod.inject)
  moreover have "sendRepeatSeq ?rps = ?q" by (simp add: UpdateSendSequenceNo_def)
  ultimately obtain rps1 where "AddPendingPacket w p ?rps = (True, rps1)" "window_ok rps1"
    "pend_map rps1 = (pend_map ?rps)(?q \<mapsto> p)" "sendRepeatSeq rps1 = ?q"
    using AddPendingPacket_accept [of ?rps w p] ok1 q left inc by (metis Suc_eq_plus1 Suc_less_eq eval_nat_numeral(3) less_SucI numeral_nat(7))
  then show "window_ok rps'" "pend_map rps' = (pend_map rps)(?q \<mapsto> p)" "sendRepeatSeq rps' = ?q" using add by simp_all
qed

text \<open>Neither the buffers nor the packet manager notice that a datagram is sent.\<close>

lemma send_keeps:
  "SendTo a p w = Inr w' \<Longrightarrow> datagram w' q = datagram w q \<and> packetManager w' = packetManager w"
  "SendToReliable a p w = Inr w' \<Longrightarrow> datagram w' q = datagram w q \<and> packetManager w' = packetManager w"
  by (auto simp: SendTo_def SendToReliable_def WSASendTo_def SetType_def datagram_def split: if_splits)

interpretation connectionKept: endpoint_invariant isConnect "\<lambda>x c. x"
  by unfold_locales simp_all

lemma Client_overflow_off: "Client_overflow p (s, w) = Inr (s', w') \<Longrightarrow> \<not> isConnect s'"
  by (auto simp: Client_overflow_def Client_Disconnect_def Client_Reset_def dest!: connectionKept.reset_states_view)

text \<open>The flags of a packet name its channel, if it has one.\<close>

lemma opt_flags_channel:
  assumes "reliable opt" "order opt" "unat (channelID opt) < 8" "flags (get_header d) = opt_flags opt"
  shows "on_channel (unat (channelID opt)) d"
proof -
  obtain n where n: "channelID opt = of_nat n" "n < 8" using assms(3) by (intro that [of "unat (channelID opt)"]) simp_all
  then have "n \<in> {0, 1, 2, 3, 4, 5, 6, 7}" by auto
  then have "channelID opt \<in> {0, 1, 2, 3, 4, 5, 6, 7}" using n(1) by auto
  then show ?thesis using assms(1,2,4) by (auto simp: on_channel_def opt_flags_def has_flag_def channel_of_def)
qed

lemma opt_flags_no_channel: "\<not> (reliable opt \<and> order opt) \<Longrightarrow> flags (get_header d) = opt_flags opt \<Longrightarrow> \<not> on_channel c d"
  by (auto simp: on_channel_def opt_flags_def has_flag_def)

text \<open>The messages, and the datagrams that carry them.\<close>

type_synonym message = "u8 \<times> bytes \<times> bytes"

fun carries :: "message \<Rightarrow> bytes \<Rightarrow> bool" where
  "carries (code, sub, payload) d \<longleftrightarrow> packetCode (get_header d) = (if sub = [] then code else code OR push_bit 5 (sub_type sub))
     \<and> drop 24 d = sub @ payload"

definition numbers_left :: "'e Endpoint_scheme \<Rightarrow> bool" where
  "numbers_left s \<longleftrightarrow> (\<forall>f \<in> flows s. unat (sendRepeatSeq (window s f)) < 4294967294)"

lemma register_pending_window:
  assumes ok: "outbox_ok D s w" and left: "numbers_left s" and rel: "reliable opt" and seq: "next_sequence opt s = Inr (q, s1)"
    and q: "hSequenceNo (get_header (obuffer (packets w1 p))) = q" and reg: "register_pending opt p w1 s1 = (True, s2)"
  defines "f0 \<equiv> if order opt then Chan (unat (channelID opt)) else Free"
  shows "f0 \<in> flows s" "q = sendRepeatSeq (window s f0) + 1" "length (cacheAlreadyPackets s2) = length (cacheAlreadyPackets s)"
    "addr s2 = addr s"
    "f \<in> flows s \<Longrightarrow> if f = f0 then window_ok (window s2 f) \<and> pend_map (window s2 f) = (pend_map (window s f))(q \<mapsto> p)
        \<and> sendRepeatSeq (window s2 f) = q else window s2 f = window s f"
proof -
  have *: "f0 \<in> flows s \<and> q = sendRepeatSeq (window s f0) + 1 \<and> length (cacheAlreadyPackets s2) = length (cacheAlreadyPackets s)
    \<and> addr s2 = addr s \<and> (\<exists>rps'. AddPendingPacket w1 p (snd (UpdateSendSequenceNo (window s f0))) = (True, rps')
    \<and> (\<forall>f \<in> flows s. window s2 f = (if f = f0 then rps' else window s f)))"
  proof (cases "order opt")
    case True
    let ?c = "unat (channelID opt)"
    have c: "?c < length (cacheAlreadyPackets s)" and s1: "s1 = upd_channel ?c (upd_state (\<lambda>_. snd (UpdateSendSequenceNo (window s f0)))) s"
      and q': "q = sendRepeatSeq (window s f0) + 1"
      using seq rel True by (auto simp: next_sequence_def Let_def f0_def UpdateSendSequenceNo_def split: if_splits)
    have c1: "?c < length (cacheAlreadyPackets s1)" using c s1 by simp
    have w1: "window s1 f = (if f = f0 then snd (UpdateSendSequenceNo (window s f0)) else window s f)" if "f \<in> flows s" for f
      unfolding s1 using window_upd_channel [OF c that] True by (simp add: f0_def)
    have f1: "f \<in> flows s1" if "f \<in> flows s" for f using that s1 by (cases f) simp_all
    obtain rps' where add: "AddPendingPacket w1 p (window s1 f0) = (True, rps')" and s2: "s2 = upd_channel ?c (upd_state (\<lambda>_. rps')) s1"
      using reg True by (auto simp: register_pending_def Let_def f0_def split: prod.splits)
    have "window s2 f = (if f = f0 then rps' else window s f)" if "f \<in> flows s" for f
      unfolding s2 using window_upd_channel [OF c1 f1 [OF that]] w1 [OF that] True by (simp add: f0_def)
    moreover have "f0 \<in> flows s" using c True by (simp add: f0_def)
    ultimately show ?thesis using add w1 [of f0] q' s1 s2 by (simp add: upd_channel_def)
  next
    case False
    have s1: "s1 = s\<lparr>rpsNo := snd (UpdateSendSequenceNo (window s f0))\<rparr>" and q': "q = sendRepeatSeq (window s f0) + 1"
      using seq rel False by (auto simp: next_sequence_def Let_def f0_def UpdateSendSequenceNo_def)
    obtain rps' where "AddPendingPacket w1 p (window s1 f0) = (True, rps')" "s2 = s1\<lparr>rpsNo := rps'\<rparr>"
      using reg False by (auto simp: register_pending_def Let_def f0_def split: prod.splits)
    then show ?thesis using False s1 q' by (auto simp: f0_def window_rpsNo simp del: window.simps(1))
  qed
  then obtain rps' where add: "AddPendingPacket w1 p (snd (UpdateSendSequenceNo (window s f0))) = (True, rps')"
    and win: "\<forall>f \<in> flows s. window s2 f = (if f = f0 then rps' else window s f)" by blast
  show "f0 \<in> flows s" "q = sendRepeatSeq (window s f0) + 1" "length (cacheAlreadyPackets s2) = length (cacheAlreadyPackets s)"
    "addr s2 = addr s" using * by blast+
  have "unat (sendRepeatSeq (window s f0)) < 4294967294" using left * by (auto simp: numbers_left_def)
  from window_takes [OF outbox_okD(2) [OF ok] this _ add] * q
  have "window_ok rps'" "pend_map rps' = (pend_map (window s f0))(q \<mapsto> p)" "sendRepeatSeq rps' = q" by auto
  then show "if f = f0 then window_ok (window s2 f) \<and> pend_map (window s2 f) = (pend_map (window s f))(q \<mapsto> p)
      \<and> sendRepeatSeq (window s2 f) = q else window s2 f = window s f" if "f \<in> flows s" using win that by auto
qed

lemma word_of_nat_unat_back: "of_nat (unat x) = x"
  by simp

text \<open>A packet that was taken by its window is in the outbox.\<close>

definition outbox_with :: "PacketOpctions \<Rightarrow> bytes \<Rightarrow> (nat \<Rightarrow> bytes list) \<Rightarrow> nat \<Rightarrow> bytes list" where
  "outbox_with opt d D = (if reliable opt \<and> order opt then D(unat (channelID opt) := D (unat (channelID opt)) @ [d]) else D)"

lemma register_outbox:
  assumes ok: "outbox_ok D s w" and left: "numbers_left s" and chan: "unat (channelID opt) < 8" and rel: "reliable opt"
    and seq: "next_sequence opt s = Inr (seq, s1)" and q: "hSequenceNo (get_header (obuffer (packets w1 p))) = seq"
    and reg: "register_pending opt p w1 s1 = (True, s2)" and fl: "flags (get_header d) = opt_flags opt" and sq: "seq_of d = seq"
    and w': "pm_ok w'" "p \<notin> inUse w" "p \<in> inUse w'" "datagram w' p = d"
      "\<And>x. x \<in> inUse w \<Longrightarrow> x \<in> inUse w' \<and> datagram w' x = datagram w x"
  shows "outbox_ok (outbox_with opt d D) s2 w'"
proof -
  define f0 where "f0 = (if order opt then Chan (unat (channelID opt)) else Free)"
  note rp = register_pending_window [OF ok left rel seq q reg, folded f0_def]
  let ?D = "outbox_with opt d D" and ?c = "unat (channelID opt)"
  have uq: "unat seq = Suc (unat (sendRepeatSeq (window s f0)))"
    using left rp(1,2) unat_inc [of "sendRepeatSeq (window s f0)"] by (auto simp: numbers_left_def)
  have uql: "unat seq = Suc (length (D ?c))" "seq = of_nat (Suc (length (D ?c)))" if "order opt"
  proof -
    show "unat seq = Suc (length (D ?c))" using uq outbox_okD(6,7) [OF ok, of ?c] rp(1) that by (simp add: f0_def unat_of_nat_u32)
    then show "seq = of_nat (Suc (length (D ?c)))" by (metis word_of_nat_unat_back)
  qed
  have fsame: "f \<in> flows s2 \<longleftrightarrow> f \<in> flows s" for f using rp(3) by (cases f) auto
  have pend: "pending s f n x \<and> x \<in> inUse w' \<and> datagram w' x = datagram w x \<or> f = f0 \<and> n = seq \<and> x = p" if pd: "pending s2 f n x" for f n x
  proof (cases "f = f0 \<and> n = seq")
    case True
    then show ?thesis using rp(5) [OF rp(1)] pd by (auto simp: pending_def)
  next
    case False
    have "pending s f n x" using rp(5) [of f] pd fsame False by (auto simp: pending_def split: if_splits)
    then show ?thesis using outbox_okD(3) [OF ok] w'(5) by blast
  qed
  show ?thesis
  proof (rule outbox_add [OF ok w'(1) rp(3) _ w'(2,3) pend])
    show "window_ok (window s2 f)" if "f \<in> flows s" for f using rp(5) [OF that] outbox_okD(2) [OF ok that] by (auto split: if_splits)
    show "in_flow ?D f0 seq (datagram w' p)"
      using w'(4) opt_flags_no_channel [OF _ fl] uql rel by (auto simp: in_flow_def f0_def outbox_with_def)
    show "length (?D c) < 4294967295" for c
      using outbox_okD(7) [OF ok, of c] uql(1) left rp(1) uq by (auto simp: outbox_with_def numbers_left_def)
    show "sendRepeatSeq (window s2 (Chan c)) = of_nat (length (?D c))" if c: "c < length (cacheAlreadyPackets s)" for c
    proof (cases "f0 = Chan c")
      case True
      then have o: "order opt" "c = ?c" by (auto simp: f0_def split: if_splits)
      then show ?thesis using rp(5) [of "Chan c"] True c uql(2) rel by (simp add: outbox_with_def)
    next
      case False
      then have "?D c = D c" by (auto simp: f0_def outbox_with_def split: if_splits)
      moreover have "window s2 (Chan c) = window s (Chan c)" using rp(5) [of "Chan c"] False c by (simp add: f0_def split: if_splits)
      ultimately show ?thesis using outbox_okD(6) [OF ok c] by simp
    qed
    show "on_channel c (?D c ! i) \<and> seq_of (?D c ! i) = of_nat (Suc i)" if i: "i < length (?D c)" for c i
    proof (cases "i < length (D c)")
      case True
      then have "?D c ! i = D c ! i" by (auto simp: outbox_with_def nth_append)
      then show ?thesis using outbox_okD(8) [OF ok True] by simp
    next
      case False
      then have o: "order opt" "c = ?c" "i = length (D c)" using i by (auto simp: outbox_with_def split: if_splits)
      then show ?thesis using uql(2) opt_flags_channel [OF rel o(1) chan fl] sq rel by (simp add: outbox_with_def)
    qed
  qed (auto simp: outbox_with_def)
qed

text \<open>One packet is sent.\<close>

lemma SendOne_outbox:
  assumes ok: "outbox_ok D s w" and left: "numbers_left s" and chan: "unat (channelID opt) < 8"
    and one: "SendOne Client_overflow payload code sz opt sub (s, w) = Inr (s', w')" and conn: "isConnect s'"
  shows "\<exists>d. wire w' = wire w @ [(addr s, d)] \<and> carries (code, sub, take (unat sz) payload) d
    \<and> outbox_ok (outbox_with opt d D) s' w' \<and> (\<forall>c. on_channel c d \<longrightarrow> d \<in> set (outbox_with opt d D c))"
proof -
  obtain seq s1 where seq: "next_sequence opt s = Inr (seq, s1)" using one by (auto simp: SendOne_def split_beta split: if_splits)
  have fits: "unat sz + length sub + 24 \<le> 1024" and pl: "unat sz \<le> length payload"
    using one by (auto simp: SendOne_def split_beta split: if_splits)
  obtain p w1 d where tr0: "SendOne Client_overflow payload code sz opt sub (s, w) = transmit Client_overflow opt p (s1, w1)"
    and w1: "wire w1 = wire w" "inUse w1 = insert p (inUse w)" "pm_ok w \<Longrightarrow> p \<notin> inUse w \<and> pm_ok w1" "\<And>q. q \<noteq> p \<Longrightarrow> packets w1 q = packets w q"
    and d: "take (unat (osize (packets w1 p))) (obuffer (packets w1 p)) = d" "hSequenceNo (get_header (obuffer (packets w1 p))) = seq"
      "datagram_of opt code seq (endpointId s1) sub (take (unat sz) payload) d"
    by (rule SendOne_transmit [OF seq fits pl]) (rule that; assumption)
  note tr = one [unfolded tr0]
  have pm: "p \<notin> inUse w" "pm_ok w1" using w1(3) outbox_okD(1) [OF ok] by auto
  have car: "carries (code, sub, take (unat sz) payload) d" using d(3) by (simp add: datagram_of_def)
  have fl: "flags (get_header d) = opt_flags opt" and sq: "seq_of d = seq" using d(3) by (simp_all add: datagram_of_def seq_of_def)
  obtain b s2 where reg0: "register_pending opt p w1 s1 = (b, s2)" by force
  have reg: "register_pending opt p w1 s1 = (True, s2)" if "reliable opt"
    using tr reg0 conn that by (cases b) (auto simp: transmit_def dest: Client_overflow_off)
  have wire: "wire w' = wire w @ [(addr s, d)]" using transmit_wire(1) [OF tr] reg d(1) w1(1) next_sequence_static [OF seq] by simp
  have keep: "datagram w' x = datagram w1 x \<and> packetManager w' = packetManager w1" for x
    using tr reg send_keeps by (cases "reliable opt") (auto simp: transmit_def)
  have w': "pm_ok w'" "p \<in> inUse w'" "datagram w' p = d" using keep pm(2) w1(2) d(1) by (simp_all add: pm_ok_def datagram_def)
  have old: "x \<in> inUse w' \<and> datagram w' x = datagram w x" if "x \<in> inUse w" for x
    using that keep [of x] pm(1) w1(2,4) by (cases "x = p") (auto simp: datagram_def)
  have "outbox_ok (outbox_with opt d D) s' w'"
  proof (cases "reliable opt")
    case True
    have "s' = s2" using transmit_wire(2) [OF tr] reg [OF True] True by simp
    then show ?thesis using register_outbox [OF ok left chan True seq d(2) reg [OF True] fl sq w'(1) pm(1) w'(2,3) old] by simp
  next
    case False
    have "s' = s1" using tr False by (auto simp: transmit_def)
    moreover have "window s1 f = window s f" "cacheAlreadyPackets s1 = cacheAlreadyPackets s" for f
      using seq False by (cases f; auto simp: next_sequence_def Let_def split: prod.splits)+
    ultimately have "outbox_ok D s' w'"
      using outbox_okD(2,3) [OF ok] old by (intro outbox_shrink [OF ok w'(1)]) (auto simp: pending_def flows_def)
    then show ?thesis using False by (simp add: outbox_with_def)
  qed
  moreover have "d \<in> set (outbox_with opt d D c)" if "on_channel c d" for c
  proof (cases "reliable opt \<and> order opt")
    case True
    then have "c = unat (channelID opt)" using that opt_flags_channel [OF _ _ chan fl] by (simp add: on_channel_def)
    then show ?thesis using True by (simp add: outbox_with_def)
  qed (use opt_flags_no_channel [OF _ fl] that in auto)
  ultimately show ?thesis using wire car by blast
qed

section \<open>Acknowledgements and retransmission\<close>

lemma AckProcess_effect:
  assumes ok: "window_ok rps" and r: "AckProcess q rps rtt w = (rps', rtt', w')" and pm: "pm_ok w"
    and own: "\<forall>n p. pend_map rps n = Some p \<longrightarrow> p \<in> inUse w"
  shows "window_ok rps'" "sendRepeatSeq rps' = sendRepeatSeq rps" "pm_ok w'"
    "pend_map rps' n = Some p \<Longrightarrow> pend_map rps n = Some p"
    "\<exists>buf. (buf = None \<or> pend_map rps q = buf \<and> pend_map rps' = (pend_map rps)(q := None))
       \<and> (\<forall>p. Some p \<noteq> buf \<longrightarrow> p \<in> inUse w \<longrightarrow> p \<in> inUse w' \<and> datagram w' p = datagram w p)"
proof -
  have "window_ok rps' \<and> sendRepeatSeq rps' = sendRepeatSeq rps \<and> pm_ok w'
    \<and> (pend_map rps' n = Some p \<longrightarrow> pend_map rps n = Some p)
    \<and> (\<exists>buf. (buf = None \<or> pend_map rps q = buf \<and> pend_map rps' = (pend_map rps)(q := None))
       \<and> (\<forall>p. Some p \<noteq> buf \<longrightarrow> p \<in> inUse w \<longrightarrow> p \<in> inUse w' \<and> datagram w' p = datagram w p))"
  proof (cases "pend_map rps q")
    case None
    then show ?thesis using r AckProcess_unknown [OF None, of rtt w] ok pm by auto
  next
    case (Some buf)
    let ?w = "snd (GetRelativeTimeMs w)"
    have w: "packetManager ?w = packetManager w" "packets ?w = packets w" by (simp_all add: GetRelativeTimeMs_def)
    obtain rps1 rtt1 where k: "AckProcess q rps rtt w = (rps1, rtt1, drop_reliable buf ?w)" "window_ok rps1"
      "pend_map rps1 = (pend_map rps)(q := None)" "sendRepeatSeq rps1 = sendRepeatSeq rps"
      using AckProcess_known [OF ok Some] by metis
    have pm1: "pm_ok (SetType buf t ?w)" for t using pm w by (simp add: pm_ok_def SetType_def)
    have in1: "buf \<in> inUse (SetType buf t ?w)" for t using own Some w by (simp add: SetType_def)
    have "pm_ok w'" using k(1) r pm1 packetPool.push_inv [OF pm1 in1]
      by (auto simp: drop_reliable_def fetch_and_not_def Let_def)
    moreover have "p \<in> inUse w' \<and> datagram w' p = datagram w p" if "p \<noteq> buf" "p \<in> inUse w" for p
      using k(1) r that w packetPool.push_used [of buf] packetPool.push_content [OF that(1)]
      by (auto simp: drop_reliable_def fetch_and_not_def Let_def SetType_def datagram_def)
    ultimately show ?thesis using k r Some by (auto split: if_splits)
  qed
  then show "window_ok rps'" "sendRepeatSeq rps' = sendRepeatSeq rps" "pm_ok w'"
    "pend_map rps' n = Some p \<Longrightarrow> pend_map rps n = Some p"
    "\<exists>buf. (buf = None \<or> pend_map rps q = buf \<and> pend_map rps' = (pend_map rps)(q := None))
       \<and> (\<forall>p. Some p \<noteq> buf \<longrightarrow> p \<in> inUse w \<longrightarrow> p \<in> inUse w' \<and> datagram w' p = datagram w p)"
    by blast+
qed

text \<open>An acknowledgement takes a packet out of the outbox.\<close>

lemma ack_outbox:
  assumes ok: "outbox_ok D s w" and f0: "f0 \<in> flows s" and r: "AckProcess q (window s f0) rtt w = (rps', rtt', w')"
    and s': "length (cacheAlreadyPackets s') = length (cacheAlreadyPackets s)"
      "\<And>f. f \<in> flows s \<Longrightarrow> window s' f = (if f = f0 then rps' else window s f)"
  shows "outbox_ok D s' w'"
proof -
  have own: "\<forall>n p. pend_map (window s f0) n = Some p \<longrightarrow> p \<in> inUse w"
    using outbox_okD(3) [OF ok, of f0] f0 by (simp add: pending_def)
  note e = AckProcess_effect [OF outbox_okD(2) [OF ok f0] r outbox_okD(1) [OF ok] own]
  obtain buf where buf: "buf = None \<or> pend_map (window s f0) q = buf \<and> pend_map rps' = (pend_map (window s f0))(q := None)"
    "\<And>p. Some p \<noteq> buf \<Longrightarrow> p \<in> inUse w \<Longrightarrow> p \<in> inUse w' \<and> datagram w' p = datagram w p" using e(5) by auto
  show ?thesis
  proof (rule outbox_shrink [OF ok e(3) s'(1)])
    show "window_ok (window s' f) \<and> sendRepeatSeq (window s' f) = sendRepeatSeq (window s f)" if "f \<in> flows s" for f
      using s'(2) [OF that] e(1,2) outbox_okD(2) [OF ok that] by auto
    show "pending s f n p \<and> p \<in> inUse w' \<and> datagram w' p = datagram w p" if pd: "pending s' f n p" for f n p
    proof -
      have f: "f \<in> flows s" using pd s'(1) by (cases f) (auto simp: pending_def)
      have old: "pending s f n p" using pd s'(2) [OF f] e(4) f by (auto simp: pending_def split: if_splits)
      have "Some p \<noteq> buf"
      proof
        assume b: "Some p = buf"
        then have pq: "pending s f0 q p" and rps': "pend_map rps' = (pend_map (window s f0))(q := None)" using buf(1) f0 by (auto simp: pending_def)
        have "f = f0 \<and> n = q" using outbox_okD(5) [OF ok old pq] .
        then show False using pd s'(2) [OF f] rps' by (simp add: pending_def)
      qed
      then show ?thesis using buf(2) outbox_okD(3) [OF ok old] old by blast
    qed
  qed
qed

lemma RecvDispatchACK_outbox:
  assumes ok: "outbox_ok D s w" and r: "RecvDispatchACK b n s w = Inr (res, s', w')"
  shows "outbox_ok D s' w' \<and> addr s' = addr s"
proof -
  let ?fl = "flags (get_header b)" and ?q = "hSequenceNo (get_header b)"
  let ?c = "unat (channel_of ?fl)"
  show ?thesis
  proof (cases "isConnect s")
    case False
    then show ?thesis using r ok by (simp add: RecvDispatchACK_def Let_def)
  next
    case conn: True
    show ?thesis
    proof (cases "?fl AND flag_value CHANNEL = 0")
      case True
      obtain rps' rtt' where a: "AckProcess ?q (window s Free) (rttMillisec s) w = (rps', rtt', w')" and s': "s' = s\<lparr>rpsNo := rps', rttMillisec := rtt'\<rparr>"
        using r conn True by (auto simp: RecvDispatchACK_def Let_def split: prod.splits)
      have "window s' f = (if f = Free then rps' else window s f)" for f using s' by (cases f) simp_all
      then show ?thesis using ack_outbox [OF ok _ a, of s'] s' by simp
    next
      case False
      have c: "?c < length (cacheAlreadyPackets s)" using r conn False by (simp add: RecvDispatchACK_def Let_def split: if_splits)
      obtain rps' rtt' where a: "AckProcess ?q (window s (Chan ?c)) (rttMillisec s) w = (rps', rtt', w')"
        and s': "s' = upd_channel ?c (upd_state (\<lambda>_. rps')) (s\<lparr>rttMillisec := rtt'\<rparr>)"
        using r conn False c by (simp add: RecvDispatchACK_def Let_def split: prod.splits)
      let ?s = "s\<lparr>rttMillisec := rtt'\<rparr>"
      have w: "window ?s f = window s f" "flows ?s = flows s" for f by (cases f) (simp_all add: flows_def)
      have "window s' f = (if f = Chan ?c then rps' else window s f)" if "f \<in> flows s" for f
        unfolding s' using window_upd_channel [of ?c ?s f rps'] c that w by simp
      then have "outbox_ok D s' w'" using ack_outbox [OF ok _ a, of s'] c s' by simp
      then show ?thesis using s' by (simp add: upd_channel_def)
    qed
  qed
qed

text \<open>What is retransmitted is in the outbox.\<close>

definition from_outbox :: "(nat \<Rightarrow> bytes list) \<Rightarrow> bytes \<Rightarrow> bool" where
  "from_outbox D d \<longleftrightarrow> (\<forall>c. on_channel c d \<longrightarrow> d \<in> set (D c))"

lemma in_flow_from_outbox:
  assumes "outbox_ok D s w" "in_flow D f q d"
  shows "from_outbox D d"
proof (cases f)
  case (Chan c)
  then have d: "unat q - 1 < length (D c)" "d = D c ! (unat q - 1)" using assms(2) by (auto simp: in_flow_def)
  then have "on_channel c d" using outbox_okD(8) [OF assms(1)] by blast
  moreover have "d \<in> set (D c)" using d by simp
  ultimately show ?thesis by (auto simp: from_outbox_def on_channel_def)
qed (use assms(2) in \<open>simp add: in_flow_def from_outbox_def\<close>)

lemma repeat_outbox:
  assumes ok: "outbox_ok D s w" and f0: "f0 \<in> flows s" and r: "repeat_if_pending to d now (window s f0, w) = Inr (rps', w')"
    and s': "length (cacheAlreadyPackets s') = length (cacheAlreadyPackets s)"
      "\<And>f. f \<in> flows s \<Longrightarrow> window s' f = (if f = f0 then rps' else window s f)"
  shows "outbox_ok D s' w' \<and> (\<exists>ds. wire w' = wire w @ map (Pair to) ds \<and> (\<forall>d \<in> set ds. from_outbox D d))"
proof -
  let ?rps = "window s f0"
  have wok: "window_ok ?rps" using outbox_okD(2) [OF ok f0] .
  have own: "p \<in> inUse w \<and> in_flow D f0 n (datagram w p)" if "pend_map ?rps n = Some p" for n p
    using outbox_okD(3,4) [OF ok, of f0 n p] that f0 by (simp add: pending_def)
  have inj: "inj_on (pend_map ?rps) (dom (pend_map ?rps))"
  proof (rule inj_onI)
    fix x y assume "x \<in> dom (pend_map ?rps)" and xy: "pend_map ?rps x = pend_map ?rps y"
    then obtain p where "pend_map ?rps x = Some p" by blast
    then have "pending s f0 x p" "pending s f0 y p" using f0 xy by (simp_all add: pending_def)
    then show "x = y" using outbox_okD(5) [OF ok] by blast
  qed
  have "packetManager w' = packetManager w \<and> sendRepeatSeq rps' = sendRepeatSeq ?rps \<and> window_ok rps' \<and> pend_map rps' = pend_map ?rps
    \<and> (\<forall>p. datagram w' p = datagram w p)
    \<and> (\<exists>ds. wire w' = wire w @ map (Pair to) ds \<and> (\<forall>d \<in> set ds. from_outbox D d))"
  proof (cases "IsRepeat ?rps")
    case True
    then have rm: "RepeatMessage to d now (?rps, w) = Inr (rps', w')" using r by (simp add: repeat_if_pending_def)
    let ?qs = "filter (overdue d now ?rps w) (numbers (localWindowStart ?rps) (localSeqence ?rps))"
    note e = RepeatMessage_effect [OF wok inj rm]
    let ?ds = "map (\<lambda>q. datagram w (the (pend_map ?rps q))) ?qs"
    have "from_outbox D x" if x: "x \<in> set ?ds" for x
    proof -
      obtain q where q: "overdue d now ?rps w q" "x = datagram w (the (pend_map ?rps q))" using x by auto
      obtain p where "pend_map ?rps q = Some p" using q(1) by (auto simp: overdue_def split: option.splits)
      then have "pend_map ?rps q = Some p" "x = datagram w p" using q(2) by simp_all
      then show ?thesis using own in_flow_from_outbox [OF ok] by blast
    qed
    moreover have "wire w' = wire w @ map (Pair to) ?ds" using e by (simp add: comp_def)
    ultimately show ?thesis using e RepeatMessage_manager [OF rm] by blast
  next
    case False
    then have "rps' = ?rps" "w' = w" using r by (auto simp: repeat_if_pending_def)
    then show ?thesis using wok by (auto intro: exI [of _ "[]"])
  qed
  then have e: "packetManager w' = packetManager w" "sendRepeatSeq rps' = sendRepeatSeq ?rps" "window_ok rps'" "pend_map rps' = pend_map ?rps"
    "\<And>p. datagram w' p = datagram w p" and out: "\<exists>ds. wire w' = wire w @ map (Pair to) ds \<and> (\<forall>d \<in> set ds. from_outbox D d)" by blast+
  have "outbox_ok D s' w'"
  proof (rule outbox_shrink [OF ok _ s'(1)])
    show "pm_ok w'" using outbox_okD(1) [OF ok] e(1) by (simp add: pm_ok_def)
    show "window_ok (window s' f) \<and> sendRepeatSeq (window s' f) = sendRepeatSeq (window s f)" if "f \<in> flows s" for f
      using s'(2) [OF that] e(2,3) outbox_okD(2) [OF ok that] by auto
    show "pending s f n p \<and> p \<in> inUse w' \<and> datagram w' p = datagram w p" if pd: "pending s' f n p" for f n p
    proof -
      have f: "f \<in> flows s" using pd s'(1) by (cases f) (auto simp: pending_def)
      have "pending s f n p" using pd s'(2) [OF f] e(4) f by (auto simp: pending_def split: if_splits)
      then show ?thesis using outbox_okD(3) [OF ok] e(1,5) by auto
    qed
  qed
  then show ?thesis using out by blast
qed

lemma over_channels_outbox:
  assumes "over_channels (repeat_channel to d now) cs (s, w) = Inr (s', w')" "outbox_ok D s w"
  shows "outbox_ok D s' w' \<and> addr s' = addr s \<and> (\<exists>ds. wire w' = wire w @ map (Pair to) ds \<and> (\<forall>x \<in> set ds. from_outbox D x))"
  using assms
proof (induction cs arbitrary: s w)
  case (Cons c cs)
  have c: "c < length (cacheAlreadyPackets s)" using Cons.prems(1) by (auto split: if_splits)
  obtain cap w1 where f: "repeat_channel to d now (channel s c, w) = Inr (cap, w1)"
    and rest0: "over_channels (repeat_channel to d now) cs (upd_channel c (\<lambda>_. cap) s, w1) = Inr (s', w')"
    using Cons.prems(1) c by auto
  obtain rps' where r: "repeat_if_pending to d now (window s (Chan c), w) = Inr (rps', w1)"
    and cap: "cap = (channel s c)\<lparr>reliablePacketState := rps'\<rparr>"
    using f by (auto simp: repeat_channel_def)
  note rest = rest0 [unfolded cap]
  let ?s = "upd_channel c (\<lambda>_. (channel s c)\<lparr>reliablePacketState := rps'\<rparr>) s"
  have "?s = upd_channel c (upd_state (\<lambda>_. rps')) s" by (simp add: upd_channel_def upd_state_def)
  then have win: "window ?s f = (if f = Chan c then rps' else window s f)" if "f \<in> flows s" for f using window_upd_channel [OF c that] by simp
  have one: "outbox_ok D ?s w1 \<and> (\<exists>ds. wire w1 = wire w @ map (Pair to) ds \<and> (\<forall>x \<in> set ds. from_outbox D x))"
    using repeat_outbox [OF Cons.prems(2) _ r, of ?s] c win by simp
  then obtain ds1 where ds1: "wire w1 = wire w @ map (Pair to) ds1" "\<forall>x \<in> set ds1. from_outbox D x" by blast
  obtain ds2 where "outbox_ok D s' w'" "addr s' = addr ?s" and ds2: "wire w' = wire w1 @ map (Pair to) ds2" "\<forall>x \<in> set ds2. from_outbox D x"
    using Cons.IH [OF rest] one by blast
  then show ?case using ds1 by (intro conjI exI [of _ "ds1 @ ds2"]) (auto simp: upd_channel_def)
qed (auto intro: exI [of _ "[]"])

lemma RepeatMessageAll_outbox:
  assumes r: "RepeatMessageAll d (s, w) = Inr (s', w')" and ok: "outbox_ok D s w"
  shows "outbox_ok D s' w' \<and> addr s' = addr s \<and> (\<exists>ds. wire w' = wire w @ map (Pair (addr s)) ds \<and> (\<forall>x \<in> set ds. from_outbox D x))"
proof -
  obtain now w1 where tm: "GetRelativeTimeMs w = (now, w1)" by force
  then have w1: "wire w1 = wire w" "packets w1 = packets w" "packetManager w1 = packetManager w" by (auto simp: GetRelativeTimeMs_def)
  obtain rps w2 where r1: "repeat_if_pending (addr s) d now (window s Free, w1) = Inr (rps, w2)"
    and r2: "over_channels (repeat_channel (addr s) d now) [0..<Suc (unat (g_channelMask (config w)))] (s\<lparr>rpsNo := rps\<rparr>, w2) = Inr (s', w')"
    using r tm by (auto simp: RepeatMessageAll_def Let_def simp del: upt_Suc)
  have ok1: "outbox_ok D s w1"
    by (rule outbox_shrink [OF ok]) (use ok w1 outbox_okD [OF ok] in \<open>auto simp: pm_ok_def datagram_def\<close>)
  have one: "outbox_ok D (s\<lparr>rpsNo := rps\<rparr>) w2 \<and> (\<exists>ds. wire w2 = wire w1 @ map (Pair (addr s)) ds \<and> (\<forall>x \<in> set ds. from_outbox D x))"
    using repeat_outbox [OF ok1 _ r1, of "s\<lparr>rpsNo := rps\<rparr>"] by (simp add: window_rpsNo)
  then obtain ds1 where ds1: "wire w2 = wire w1 @ map (Pair (addr s)) ds1" "\<forall>x \<in> set ds1. from_outbox D x" by blast
  have "outbox_ok D s' w' \<and> addr s' = addr s \<and> (\<exists>ds. wire w' = wire w2 @ map (Pair (addr s)) ds \<and> (\<forall>x \<in> set ds. from_outbox D x))"
    using over_channels_outbox [OF r2 one [THEN conjunct1]] by simp
  then obtain ds2 where "outbox_ok D s' w'" "addr s' = addr s" "wire w' = wire w2 @ map (Pair (addr s)) ds2" "\<forall>x \<in> set ds2. from_outbox D x" by blast
  then show ?thesis using ds1 w1 by (intro conjI exI [of _ "ds1 @ ds2"]) auto
qed

section \<open>The life of the client\<close>

text \<open>Everything else that happens meanwhile leaves the numbers, the windows and the unacknowledged packets of this connection alone.\<close>

definition aside :: "'e Endpoint_scheme \<Rightarrow> World \<Rightarrow> 'e Endpoint_scheme \<Rightarrow> World \<Rightarrow> bool" where
  "aside s w s' w' \<longleftrightarrow> pm_ok w' \<and> length (cacheAlreadyPackets s') = length (cacheAlreadyPackets s)
     \<and> (\<forall>f \<in> flows s. sendRepeatSeq (window s' f) = sendRepeatSeq (window s f) \<and> pendingPackets (window s' f) = pendingPackets (window s f)
          \<and> localWindowStart (window s' f) = localWindowStart (window s f) \<and> localSeqence (window s' f) = localSeqence (window s f))
     \<and> (\<forall>f q p. pending s f q p \<longrightarrow> p \<in> inUse w' \<and> datagram w' p = datagram w p)"

text \<open>
  What a client does from the start of a connection, as long as its window does not overflow (then it disconnects):
  \<open>msgs c\<close> are the messages it was asked to send on channel \<open>c\<close>, and \<open>out\<close> are the datagrams it has put on the wire.
\<close>

inductive client_run :: "'x Client_scheme \<Rightarrow> World \<Rightarrow> (nat \<Rightarrow> message list) \<Rightarrow> bytes list \<Rightarrow> 'x Client_scheme \<Rightarrow> World \<Rightarrow> bool"
  for s0 w0 where
  start: "client_run s0 w0 (\<lambda>_. []) [] s0 w0"
| send: "client_run s0 w0 msgs out s w \<Longrightarrow> numbers_left s \<Longrightarrow> unat (channelID opt) < 8 \<Longrightarrow>
    SendOne Client_overflow payload code sz opt sub (s, w) = Inr (s', w') \<Longrightarrow> isConnect s' \<Longrightarrow> wire w' = wire w @ es \<Longrightarrow>
    msgs' = (if reliable opt \<and> order opt
       then msgs(unat (channelID opt) := msgs (unat (channelID opt)) @ [(code, sub, take (unat sz) payload)]) else msgs) \<Longrightarrow>
    client_run s0 w0 msgs' (out @ map snd es) s' w'"
| acked: "client_run s0 w0 msgs out s w \<Longrightarrow> RecvDispatchACK b n s w = Inr (r, s', w') \<Longrightarrow> client_run s0 w0 msgs out s' w'"
| resend: "client_run s0 w0 msgs out s w \<Longrightarrow> RepeatMessageAll d (s, w) = Inr (s', w') \<Longrightarrow> wire w' = wire w @ es \<Longrightarrow>
    client_run s0 w0 msgs (out @ map snd es) s' w'"
| other: "client_run s0 w0 msgs out s w \<Longrightarrow> aside s w s' w' \<Longrightarrow> client_run s0 w0 msgs out s' w'"

definition sent_ok :: "(nat \<Rightarrow> message list) \<Rightarrow> bytes list \<Rightarrow> 'e Endpoint_scheme \<Rightarrow> World \<Rightarrow> bool" where
  "sent_ok msgs out s w \<longleftrightarrow> (\<exists>D. outbox_ok D s w \<and> (\<forall>c. list_all2 carries (msgs c) (D c)) \<and> (\<forall>d \<in> set out. from_outbox D d))"

lemma outbox_aside:
  assumes ok: "outbox_ok D s w" and as: "aside s w s' w'"
  shows "outbox_ok D s' w'"
proof (rule outbox_shrink [OF ok])
  have same: "window_ok (window s' f) = window_ok (window s f) \<and> sendRepeatSeq (window s' f) = sendRepeatSeq (window s f)
      \<and> pend_map (window s' f) = pend_map (window s f)" if "f \<in> flows s" for f
    using as that by (auto simp: aside_def window_ok_def pend_map_def [abs_def])
  show "window_ok (window s' f) \<and> sendRepeatSeq (window s' f) = sendRepeatSeq (window s f)" if "f \<in> flows s" for f
    using same [OF that] outbox_okD(2) [OF ok that] by simp
  show "pending s f q p \<and> p \<in> inUse w' \<and> datagram w' p = datagram w p" if pd: "pending s' f q p" for f q p
  proof -
    have f: "f \<in> flows s" using pd as by (cases f) (auto simp: pending_def aside_def)
    then have "pending s f q p" using pd same [OF f] by (simp add: pending_def)
    then show ?thesis using as by (auto simp: aside_def)
  qed
qed (use as in \<open>auto simp: aside_def\<close>)

lemma client_run_sent:
  assumes "client_run s0 w0 msgs out s w" and "outbox_ok (\<lambda>_. []) s0 w0"
  shows "sent_ok msgs out s w"
  using assms
proof (induction rule: client_run.induct)
  case start
  then show ?case by (auto simp: sent_ok_def)
next
  case (send msgs out s w opt payload code sz sub s' w' es msgs')
  obtain D where D: "outbox_ok D s w" "\<And>c. list_all2 carries (msgs c) (D c)" "\<forall>d \<in> set out. from_outbox D d"
    using send by (auto simp: sent_ok_def)
  let ?c = "unat (channelID opt)"
  let ?D = "\<lambda>d. outbox_with opt d D"
  obtain d where d: "wire w' = wire w @ [(addr s, d)]" "carries (code, sub, take (unat sz) payload) d" "outbox_ok (?D d) s' w'"
    "\<forall>c. on_channel c d \<longrightarrow> d \<in> set (?D d c)"
    using SendOne_outbox [OF D(1) send.hyps(2-5)] by blast
  have "list_all2 carries (msgs' c) (?D d c)" for c
    using D(2) [of c] D(2) [of ?c] d(2) send.hyps(7) by (auto simp: outbox_with_def intro: list_all2_appendI simp del: carries.simps)
  moreover have "from_outbox (?D d) x" if "x \<in> set (out @ map snd es)" for x
    using that D(3) d(1,4) send.hyps(6) by (auto simp: from_outbox_def outbox_with_def)
  ultimately show ?case using d(3) unfolding sent_ok_def by blast
next
  case (acked msgs out s w b n r s' w')
  then show ?case unfolding sent_ok_def using RecvDispatchACK_outbox by blast
next
  case (resend msgs out s w d s' w' es)
  obtain D where D: "outbox_ok D s w" "\<And>c. list_all2 carries (msgs c) (D c)" "\<forall>d \<in> set out. from_outbox D d"
    using resend by (auto simp: sent_ok_def)
  obtain ds where "outbox_ok D s' w'" "wire w' = wire w @ map (Pair (addr s)) ds" "\<forall>x \<in> set ds. from_outbox D x"
    using RepeatMessageAll_outbox [OF resend.hyps(2) D(1)] by blast
  then show ?case using D(2,3) resend.hyps(3) unfolding sent_ok_def by (intro exI [of _ D]) auto
next
  case (other msgs out s w s' w')
  then show ?case unfolding sent_ok_def using outbox_aside by blast
qed

lemma outbox_new:
  assumes "new_Client server v = Inr (c0, w0)" "pm_ok v"
  shows "outbox_ok (\<lambda>_. []) c0 w0"
proof -
  have w: "window_ok (window c0 f) \<and> pend_map (window c0 f) = Map.empty \<and> sendRepeatSeq (window c0 f) = 0" if "f \<in> flows c0" for f
  proof -
    have "window c0 f = new_ReliablePacketState"
      using assms(1) that by (cases f) (auto simp: new_Client_def new_CacheAlreadyPacket_def)
    moreover have "sendRepeatSeq new_ReliablePacketState = 0" by (simp add: new_ReliablePacketState_def)
    ultimately show ?thesis using window_ok_new pend_map_new by simp
  qed
  have none: "\<not> pending c0 f q p" for f q p using w [of f] by (auto simp: pending_def)
  obtain p w1 where pop: "PopPacketBuffer v = (p, w1)" by force
  have "pm_ok w0" using assms packetPool.pop_inv [OF assms(2)] pop
    by (auto simp: new_Client_def RecvFrom_def WSARecvFrom_def SetType_def pm_ok_def split: if_splits)
  moreover have "sendRepeatSeq (window c0 (Chan c)) = 0" if "c < length (cacheAlreadyPackets c0)" for c using w [of "Chan c"] that by auto
  ultimately show ?thesis using w none unfolding outbox_ok_def by (auto simp del: window.simps)
qed

lemma carries_cleared [simp]: "carries m (cleared d) = carries m d"
  by (cases m) (simp add: cleared_def get_set_header, simp add: set_header_def)

lemma header_cleared [simp]: "on_channel c (cleared d) = on_channel c d" "seq_of (cleared d) = seq_of d"
  by (simp_all add: cleared_def get_set_header on_channel_def seq_of_def)

text \<open>A list numbered from one whose elements come from a list numbered from one is a prefix of it.\<close>

lemma numbered_prefix:
  fixes num :: "'a \<Rightarrow> u32"
  assumes L: "map num L = map of_nat [1..<Suc (length L)]" and D: "\<And>i. i < length D \<Longrightarrow> num (D ! i) = of_nat (Suc i)"
    and len: "length D < 4294967295" and sub: "set L \<subseteq> set D"
  shows "L = take (length L) D" "length L \<le> length D"
proof -
  have at: "\<exists>i < length D. L ! j = D ! i \<and> (of_nat (Suc i) :: u32) = of_nat (Suc j)" if "j < length L" for j
  proof -
    have "num (L ! j) = map num L ! j" using that by simp
    then have n: "num (L ! j) = of_nat (Suc j)" unfolding L using that by (simp del: upt_Suc)
    have "L ! j \<in> set D" using sub that by auto
    then obtain i where "i < length D" "L ! j = D ! i" by (auto simp: in_set_conv_nth)
    then show ?thesis using D n by metis
  qed
  have inj: "i = j" if "(of_nat (Suc i) :: u32) = of_nat (Suc j)" "i < length D" "j \<le> length D" for i j
    using that len unat_of_nat_u32 [of "Suc i"] unat_of_nat_u32 [of "Suc j"] by simp
  show le: "length L \<le> length D"
  proof (rule ccontr)
    assume "\<not> length L \<le> length D"
    then obtain i where "i < length D" "(of_nat (Suc i) :: u32) = of_nat (Suc (length D))" using at [of "length D"] by auto
    then show False using inj [of i "length D"] by simp
  qed
  show "L = take (length L) D"
  proof (rule nth_equalityI)
    fix j assume j: "j < length L"
    then obtain i where i: "i < length D" "L ! j = D ! i" "(of_nat (Suc i) :: u32) = of_nat (Suc j)" using at by blast
    then have "i = j" using inj j le by simp
    then show "L ! j = take (length L) D ! j" using i(2) j by simp
  qed (use le in simp)
qed

text \<open>
  C1. From end to end: whatever the network loses, repeats, delays or reorders of what a client sends, and however the
  client's sends, acknowledgements and retransmissions interleave, what the session at the other end has handed on of an
  ordered channel is a prefix of the messages the client was asked to send on it, in their order, each once and with its
  code, sub-header and payload unchanged.
\<close>

theorem end_to_end_prefix:
  assumes client: "new_Client server v = Inr (c0, w0)" "pm_ok v" "client_run c0 w0 msgs out s w"
    and session: "session_run hs (new_Session cfg) v0 ds r vr" "good_handlers hs" "cm_ok v0"
    and chan: "unat c < unat (g_channelMask cfg + 1)"
    and net: "\<forall>d \<in> set ds. on_channel (unat c) d \<longrightarrow> d \<in> cleared ` set out"
  shows "\<exists>n \<le> length (msgs (unat c)). list_all2 carries (take n (msgs (unat c))) (filter (on_channel (unat c)) (dispatched r))
    \<and> recvRepeatSeq (reliablePacketState (channel r (unat c))) = of_nat n"
proof -
  let ?c = "unat c" let ?L = "filter (on_channel ?c) (dispatched r)"
  obtain D where D: "outbox_ok D s w" "\<And>c. list_all2 carries (msgs c) (D c)" "\<forall>d \<in> set out. from_outbox D d"
    using client_run_sent [OF client(3) outbox_new [OF client(1,2)]] by (auto simp: sent_ok_def)
  note l = run_log [OF session chan]
  have "set ?L \<subseteq> set (map cleared (D ?c))"
  proof
    fix x assume x: "x \<in> set ?L"
    then have "x \<in> cleared ` set out" using l(3) net by auto
    then obtain d where d: "x = cleared d" "d \<in> set out" by blast
    then have "d \<in> set (D ?c)" using D(3) x by (auto simp: from_outbox_def)
    then show "x \<in> set (map cleared (D ?c))" using d(1) by simp
  qed
  from numbered_prefix [OF l(1) _ _ this] have p: "?L = map cleared (take (length ?L) (D ?c))" "length ?L \<le> length (D ?c)"
    using outbox_okD(7) [OF D(1)] outbox_okD(8) [OF D(1), of _ ?c] by (simp_all add: take_map del: of_nat_Suc)
  have "list_all2 carries (take (length ?L) (msgs ?c)) (take (length ?L) (D ?c))" using D(2) [of ?c] by (rule list_all2_takeI)
  then have "list_all2 carries (take (length ?L) (msgs ?c)) (map cleared (take (length ?L) (D ?c)))" by (simp add: list_all2_map2)
  then show ?thesis using p l(2) list_all2_lengthD [OF D(2) [of ?c]] by (intro exI [of _ "length ?L"]) simp
qed

lemma first_delivered:
  assumes len: "24 \<le> length d" "length d \<le> 1024" and h: "flags (get_header d) = 5" "hSequenceNo (get_header d) = 1"
    "packetCode (get_header d) \<noteq> 0"
  shows "\<exists>r w'. session_run None (new_Session default_config) example_world [d] r w' \<and> dispatched r = [d]"
proof -
  have u: "unat (of_nat (length d) :: u16) = length d" using len by (simp add: unsigned_of_nat take_bit_nat_eq_self)
  have drain: "drain_cache f c 64 q (s, w) = Inr (s, w)" if "q \<noteq> last_of (channel s c)" "\<not> cp_isKeep (cachePackets (channel s c) ! slot (q + 1))"
    for f :: "unit Session_ext consumer" and c q s w using that by (simp add: numeral_eq_Suc Let_def)
  obtain now w1 where tm: "GetRelativeTimeMs example_world = (now, w1)" by force
  then have cfg: "config w1 = default_config" by (auto simp: GetRelativeTimeMs_def example_world_def new_World_def)
  obtain r w' where "Session_RecvDispatch None d (of_nat (length d)) (new_Session default_config) example_world = Inr (True, r, w')" "dispatched r = [d]"
    using h tm cfg len u
    by (simp add: Session_RecvDispatch_def RecvDispatch_def RecvOrdered_def HandOn_def Session_PacketParse_def parse_handlers_def
        has_flag_def channel_of_def new_Session_def new_CacheAlreadyPacket_def new_ReliablePacketState_def default_config_def upd_channel_def upd_state_def
        accept_next_def UpdateRecvSequenceNo_def no_cache_def drain Let_def nth_list_update slot_less)
  then have "session_run None (new_Session default_config) example_world ([] @ [take (unat (of_nat (length d) :: u16)) d]) r w'"
    using len u by (intro session_run.recv [OF session_run.start]) auto
  then show ?thesis using u \<open>dispatched r = [d]\<close> by auto
qed

lemma SendOne_accepted:
  assumes io: "io_fine w" and fits: "unat sz + length sub + 24 \<le> 1024" and pl: "unat sz \<le> length payload"
    and opt: "reliable opt" "order opt" and c: "unat (channelID opt) < length (cacheAlreadyPackets s)"
    and room: "sendRepeatSeq (window s (Chan (unat (channelID opt)))) + 1 - localWindowStart (window s (Chan (unat (channelID opt)))) < 64"
  shows "\<exists>s' w'. SendOne ovf payload code sz opt sub (s, w) = Inr (s', w') \<and> isConnect s' = isConnect s"
proof -
  let ?c = "unat (channelID opt)"
  let ?q = "sendRepeatSeq (window s (Chan ?c)) + 1"
  obtain s1 where seq: "next_sequence opt s = Inr (?q, s1)" and s1: "s1 = upd_channel ?c (upd_state (\<lambda>_. snd (UpdateSendSequenceNo (window s (Chan ?c))))) s"
    using opt c by (simp add: next_sequence_def UpdateSendSequenceNo_def Let_def)
  obtain p w1 d where one: "SendOne ovf payload code sz opt sub (s, w) = transmit ovf opt p (s1, w1)" and w1: "ioError w1 = ioError w"
    and h: "hSequenceNo (get_header (obuffer (packets w1 p))) = ?q"
    by (rule SendOne_transmit [OF seq fits pl]) (rule that; assumption)
  have "localWindowStart (reliablePacketState (channel s1 ?c)) = localWindowStart (window s (Chan ?c))"
    using c by (simp add: s1 upd_channel_def upd_state_def UpdateSendSequenceNo_def)
  then have "\<not> 64 \<le> ?q - localWindowStart (reliablePacketState (channel s1 ?c))" using room by simp
  then obtain s2 where reg: "register_pending opt p w1 s1 = (True, s2)" and s2: "isConnect s2 = isConnect s1"
    using h opt by (simp add: register_pending_def AddPendingPacket_def upd_channel_def Let_def)
  obtain w' where "SendToReliable (addr s2) p w1 = Inr w'"
    using io w1 by (auto simp: SendToReliable_def WSASendTo_def SetType_def io_fine_def wsa_ok_def)
  then show ?thesis using one reg s2 opt by (simp add: transmit_def s1 upd_channel_def)
qed

theorem end_to_end_prefix_witness:
  "\<exists>c0 w0 s w d r vr n. new_Client example_addr example_world = Inr (c0, w0)
    \<and> client_run c0 w0 ((\<lambda>_. [])(0 := [(3, [], [7, 8])])) [d] s w
    \<and> session_run None (new_Session default_config) example_world [cleared d] r vr
    \<and> list_all2 carries (take n [(3, [], [7, 8])]) [cleared d]"
proof -
  let ?opt = "mk_opt True True 0"
  have io: "io_fine example_world" "config example_world = default_config" "pm_ok example_world"
    using pools_ok_new_World by (simp_all add: example_world_def) (simp_all add: io_fine_def new_World_def)
  obtain p w1 where pop: "PopPacketBuffer example_world = (p, w1)" by force
  have "io_fine w1" using io(1) ioError_pool(1) [of example_world] pop by (simp add: io_fine_def)
  then obtain w0 where "RecvFrom example_world = Inr w0" and f0: "io_fine w0"
    using pop by (auto simp: RecvFrom_def WSARecvFrom_def SetType_def io_fine_def wsa_ok_def)
  then obtain c0 where new: "new_Client example_addr example_world = Inr (c0, w0)" by (simp add: new_Client_def)
  have w0: "io_fine w0" "pm_ok w0" using f0 outbox_okD(1) [OF outbox_new [OF new io(3)]] by simp_all
  define c1 where "c1 = c0\<lparr>isConnect := True\<rparr>"
  have chans: "cacheAlreadyPackets c1 = replicate (unat (g_channelMask default_config + 1)) new_CacheAlreadyPacket" "rpsNo c1 = new_ReliablePacketState"
    using new io(2) by (auto simp: new_Client_def c1_def)
  have mask: "0 < unat (g_channelMask default_config + 1)" by (simp add: default_config_def)
  have win: "window c1 f = window c0 f" "flows c1 = flows c0" for f by (cases f) (simp_all add: c1_def flows_def)
  have as: "aside c0 w0 c1 w0"
    using w0 outbox_okD(3) [OF outbox_new [OF new io(3)]] by (auto simp: aside_def win simp del: window.simps) (simp add: c1_def)
  have nw: "window c1 f = new_ReliablePacketState" if "f \<in> flows c1" for f using that chans by (cases f) (simp_all add: new_CacheAlreadyPacket_def)
  have left: "numbers_left c1" using nw by (simp add: numbers_left_def new_ReliablePacketState_def)
  have opt: "reliable ?opt" "order ?opt" "channelID ?opt = 0" by (simp_all add: mk_opt_def)
  obtain s w where one: "SendOne Client_overflow [7, 8] 3 2 ?opt [] (c1, w0) = Inr (s, w)" and conn: "isConnect s"
    using SendOne_accepted [OF w0(1), of 2 "[]" "[7, 8]" ?opt c1 Client_overflow 3] opt chans mask nw [of "Chan 0"]
    by (auto simp: new_ReliablePacketState_def c1_def simp del: window.simps)
  have ok1: "outbox_ok (\<lambda>_. []) c1 w0" by (rule outbox_aside [OF outbox_new [OF new io(3)] as])
  obtain d where d: "wire w = wire w0 @ [(addr c1, d)]" "datagram_of ?opt 3 1 (endpointId c1) [] [7, 8] d"
  proof -
    obtain seq s1 p w1 d where x: "next_sequence ?opt c1 = Inr (seq, s1)" "transmit Client_overflow ?opt p (s1, w1) = Inr (s, w)"
      "wire w1 = wire w0" "take (unat (osize (packets w1 p))) (obuffer (packets w1 p)) = d"
      "datagram_of ?opt 3 seq (endpointId s1) [] (take (unat (2 :: u16)) [7, 8]) d"
      by (rule SendOne_packet [OF one]) (rule that; assumption)
    have "fst (register_pending ?opt p w1 s1)"
      using x(2) conn opt by (auto simp: transmit_def dest: Client_overflow_off split: if_splits prod.splits)
    moreover have "seq = 1" using x(1) opt chans mask nw [of "Chan 0"]
      by (auto simp: next_sequence_def Let_def UpdateSendSequenceNo_def new_ReliablePacketState_def)
    ultimately show ?thesis using that [of d] transmit_wire(1) [OF x(2)] x next_sequence_static [OF x(1)] by simp
  qed
  have run: "client_run c0 w0 ((\<lambda>_. [])(0 := [(3, [], [7, 8])])) [d] s w"
    using client_run.send [OF client_run.other [OF client_run.start as] left _ one conn d(1) refl] opt by simp
  have "length d = 26" "flags (get_header d) = 5" "hSequenceNo (get_header d) = 1" "packetCode (get_header d) = 3"
    using d(2) by (simp_all add: datagram_of_def opt_flags_def mk_opt_def)
  then obtain r vr where rcv: "session_run None (new_Session default_config) example_world [cleared d] r vr" "dispatched r = [cleared d]"
    and on: "on_channel 0 (cleared d)"
    using first_delivered [of "cleared d"] by (auto simp: cleared_simps on_channel_def has_flag_def channel_of_def)
  let ?m = "((\<lambda>_. [])(0 := [(3, [], [7, 8])])) :: nat \<Rightarrow> message list"
  have "\<exists>n \<le> length (?m (unat (0 :: u8))). list_all2 carries (take n (?m (unat (0 :: u8)))) (filter (on_channel (unat (0 :: u8))) (dispatched r))
      \<and> recvRepeatSeq (reliablePacketState (channel r (unat (0 :: u8)))) = of_nat n"
    by (rule end_to_end_prefix [OF new io(3) run rcv(1) good_None cm_ok_example]) (use mask in auto)
  then obtain n where "list_all2 carries (take n [(3, [], [7, 8])]) [cleared d]" using rcv(2) on by auto
  then show ?thesis using new run rcv(1) by blast
qed

end
