(* ===== verification/Dubu_Flat.thy ===== *)
theory Dubu_Flat
  imports Dubu_Apps
begin

text \<open>
  The code that flatc generated for the packets of the applications, \<^verbatim>\<open>extra/dubu_echo_packet_generated.h\<close>: the
  accessors, the verifiers and the builders of the tables Chatting, Register, Bot and Packet. The FlatBuffers library
  they call is not part of the repository; it is the record \<open>FlatLib\<close>, a parameter of every definition.
\<close>

section \<open>The library\<close>

text \<open>
  A position in the buffer stands for a pointer. A read that leaves the memory at hand is a fault. A check of a
  verifier may change the verifier (it counts tables and depth).
\<close>

type_synonym 'v check = "'v \<Rightarrow> (bool \<times> 'v) result"

record ('f, 'v) FlatLib =
  GetRoot :: "bytes \<Rightarrow> nat result"
  GetFieldU32 :: "bytes \<Rightarrow> nat \<Rightarrow> u16 \<Rightarrow> u32 \<Rightarrow> u32 result"
  GetFieldU8 :: "bytes \<Rightarrow> nat \<Rightarrow> u16 \<Rightarrow> u8 \<Rightarrow> u8 result"
  GetPointer :: "bytes \<Rightarrow> nat \<Rightarrow> u16 \<Rightarrow> nat option result"
  string_str :: "bytes \<Rightarrow> nat \<Rightarrow> bytes result"
  new_Verifier :: "bytes \<Rightarrow> u32 \<Rightarrow> 'v"
  VerifyTableStart :: "nat \<Rightarrow> 'v check"
  VerifyFieldU32 :: "nat \<Rightarrow> u16 \<Rightarrow> 'v check"
  VerifyFieldU8 :: "nat \<Rightarrow> u16 \<Rightarrow> 'v check"
  VerifyOffset :: "nat \<Rightarrow> u16 \<Rightarrow> 'v check"
  VerifyString :: "nat option \<Rightarrow> 'v check"
  Verifier_EndTable :: "'v check"
  VerifyTable :: "(nat \<Rightarrow> 'v check) \<Rightarrow> nat option \<Rightarrow> 'v check"
  VerifyBuffer :: "(nat \<Rightarrow> 'v check) \<Rightarrow> 'v check"
  new_FlatBufferBuilder :: 'f
  StartTable :: "'f \<Rightarrow> u32 \<times> 'f"
  AddElementU32 :: "u16 \<Rightarrow> u32 \<Rightarrow> u32 \<Rightarrow> 'f \<Rightarrow> 'f"
  AddElementU8 :: "u16 \<Rightarrow> u8 \<Rightarrow> u8 \<Rightarrow> 'f \<Rightarrow> 'f"
  AddOffset :: "u16 \<Rightarrow> u32 \<Rightarrow> 'f \<Rightarrow> 'f"
  EndTable :: "u32 \<Rightarrow> 'f \<Rightarrow> u32 \<times> 'f"
  CreateString :: "bytes \<Rightarrow> 'f \<Rightarrow> u32 \<times> 'f"
  Finish :: "u32 \<Rightarrow> 'f \<Rightarrow> 'f"
  GetBuffer :: "'f \<Rightarrow> bytes"

text \<open>The short-circuit conjunction of checks.\<close>

definition and_check :: "'v check \<Rightarrow> 'v check \<Rightarrow> 'v check" where
  "and_check f g v = andThen (f v) (\<lambda>(ok, v1). if ok then g v1 else Inr (False, v1))"

section \<open>The tables\<close>

definition Chatting_id :: "('f, 'v) FlatLib \<Rightarrow> bytes \<Rightarrow> nat \<Rightarrow> u32 result" where
  "Chatting_id lib b t = GetFieldU32 lib b t 4 0"

definition Chatting_message :: "('f, 'v) FlatLib \<Rightarrow> bytes \<Rightarrow> nat \<Rightarrow> nat option result" where
  "Chatting_message lib b t = GetPointer lib b t 6"

definition Chatting_Verify :: "('f, 'v) FlatLib \<Rightarrow> bytes \<Rightarrow> nat \<Rightarrow> 'v check" where
  "Chatting_Verify lib b t = and_check (VerifyTableStart lib t) (and_check (VerifyFieldU32 lib t 4) (and_check (VerifyOffset lib t 6)
     (and_check (\<lambda>v. andThen (Chatting_message lib b t) (\<lambda>m. VerifyString lib m v)) (Verifier_EndTable lib))))"

definition Register_id :: "('f, 'v) FlatLib \<Rightarrow> bytes \<Rightarrow> nat \<Rightarrow> u32 result" where
  "Register_id lib b t = GetFieldU32 lib b t 4 0"

definition Register_Verify :: "('f, 'v) FlatLib \<Rightarrow> bytes \<Rightarrow> nat \<Rightarrow> 'v check" where
  "Register_Verify lib b t = and_check (VerifyTableStart lib t) (and_check (VerifyFieldU32 lib t 4) (Verifier_EndTable lib))"

definition Bot_id :: "('f, 'v) FlatLib \<Rightarrow> bytes \<Rightarrow> nat \<Rightarrow> u32 result" where
  "Bot_id lib b t = GetFieldU32 lib b t 4 0"

definition Bot_count :: "('f, 'v) FlatLib \<Rightarrow> bytes \<Rightarrow> nat \<Rightarrow> u32 result" where
  "Bot_count lib b t = GetFieldU32 lib b t 6 0"

definition Bot_Verify :: "('f, 'v) FlatLib \<Rightarrow> bytes \<Rightarrow> nat \<Rightarrow> 'v check" where
  "Bot_Verify lib b t = and_check (VerifyTableStart lib t) (and_check (VerifyFieldU32 lib t 4)
     (and_check (VerifyFieldU32 lib t 6) (Verifier_EndTable lib)))"

definition Packet_body_type :: "('f, 'v) FlatLib \<Rightarrow> bytes \<Rightarrow> nat \<Rightarrow> u8 result" where
  "Packet_body_type lib b t = GetFieldU8 lib b t 4 0"

definition Packet_body :: "('f, 'v) FlatLib \<Rightarrow> bytes \<Rightarrow> nat \<Rightarrow> nat option result" where
  "Packet_body lib b t = GetPointer lib b t 6"

text \<open>\<^verbatim>\<open>body_as_Chatting\<close>, \<^verbatim>\<open>body_as_Register\<close> and \<^verbatim>\<open>body_as_Bot\<close> for their tag.\<close>

definition Packet_body_as :: "('f, 'v) FlatLib \<Rightarrow> u8 \<Rightarrow> bytes \<Rightarrow> nat \<Rightarrow> nat option result" where
  "Packet_body_as lib tag b t = andThen (Packet_body_type lib b t) (\<lambda>ty. if ty = tag then Packet_body lib b t else Inr None)"

definition VerifyPacketBody :: "('f, 'v) FlatLib \<Rightarrow> bytes \<Rightarrow> nat option \<Rightarrow> u8 \<Rightarrow> 'v check" where
  "VerifyPacketBody lib b obj ty v =
     (if ty = 0 then Inr (True, v)
      else if ty = PacketBody_Chatting then VerifyTable lib (Chatting_Verify lib b) obj v
      else if ty = PacketBody_Register then VerifyTable lib (Register_Verify lib b) obj v
      else if ty = PacketBody_Bot then VerifyTable lib (Bot_Verify lib b) obj v
      else Inr (True, v))"

definition Packet_Verify :: "('f, 'v) FlatLib \<Rightarrow> bytes \<Rightarrow> nat \<Rightarrow> 'v check" where
  "Packet_Verify lib b t = and_check (VerifyTableStart lib t) (and_check (VerifyFieldU8 lib t 4) (and_check (VerifyOffset lib t 6)
     (and_check (\<lambda>v. andThen (Packet_body lib b t) (\<lambda>obj. andThen (Packet_body_type lib b t) (\<lambda>ty. VerifyPacketBody lib b obj ty v)))
       (Verifier_EndTable lib))))"

definition VerifyPacketBuffer_at :: "('f, 'v) FlatLib \<Rightarrow> bytes \<Rightarrow> 'v check" where
  "VerifyPacketBuffer_at lib b = VerifyBuffer lib (Packet_Verify lib b)"

definition GetPacket_at :: "('f, 'v) FlatLib \<Rightarrow> bytes \<Rightarrow> nat result" where
  "GetPacket_at lib b = GetRoot lib b"

section \<open>The builders\<close>

definition CreateChatting :: "('f, 'v) FlatLib \<Rightarrow> u32 \<Rightarrow> u32 \<Rightarrow> 'f \<Rightarrow> u32 \<times> 'f" where
  "CreateChatting lib ident message fbb =
     (let (start, f1) = StartTable lib fbb; f2 = AddOffset lib 6 message f1; f3 = AddElementU32 lib 4 ident 0 f2
      in EndTable lib start f3)"

definition CreateChattingDirect :: "('f, 'v) FlatLib \<Rightarrow> u32 \<Rightarrow> bytes option \<Rightarrow> 'f \<Rightarrow> u32 \<times> 'f" where
  "CreateChattingDirect lib ident message fbb =
     (case message of
        None \<Rightarrow> CreateChatting lib ident 0 fbb
      | Some m \<Rightarrow> let (str, f1) = CreateString lib m fbb in CreateChatting lib ident str f1)"

definition CreateRegister :: "('f, 'v) FlatLib \<Rightarrow> u32 \<Rightarrow> 'f \<Rightarrow> u32 \<times> 'f" where
  "CreateRegister lib ident fbb =
     (let (start, f1) = StartTable lib fbb; f2 = AddElementU32 lib 4 ident 0 f1 in EndTable lib start f2)"

definition CreateBot :: "('f, 'v) FlatLib \<Rightarrow> u32 \<Rightarrow> u32 \<Rightarrow> 'f \<Rightarrow> u32 \<times> 'f" where
  "CreateBot lib ident cnt fbb =
     (let (start, f1) = StartTable lib fbb; f2 = AddElementU32 lib 6 cnt 0 f1; f3 = AddElementU32 lib 4 ident 0 f2
      in EndTable lib start f3)"

definition CreatePacket :: "('f, 'v) FlatLib \<Rightarrow> u8 \<Rightarrow> u32 \<Rightarrow> 'f \<Rightarrow> u32 \<times> 'f" where
  "CreatePacket lib ty obj fbb =
     (let (start, f1) = StartTable lib fbb; f2 = AddOffset lib 6 obj f1; f3 = AddElementU8 lib 4 ty 0 f2
      in EndTable lib start f3)"

definition FinishPacketBuffer_with :: "('f, 'v) FlatLib \<Rightarrow> 'f \<Rightarrow> u32 \<Rightarrow> 'f" where
  "FinishPacketBuffer_with lib fbb root = Finish lib root fbb"

section \<open>Whole packets\<close>

text \<open>
  What the applications do with the generated code: they read the type, the table it names and all its fields, and they
  build a table, the packet around it and the finished buffer.
\<close>

definition read_body :: "('f, 'v) FlatLib \<Rightarrow> bytes \<Rightarrow> u8 \<Rightarrow> nat \<Rightarrow> PacketBody option result" where
  "read_body lib b ty p =
     (if ty = PacketBody_Chatting then
        andThen (Chatting_id lib b p) (\<lambda>i. andThen (Chatting_message lib b p) (\<lambda>m.
          (case m of None \<Rightarrow> Inr (Some (Chatting i None)) | Some s \<Rightarrow> andThen (string_str lib b s) (\<lambda>str. Inr (Some (Chatting i (Some str)))))))
      else if ty = PacketBody_Register then andThen (Register_id lib b p) (\<lambda>i. Inr (Some (Register i)))
      else if ty = PacketBody_Bot then andThen (Bot_id lib b p) (\<lambda>i. andThen (Bot_count lib b p) (\<lambda>n. Inr (Some (Bot i n))))
      else Inr None)"

definition read_packet :: "('f, 'v) FlatLib \<Rightarrow> bytes \<Rightarrow> EchoPacket result" where
  "read_packet lib b = andThen (GetPacket_at lib b) (\<lambda>t. andThen (Packet_body_type lib b t) (\<lambda>ty. andThen (Packet_body_as lib ty b t) (\<lambda>obj.
     (case obj of None \<Rightarrow> Inr \<lparr>body_type = ty, body = None\<rparr>
      | Some p \<Rightarrow> andThen (read_body lib b ty p) (\<lambda>x. Inr \<lparr>body_type = ty, body = x\<rparr>)))))"

definition build_body :: "('f, 'v) FlatLib \<Rightarrow> PacketBody \<Rightarrow> 'f \<Rightarrow> u32 \<times> 'f" where
  "build_body lib x fbb = (case x of Chatting i m \<Rightarrow> CreateChattingDirect lib i m fbb | Register i \<Rightarrow> CreateRegister lib i fbb
     | Bot i n \<Rightarrow> CreateBot lib i n fbb)"

definition write_packet :: "('f, 'v) FlatLib \<Rightarrow> PacketBody \<Rightarrow> bytes" where
  "write_packet lib x =
     (let (obj, f1) = build_body lib x (new_FlatBufferBuilder lib); (packet, f2) = CreatePacket lib (type_of_body x) obj f1
      in GetBuffer lib (FinishPacketBuffer_with lib f2 packet))"

text \<open>The generated code as the record the applications are modelled over.\<close>

definition flat_of :: "('f, 'v) FlatLib \<Rightarrow> Flat" where
  "flat_of lib = \<lparr>VerifyPacketBuffer = (\<lambda>b n. case VerifyPacketBuffer_at lib (take (unat n) b) (new_Verifier lib b n) of
       Inl _ \<Rightarrow> False | Inr (ok, _) \<Rightarrow> ok),
     GetPacket = (\<lambda>b. case read_packet lib b of Inl _ \<Rightarrow> \<lparr>body_type = 0, body = None\<rparr> | Inr p \<Rightarrow> p),
     FinishPacketBuffer = write_packet lib\<rparr>"

section \<open>What the verifier accepts can be read\<close>

text \<open>
  What the generated code relies on. \<open>mem\<close> is the memory a verifier was made for, \<open>tab b t\<close> says that the table at \<open>t\<close> and its
  vtable lie in the memory \<open>b\<close>: once the start of a table and a field have been verified, that field can be read.
\<close>

definition check_keeps :: "('v \<Rightarrow> bytes) \<Rightarrow> 'v check \<Rightarrow> bool" where
  "check_keeps mem f \<longleftrightarrow> (\<forall>v. \<exists>ok v'. f v = Inr (ok, v') \<and> mem v' = mem v)"

definition flat_fields :: "('f, 'v) FlatLib \<Rightarrow> ('v \<Rightarrow> bytes) \<Rightarrow> (bytes \<Rightarrow> nat \<Rightarrow> bool) \<Rightarrow> bool" where
  "flat_fields lib mem tab \<longleftrightarrow>
     (\<forall>b n. mem (new_Verifier lib b n) = take (unat n) b)
     \<and> (\<forall>t vt p. check_keeps mem (VerifyTableStart lib t) \<and> check_keeps mem (VerifyFieldU32 lib t vt) \<and> check_keeps mem (VerifyFieldU8 lib t vt)
          \<and> check_keeps mem (VerifyOffset lib t vt) \<and> check_keeps mem (VerifyString lib p) \<and> check_keeps mem (Verifier_EndTable lib))
     \<and> (\<forall>t v v'. VerifyTableStart lib t v = Inr (True, v') \<longrightarrow> tab (mem v) t)
     \<and> (\<forall>t vt v v' d. tab (mem v) t \<longrightarrow> VerifyFieldU32 lib t vt v = Inr (True, v') \<longrightarrow> (\<exists>x. GetFieldU32 lib (mem v) t vt d = Inr x))
     \<and> (\<forall>t vt v v' d. tab (mem v) t \<longrightarrow> VerifyFieldU8 lib t vt v = Inr (True, v') \<longrightarrow> (\<exists>x. GetFieldU8 lib (mem v) t vt d = Inr x))
     \<and> (\<forall>t vt v v'. tab (mem v) t \<longrightarrow> VerifyOffset lib t vt v = Inr (True, v') \<longrightarrow> (\<exists>p. GetPointer lib (mem v) t vt = Inr p))
     \<and> (\<forall>p v v'. VerifyString lib (Some p) v = Inr (True, v') \<longrightarrow> (\<exists>s. string_str lib (mem v) p = Inr s))"

definition flat_calls :: "('f, 'v) FlatLib \<Rightarrow> ('v \<Rightarrow> bytes) \<Rightarrow> bool" where
  "flat_calls lib mem \<longleftrightarrow> (\<forall>f p v. VerifyTable lib f p v = (case p of None \<Rightarrow> Inr (True, v) | Some t \<Rightarrow> f t v))
     \<and> (\<forall>f v. (\<exists>v'. VerifyBuffer lib f v = Inr (False, v'))
          \<or> (\<exists>t v1. GetRoot lib (mem v) = Inr t \<and> mem v1 = mem v \<and> VerifyBuffer lib f v = f t v1))"

definition flat_reader :: "('f, 'v) FlatLib \<Rightarrow> ('v \<Rightarrow> bytes) \<Rightarrow> (bytes \<Rightarrow> nat \<Rightarrow> bool) \<Rightarrow> bool" where
  "flat_reader lib mem tab \<longleftrightarrow> flat_fields lib mem tab \<and> flat_calls lib mem"

lemma flat_readerD:
  assumes "flat_reader lib mem tab"
  shows "mem (new_Verifier lib b n) = take (unat n) b"
    "check_keeps mem (VerifyTableStart lib t)" "check_keeps mem (VerifyFieldU32 lib t vt)" "check_keeps mem (VerifyFieldU8 lib t vt)"
    "check_keeps mem (VerifyOffset lib t vt)" "check_keeps mem (VerifyString lib p)" "check_keeps mem (Verifier_EndTable lib)"
    "VerifyTableStart lib t v = Inr (True, v') \<Longrightarrow> tab (mem v) t"
    "tab (mem v) t \<Longrightarrow> VerifyFieldU32 lib t vt v = Inr (True, v') \<Longrightarrow> \<exists>x. GetFieldU32 lib (mem v) t vt d32 = Inr x"
    "tab (mem v) t \<Longrightarrow> VerifyFieldU8 lib t vt v = Inr (True, v') \<Longrightarrow> \<exists>x. GetFieldU8 lib (mem v) t vt d8 = Inr x"
    "tab (mem v) t \<Longrightarrow> VerifyOffset lib t vt v = Inr (True, v') \<Longrightarrow> \<exists>p. GetPointer lib (mem v) t vt = Inr p"
    "VerifyString lib (Some t) v = Inr (True, v') \<Longrightarrow> \<exists>s. string_str lib (mem v) t = Inr s"
    "VerifyTable lib f p v = (case p of None \<Rightarrow> Inr (True, v) | Some t \<Rightarrow> f t v)"
proof -
  have f: "flat_fields lib mem tab" and c: "flat_calls lib mem" using assms by (simp_all add: flat_reader_def)
  note f = f [unfolded flat_fields_def]
  show "mem (new_Verifier lib b n) = take (unat n) b" using f by simp
  show "check_keeps mem (VerifyTableStart lib t)" "check_keeps mem (VerifyFieldU32 lib t vt)" "check_keeps mem (VerifyFieldU8 lib t vt)"
    "check_keeps mem (VerifyOffset lib t vt)" "check_keeps mem (VerifyString lib p)" "check_keeps mem (Verifier_EndTable lib)"
    using f by simp_all
  show "VerifyTableStart lib t v = Inr (True, v') \<Longrightarrow> tab (mem v) t" using f by blast
  show "tab (mem v) t \<Longrightarrow> VerifyFieldU32 lib t vt v = Inr (True, v') \<Longrightarrow> \<exists>x. GetFieldU32 lib (mem v) t vt d32 = Inr x" using f by blast
  show "tab (mem v) t \<Longrightarrow> VerifyFieldU8 lib t vt v = Inr (True, v') \<Longrightarrow> \<exists>x. GetFieldU8 lib (mem v) t vt d8 = Inr x" using f by blast
  show "tab (mem v) t \<Longrightarrow> VerifyOffset lib t vt v = Inr (True, v') \<Longrightarrow> \<exists>p. GetPointer lib (mem v) t vt = Inr p" using f by blast
  show "VerifyString lib (Some t) v = Inr (True, v') \<Longrightarrow> \<exists>s. string_str lib (mem v) t = Inr s" using f by blast
  show "VerifyTable lib f p v = (case p of None \<Rightarrow> Inr (True, v) | Some t \<Rightarrow> f t v)" using c by (simp add: flat_calls_def)
qed

lemma flat_reader_root:
  assumes "flat_reader lib mem tab"
  shows "(\<exists>v'. VerifyBuffer lib f v = Inr (False, v')) \<or> (\<exists>t v1. GetRoot lib (mem v) = Inr t \<and> mem v1 = mem v \<and> VerifyBuffer lib f v = f t v1)"
  using assms unfolding flat_reader_def flat_calls_def by (elim conjE) (erule allE, erule allE, assumption)

text \<open>A check ends, leaves the memory alone, and its success shows \<open>P\<close>.\<close>

definition checked :: "('v \<Rightarrow> bytes) \<Rightarrow> 'v check \<Rightarrow> 'v \<Rightarrow> bool \<Rightarrow> bool" where
  "checked mem f v P \<longleftrightarrow> (\<exists>ok v'. f v = Inr (ok, v') \<and> mem v' = mem v \<and> (ok \<longrightarrow> P))"

lemma checkedI: "check_keeps mem f \<Longrightarrow> (\<And>v'. f v = Inr (True, v') \<Longrightarrow> P) \<Longrightarrow> checked mem f v P"
  unfolding check_keeps_def checked_def by metis

lemma and_checkI:
  assumes f: "checked mem f v P" and g: "\<And>v1. P \<Longrightarrow> mem v1 = mem v \<Longrightarrow> checked mem g v1 Q"
  shows "checked mem (and_check f g) v (P \<and> Q)"
proof -
  obtain ok v1 where r: "f v = Inr (ok, v1)" "mem v1 = mem v" "ok \<longrightarrow> P" using f by (auto simp: checked_def)
  show ?thesis
  proof (cases ok)
    case True
    then have "checked mem g v1 Q" using g r by blast
    then show ?thesis using r True by (auto simp: checked_def and_check_def)
  qed (use r in \<open>auto simp: checked_def and_check_def\<close>)
qed

lemma checked_mono: "checked mem f v P \<Longrightarrow> (P \<Longrightarrow> Q) \<Longrightarrow> checked mem f v Q"
  unfolding checked_def by blast

lemmas reader_keeps = flat_readerD(2-7) [THEN checkedI]

lemma checked_end: "flat_reader lib mem tab \<Longrightarrow> checked mem (Verifier_EndTable lib) v True"
  by (rule checkedI) (auto dest: flat_readerD(7))

lemma checked_start: "flat_reader lib mem tab \<Longrightarrow> mem v = b \<Longrightarrow> checked mem (VerifyTableStart lib t) v (tab b t)"
  by (rule checkedI) (auto dest: flat_readerD(2,8))

lemma checked_U32:
  assumes "flat_reader lib mem tab" "mem v = b" "tab b t"
  shows "checked mem (VerifyFieldU32 lib t vt) v (\<exists>x. GetFieldU32 lib b t vt d = Inr x)"
  by (rule checkedI [OF flat_readerD(3) [OF assms(1)]]) (use flat_readerD(9) [OF assms(1)] assms(2,3) in blast)

lemma checked_U8:
  assumes "flat_reader lib mem tab" "mem v = b" "tab b t"
  shows "checked mem (VerifyFieldU8 lib t vt) v (\<exists>x. GetFieldU8 lib b t vt d = Inr x)"
  by (rule checkedI [OF flat_readerD(4) [OF assms(1)]]) (use flat_readerD(10) [OF assms(1)] assms(2,3) in blast)

lemma checked_offset:
  assumes "flat_reader lib mem tab" "mem v = b" "tab b t"
  shows "checked mem (VerifyOffset lib t vt) v (\<exists>p. GetPointer lib b t vt = Inr p)"
  by (rule checkedI [OF flat_readerD(5) [OF assms(1)]]) (use flat_readerD(11) [OF assms(1)] assms(2,3) in blast)

lemma checked_message:
  assumes "flat_reader lib mem tab" "mem v = b" "\<exists>p. GetPointer lib b t 6 = Inr p"
  shows "checked mem (\<lambda>v. andThen (Chatting_message lib b t) (\<lambda>m. VerifyString lib m v)) v
    (\<forall>s. GetPointer lib b t 6 = Inr (Some s) \<longrightarrow> (\<exists>str. string_str lib b s = Inr str))"
proof -
  obtain p where p: "GetPointer lib b t 6 = Inr p" using assms(3) by blast
  have "checked mem (VerifyString lib p) v (\<forall>s. p = Some s \<longrightarrow> (\<exists>str. string_str lib b s = Inr str))"
    by (rule checkedI [OF flat_readerD(6) [OF assms(1)]]) (use flat_readerD(12) [OF assms(1)] assms(2) in blast)
  then show ?thesis using p by (simp add: Chatting_message_def checked_def)
qed

lemma Chatting_checked:
  assumes r: "flat_reader lib mem tab" and v: "mem v = b"
  shows "checked mem (Chatting_Verify lib b t) v (\<exists>x. read_body lib b PacketBody_Chatting t = Inr x)"
proof (rule checked_mono)
  show "checked mem (Chatting_Verify lib b t) v (tab b t \<and> (\<exists>x. GetFieldU32 lib b t 4 0 = Inr x) \<and> (\<exists>p. GetPointer lib b t 6 = Inr p)
      \<and> (\<forall>s. GetPointer lib b t 6 = Inr (Some s) \<longrightarrow> (\<exists>str. string_str lib b s = Inr str)) \<and> True)"
    unfolding Chatting_Verify_def
    by (intro and_checkI checked_start [OF r] checked_U32 [OF r] checked_offset [OF r] checked_message [OF r] checked_end [OF r]) (simp_all add: v)
qed (auto simp: read_body_def Chatting_id_def Chatting_message_def split: option.splits)

lemma Register_checked:
  assumes r: "flat_reader lib mem tab" and v: "mem v = b"
  shows "checked mem (Register_Verify lib b t) v (\<exists>x. read_body lib b PacketBody_Register t = Inr x)"
proof (rule checked_mono)
  show "checked mem (Register_Verify lib b t) v (tab b t \<and> (\<exists>x. GetFieldU32 lib b t 4 0 = Inr x) \<and> True)"
    unfolding Register_Verify_def by (intro and_checkI checked_start [OF r] checked_U32 [OF r] checked_end [OF r]) (simp_all add: v)
qed (auto simp: read_body_def Register_id_def)

lemma Bot_checked:
  assumes r: "flat_reader lib mem tab" and v: "mem v = b"
  shows "checked mem (Bot_Verify lib b t) v (\<exists>x. read_body lib b PacketBody_Bot t = Inr x)"
proof (rule checked_mono)
  show "checked mem (Bot_Verify lib b t) v (tab b t \<and> (\<exists>x. GetFieldU32 lib b t 4 0 = Inr x) \<and> (\<exists>x. GetFieldU32 lib b t 6 0 = Inr x) \<and> True)"
    unfolding Bot_Verify_def by (intro and_checkI checked_start [OF r] checked_U32 [OF r] checked_end [OF r]) (simp_all add: v)
qed (auto simp: read_body_def Bot_id_def Bot_count_def)

lemma VerifyPacketBody_checked:
  assumes r: "flat_reader lib mem tab" and v: "mem v = b"
  shows "checked mem (VerifyPacketBody lib b obj ty) v (\<forall>p. obj = Some p \<longrightarrow> (\<exists>x. read_body lib b ty p = Inr x))"
proof -
  have other: "\<exists>x. read_body lib b ty p = Inr x" if "ty \<noteq> 1" "ty \<noteq> 2" "ty \<noteq> 3" for p using that by (simp add: read_body_def)
  have tab: "checked mem (VerifyTable lib f obj) v (\<forall>p. obj = Some p \<longrightarrow> (\<exists>x. read_body lib b ty p = Inr x))"
    if "\<And>t. checked mem (f t) v (\<exists>x. read_body lib b ty t = Inr x)" for f
    using that by (cases obj) (auto simp: checked_def flat_readerD(13) [OF r])
  show ?thesis
    using tab [of "Chatting_Verify lib b"] tab [of "Register_Verify lib b"] tab [of "Bot_Verify lib b"] other
      Chatting_checked [OF r v] Register_checked [OF r v] Bot_checked [OF r v]
    by (auto simp: VerifyPacketBody_def checked_def)
qed

lemma Packet_checked:
  assumes r: "flat_reader lib mem tab" and v: "mem v = b"
  shows "checked mem (Packet_Verify lib b t) v (\<exists>ty obj. Packet_body_type lib b t = Inr ty \<and> Packet_body lib b t = Inr obj
    \<and> (\<forall>p. obj = Some p \<longrightarrow> (\<exists>x. read_body lib b ty p = Inr x)))" (is "checked _ _ _ ?P")
proof (rule checked_mono)
  have body: "checked mem (\<lambda>v. andThen (Packet_body lib b t) (\<lambda>obj. andThen (Packet_body_type lib b t) (\<lambda>ty. VerifyPacketBody lib b obj ty v))) v1 ?P"
    if f: "\<exists>x. GetFieldU8 lib b t 4 0 = Inr x" "\<exists>p. GetPointer lib b t 6 = Inr p" "mem v1 = b" for v1
  proof -
    obtain ty obj where "GetFieldU8 lib b t 4 0 = Inr ty" "GetPointer lib b t 6 = Inr obj" using f(1,2) by blast
    then show ?thesis using VerifyPacketBody_checked [OF r f(3), of obj ty] by (auto simp: Packet_body_def Packet_body_type_def checked_def)
  qed
  show "checked mem (Packet_Verify lib b t) v (tab b t \<and> (\<exists>x. GetFieldU8 lib b t 4 0 = Inr x) \<and> (\<exists>p. GetPointer lib b t 6 = Inr p) \<and> ?P \<and> True)"
    unfolding Packet_Verify_def
    by (intro and_checkI checked_start [OF r] checked_U8 [OF r] checked_offset [OF r] body checked_end [OF r]) (simp_all add: v)
qed auto


section \<open>What the builders wrote is read back\<close>

text \<open>
  What the builder of the library promises. \<open>objs\<close> are the finished objects by their offset, \<open>cur\<close> is the table under
  construction, \<open>made\<close> counts the objects, of which there is room for 65536, and \<open>lim\<close> bounds the length of a string.
  A field equal to its default and an offset of 0 are left out.
\<close>

datatype ffield = FU32 u32 | FU8 u8 | FRef u32

datatype fobject = FTable "u16 \<rightharpoonup> ffield" | FString bytes

record 'f fview =
  objs :: "'f \<Rightarrow> u32 \<rightharpoonup> fobject"
  cur :: "'f \<Rightarrow> (u32 \<times> (u16 \<rightharpoonup> ffield)) option"
  made :: "'f \<Rightarrow> nat"

definition fresh_object :: "'f fview \<Rightarrow> 'f \<Rightarrow> fobject \<Rightarrow> u32 \<times> 'f \<Rightarrow> bool" where
  "fresh_object fv f x r \<longleftrightarrow> fst r \<noteq> 0 \<and> objs fv f (fst r) = None \<and> objs fv (snd r) = (objs fv f)(fst r \<mapsto> x) \<and> cur fv (snd r) = None
     \<and> made fv (snd r) = Suc (made fv f)"

definition same_field :: "'f fview \<Rightarrow> u32 \<Rightarrow> (u16 \<rightharpoonup> ffield) \<Rightarrow> 'f \<Rightarrow> 'f \<Rightarrow> bool" where
  "same_field fv s m f f' \<longleftrightarrow> objs fv f' = objs fv f \<and> cur fv f' = Some (s, m) \<and> made fv f' = made fv f"

definition flat_builder :: "('f, 'v) FlatLib \<Rightarrow> 'f fview \<Rightarrow> nat \<Rightarrow> bool" where
  "flat_builder lib fv lim \<longleftrightarrow>
     objs fv (new_FlatBufferBuilder lib) = Map.empty \<and> cur fv (new_FlatBufferBuilder lib) = None \<and> made fv (new_FlatBufferBuilder lib) = 0
     \<and> (\<forall>f. cur fv f = None \<longrightarrow> same_field fv (fst (StartTable lib f)) Map.empty f (snd (StartTable lib f)))
     \<and> (\<forall>f s m vt x d. cur fv f = Some (s, m) \<longrightarrow> same_field fv s (if x = d then m else m(vt \<mapsto> FU32 x)) f (AddElementU32 lib vt x d f))
     \<and> (\<forall>f s m vt x d. cur fv f = Some (s, m) \<longrightarrow> same_field fv s (if x = d then m else m(vt \<mapsto> FU8 x)) f (AddElementU8 lib vt x d f))
     \<and> (\<forall>f s m vt x. cur fv f = Some (s, m) \<longrightarrow> same_field fv s (if x = 0 then m else m(vt \<mapsto> FRef x)) f (AddOffset lib vt x f))
     \<and> (\<forall>f s m. cur fv f = Some (s, m) \<longrightarrow> made fv f < 65536 \<longrightarrow> fresh_object fv f (FTable m) (EndTable lib s f))
     \<and> (\<forall>f str. cur fv f = None \<longrightarrow> made fv f < 65536 \<longrightarrow> length str < lim \<longrightarrow> fresh_object fv f (FString str) (CreateString lib str f))"

text \<open>
  What the accessors promise of a buffer that was finished: each object has its place \<open>pos\<close> in it, whatever follows
  the buffer in memory, and an absent field reads as its default or as null.
\<close>

definition reads_object :: "('f, 'v) FlatLib \<Rightarrow> bytes \<Rightarrow> (u32 \<Rightarrow> nat) \<Rightarrow> u32 \<Rightarrow> fobject \<Rightarrow> bool" where
  "reads_object lib b pos r x \<longleftrightarrow> (case x of
     FString str \<Rightarrow> string_str lib b (pos r) = Inr str
   | FTable m \<Rightarrow> \<forall>vt.
       (m vt = None \<longrightarrow> (\<forall>d. GetFieldU32 lib b (pos r) vt d = Inr d) \<and> (\<forall>d. GetFieldU8 lib b (pos r) vt d = Inr d)
          \<and> GetPointer lib b (pos r) vt = Inr None)
       \<and> (\<forall>y. m vt = Some (FU32 y) \<longrightarrow> (\<forall>d. GetFieldU32 lib b (pos r) vt d = Inr y))
       \<and> (\<forall>y. m vt = Some (FU8 y) \<longrightarrow> (\<forall>d. GetFieldU8 lib b (pos r) vt d = Inr y))
       \<and> (\<forall>y. m vt = Some (FRef y) \<longrightarrow> GetPointer lib b (pos r) vt = Inr (Some (pos y))))"

definition flat_finished :: "('f, 'v) FlatLib \<Rightarrow> 'f fview \<Rightarrow> bool" where
  "flat_finished lib fv \<longleftrightarrow> (\<forall>f r m rest. cur fv f = None \<longrightarrow> objs fv f r = Some (FTable m) \<longrightarrow>
     (\<exists>pos. GetRoot lib (GetBuffer lib (Finish lib r f) @ rest) = Inr (pos r)
        \<and> (\<forall>q x. objs fv f q = Some x \<longrightarrow> reads_object lib (GetBuffer lib (Finish lib r f) @ rest) pos q x)))"

lemma flat_builderD:
  assumes "flat_builder lib fv lim"
  shows "objs fv (new_FlatBufferBuilder lib) = Map.empty" "cur fv (new_FlatBufferBuilder lib) = None" "made fv (new_FlatBufferBuilder lib) = 0"
    "cur fv f = None \<Longrightarrow> same_field fv (fst (StartTable lib f)) Map.empty f (snd (StartTable lib f))"
    "cur fv f = Some (s, m) \<Longrightarrow> same_field fv s (if x = d then m else m(vt \<mapsto> FU32 x)) f (AddElementU32 lib vt x d f)"
    "cur fv f = Some (s, m) \<Longrightarrow> same_field fv s (if x8 = d8 then m else m(vt \<mapsto> FU8 x8)) f (AddElementU8 lib vt x8 d8 f)"
    "cur fv f = Some (s, m) \<Longrightarrow> same_field fv s (if x = 0 then m else m(vt \<mapsto> FRef x)) f (AddOffset lib vt x f)"
    "cur fv f = Some (s, m) \<Longrightarrow> made fv f < 65536 \<Longrightarrow> fresh_object fv f (FTable m) (EndTable lib s f)"
    "cur fv f = None \<Longrightarrow> made fv f < 65536 \<Longrightarrow> length str < lim \<Longrightarrow> fresh_object fv f (FString str) (CreateString lib str f)"
proof -
  note h = assms [unfolded flat_builder_def]
  show "objs fv (new_FlatBufferBuilder lib) = Map.empty" "cur fv (new_FlatBufferBuilder lib) = None" "made fv (new_FlatBufferBuilder lib) = 0"
    using h by simp_all
  show "cur fv f = None \<Longrightarrow> same_field fv (fst (StartTable lib f)) Map.empty f (snd (StartTable lib f))"
    using h [THEN conjunct2, THEN conjunct2, THEN conjunct2, THEN conjunct1] by blast
  show "cur fv f = Some (s, m) \<Longrightarrow> same_field fv s (if x = d then m else m(vt \<mapsto> FU32 x)) f (AddElementU32 lib vt x d f)"
    using h [THEN conjunct2, THEN conjunct2, THEN conjunct2, THEN conjunct2, THEN conjunct1] by blast
  show "cur fv f = Some (s, m) \<Longrightarrow> same_field fv s (if x8 = d8 then m else m(vt \<mapsto> FU8 x8)) f (AddElementU8 lib vt x8 d8 f)"
    using h [THEN conjunct2, THEN conjunct2, THEN conjunct2, THEN conjunct2, THEN conjunct2, THEN conjunct1] by blast
  show "cur fv f = Some (s, m) \<Longrightarrow> same_field fv s (if x = 0 then m else m(vt \<mapsto> FRef x)) f (AddOffset lib vt x f)"
    using h [THEN conjunct2, THEN conjunct2, THEN conjunct2, THEN conjunct2, THEN conjunct2, THEN conjunct2, THEN conjunct1] by blast
  show "cur fv f = Some (s, m) \<Longrightarrow> made fv f < 65536 \<Longrightarrow> fresh_object fv f (FTable m) (EndTable lib s f)"
    using h [THEN conjunct2, THEN conjunct2, THEN conjunct2, THEN conjunct2, THEN conjunct2, THEN conjunct2, THEN conjunct2, THEN conjunct1] by blast
  show "cur fv f = None \<Longrightarrow> made fv f < 65536 \<Longrightarrow> length str < lim \<Longrightarrow> fresh_object fv f (FString str) (CreateString lib str f)"
    using h [THEN conjunct2, THEN conjunct2, THEN conjunct2, THEN conjunct2, THEN conjunct2, THEN conjunct2, THEN conjunct2, THEN conjunct2] by blast
qed

text \<open>The table each builder writes.\<close>

definition field32 :: "u16 \<Rightarrow> u32 \<Rightarrow> (u16 \<rightharpoonup> ffield) \<Rightarrow> (u16 \<rightharpoonup> ffield)" where
  "field32 vt x m = (if x = 0 then m else m(vt \<mapsto> FU32 x))"

definition field8 :: "u16 \<Rightarrow> u8 \<Rightarrow> (u16 \<rightharpoonup> ffield) \<Rightarrow> (u16 \<rightharpoonup> ffield)" where
  "field8 vt x m = (if x = 0 then m else m(vt \<mapsto> FU8 x))"

definition field_ref :: "u16 \<Rightarrow> u32 \<Rightarrow> (u16 \<rightharpoonup> ffield) \<Rightarrow> (u16 \<rightharpoonup> ffield)" where
  "field_ref vt x m = (if x = 0 then m else m(vt \<mapsto> FRef x))"

definition message_map :: "u32 \<Rightarrow> u32 \<Rightarrow> (u16 \<rightharpoonup> ffield)" where
  "message_map ident str = field32 4 ident (field_ref 6 str Map.empty)"

definition register_map :: "u32 \<Rightarrow> (u16 \<rightharpoonup> ffield)" where
  "register_map ident = field32 4 ident Map.empty"

definition bot_map :: "u32 \<Rightarrow> u32 \<Rightarrow> (u16 \<rightharpoonup> ffield)" where
  "bot_map ident cnt = field32 4 ident (field32 6 cnt Map.empty)"

definition packet_map :: "u8 \<Rightarrow> u32 \<Rightarrow> (u16 \<rightharpoonup> ffield)" where
  "packet_map ty obj = field8 4 ty (field_ref 6 obj Map.empty)"

lemmas field_defs = message_map_def register_map_def bot_map_def packet_map_def field32_def field8_def field_ref_def

lemma same_field_trans: "same_field fv s m f f1 \<Longrightarrow> same_field fv s m1 f1 f2 \<Longrightarrow> same_field fv s m1 f f2"
  by (simp add: same_field_def)

lemma same_field_cur: "same_field fv s m f f1 \<Longrightarrow> cur fv f1 = Some (s, m)"
  by (simp add: same_field_def)

lemma same_field_fresh: "same_field fv s m f f1 \<Longrightarrow> fresh_object fv f1 x r \<Longrightarrow> fresh_object fv f x r"
  by (simp add: same_field_def fresh_object_def)

lemma table_built:
  assumes B: "flat_builder lib fv lim" and f: "cur fv f = None" "made fv f < 65536"
    and h: "\<And>s g. cur fv g = Some (s, Map.empty) \<Longrightarrow> same_field fv s m g (h g)"
  shows "fresh_object fv f (FTable m) (EndTable lib (fst (StartTable lib f)) (h (snd (StartTable lib f))))"
proof -
  let ?s = "fst (StartTable lib f)" and ?g = "snd (StartTable lib f)"
  have 1: "same_field fv ?s Map.empty f ?g" by (rule flat_builderD(4) [OF B f(1)])
  have 2: "same_field fv ?s m f (h ?g)" by (rule same_field_trans [OF 1 h [OF same_field_cur [OF 1]]])
  have "made fv (h ?g) < 65536" using 2 f(2) by (simp add: same_field_def)
  then show ?thesis by (rule same_field_fresh [OF 2 flat_builderD(8) [OF B same_field_cur [OF 2]]])
qed

lemma fields_added:
  assumes "flat_builder lib fv lim" "cur fv f = Some (s, m)"
  shows "same_field fv s (field32 vt x m) f (AddElementU32 lib vt x 0 f)" "same_field fv s (field8 vt y m) f (AddElementU8 lib vt y 0 f)"
    "same_field fv s (field_ref vt x m) f (AddOffset lib vt x f)"
  using flat_builderD(5-7) [OF assms] by (simp_all add: field_defs)

lemma tables_built:
  assumes B: "flat_builder lib fv lim" and f: "cur fv f = None" "made fv f < 65536"
  shows "fresh_object fv f (FTable (message_map i r)) (CreateChatting lib i r f)"
    "fresh_object fv f (FTable (register_map i)) (CreateRegister lib i f)"
    "fresh_object fv f (FTable (bot_map i n)) (CreateBot lib i n f)"
    "fresh_object fv f (FTable (packet_map ty r)) (CreatePacket lib ty r f)"
proof -
  note add = fields_added [OF B]
  have two: "same_field fv s (field32 4 i (field_ref 6 r Map.empty)) g (AddElementU32 lib 4 i 0 (AddOffset lib 6 r g))"
    "same_field fv s (field32 4 i (field32 6 n Map.empty)) g (AddElementU32 lib 4 i 0 (AddElementU32 lib 6 n 0 g))"
    "same_field fv s (field8 4 ty (field_ref 6 r Map.empty)) g (AddElementU8 lib 4 ty 0 (AddOffset lib 6 r g))"
    if g: "cur fv g = Some (s, Map.empty)" for s g
    by (rule same_field_trans [OF add(3) [OF g] add(1) [OF same_field_cur [OF add(3) [OF g]]]]
      same_field_trans [OF add(1) [OF g] add(1) [OF same_field_cur [OF add(1) [OF g]]]]
      same_field_trans [OF add(3) [OF g] add(2) [OF same_field_cur [OF add(3) [OF g]]]])+
  show "fresh_object fv f (FTable (message_map i r)) (CreateChatting lib i r f)"
    using table_built [OF B f, of _ "\<lambda>g. AddElementU32 lib 4 i 0 (AddOffset lib 6 r g)", OF two(1)]
    by (simp add: CreateChatting_def message_map_def split_beta Let_def)
  show "fresh_object fv f (FTable (register_map i)) (CreateRegister lib i f)"
    using table_built [OF B f, of _ "\<lambda>g. AddElementU32 lib 4 i 0 g", OF add(1)]
    by (simp add: CreateRegister_def register_map_def split_beta Let_def)
  show "fresh_object fv f (FTable (bot_map i n)) (CreateBot lib i n f)"
    using table_built [OF B f, of _ "\<lambda>g. AddElementU32 lib 4 i 0 (AddElementU32 lib 6 n 0 g)", OF two(2)]
    by (simp add: CreateBot_def bot_map_def split_beta Let_def)
  show "fresh_object fv f (FTable (packet_map ty r)) (CreatePacket lib ty r f)"
    using table_built [OF B f, of _ "\<lambda>g. AddElementU8 lib 4 ty 0 (AddOffset lib 6 r g)", OF two(3)]
    by (simp add: CreatePacket_def packet_map_def split_beta Let_def)
qed

text \<open>The table of a body, and what it refers to, among the finished objects.\<close>

definition holds_body :: "(u32 \<rightharpoonup> fobject) \<Rightarrow> u32 \<Rightarrow> PacketBody \<Rightarrow> bool" where
  "holds_body ob r x \<longleftrightarrow> (case x of
     Chatting i None \<Rightarrow> ob r = Some (FTable (message_map i 0))
   | Chatting i (Some m) \<Rightarrow> \<exists>q. q \<noteq> 0 \<and> ob q = Some (FString m) \<and> ob r = Some (FTable (message_map i q))
   | Register i \<Rightarrow> ob r = Some (FTable (register_map i))
   | Bot i n \<Rightarrow> ob r = Some (FTable (bot_map i n)))"

definition body_fits :: "nat \<Rightarrow> PacketBody \<Rightarrow> bool" where
  "body_fits lim x \<longleftrightarrow> (case x of Chatting _ (Some m) \<Rightarrow> length m < lim | _ \<Rightarrow> True)"

lemma holds_body_mono:
  assumes "holds_body ob r x" "ob \<subseteq>\<^sub>m ob'"
  shows "holds_body ob' r x"
proof -
  have m: "ob' q = Some y" if "ob q = Some y" for q y using assms(2) that by (force simp: map_le_def dom_def)
  show ?thesis using assms(1) by (auto simp: holds_body_def m split: PacketBody.splits option.splits)
qed

lemma fresh_objectD:
  assumes "fresh_object fv f x r"
  shows "fst r \<noteq> 0" "objs fv (snd r) (fst r) = Some x" "objs fv f \<subseteq>\<^sub>m objs fv (snd r)" "cur fv (snd r) = None" "made fv (snd r) = Suc (made fv f)"
  using assms by (auto simp: fresh_object_def map_le_def)

lemma body_built:
  assumes B: "flat_builder lib fv lim" and f: "cur fv f = None" "made fv f < 65535" and x: "body_fits lim x"
    and r: "build_body lib x f = (q, f1)"
  shows "q \<noteq> 0 \<and> cur fv f1 = None \<and> made fv f1 \<le> made fv f + 2 \<and> holds_body (objs fv f1) q x"
proof -
  have m: "made fv f < 65536" using f(2) by simp
  show ?thesis
  proof (cases x)
    case (Chatting i mo)
    show ?thesis
    proof (cases mo)
      case None
      with Chatting show ?thesis using fresh_objectD [OF tables_built(1) [OF B f(1) m, of i 0]] r
        by (auto simp: build_body_def CreateChattingDirect_def holds_body_def)
    next
      case (Some str)
      obtain p g where s: "CreateString lib str f = (p, g)" by (cases "CreateString lib str f")
      have l: "length str < lim" using x Chatting Some by (simp add: body_fits_def)
      have 1: "fresh_object fv f (FString str) (p, g)" using flat_builderD(9) [OF B f(1) m l] s by simp
      have 2: "fresh_object fv g (FTable (message_map i p)) (q, f1)"
        using tables_built(1) [OF B, of g i p] fresh_objectD [OF 1] f(2) r Chatting Some s by (simp add: build_body_def CreateChattingDirect_def)
      show ?thesis using fresh_objectD [OF 1] fresh_objectD [OF 2] Chatting Some
        by (auto simp: holds_body_def map_le_def dom_def intro!: exI [of _ p])
    qed
  next
    case (Register i)
    then show ?thesis using fresh_objectD [OF tables_built(2) [OF B f(1) m, of i]] r by (auto simp: build_body_def holds_body_def)
  next
    case (Bot i n)
    then show ?thesis using fresh_objectD [OF tables_built(3) [OF B f(1) m, of i n]] r by (auto simp: build_body_def holds_body_def)
  qed
qed

lemma body_read:
  assumes h: "holds_body ob q x" and R: "\<And>a y. ob a = Some y \<Longrightarrow> reads_object lib b pos a y"
  shows "read_body lib b (type_of_body x) (pos q) = Inr (Some x)"
proof -
  note acc = read_body_def Chatting_id_def Chatting_message_def Register_id_def Bot_id_def Bot_count_def
  note R = R [unfolded reads_object_def]
  show ?thesis
  proof (cases x)
    case (Chatting i mo)
    then show ?thesis
    proof (cases mo)
      case None
      then show ?thesis using Chatting h R [of q "FTable (message_map i 0)"] by (simp add: holds_body_def acc field_defs split: if_splits)
    next
      case (Some m)
      then obtain p where "p \<noteq> 0" "ob p = Some (FString m)" "ob q = Some (FTable (message_map i p))"
        using h Chatting by (auto simp: holds_body_def)
      then show ?thesis using Chatting Some R [of p "FString m"] R [of q "FTable (message_map i p)"]
        by (simp add: acc field_defs split: if_splits)
    qed
  next
    case (Register i)
    then show ?thesis using h R [of q "FTable (register_map i)"] by (simp add: holds_body_def acc field_defs split: if_splits)
  next
    case (Bot i n)
    then show ?thesis using h R [of q "FTable (bot_map i n)"] by (simp add: holds_body_def acc field_defs split: if_splits)
  qed
qed

lemma written_read:
  assumes "flat_builder lib fv lim" "flat_finished lib fv" "body_fits lim x"
  shows "read_packet lib (write_packet lib x @ rest) = Inr \<lparr>body_type = type_of_body x, body = Some x\<rparr>"
proof -
  note B = assms(1)
  obtain q f1 where b: "build_body lib x (new_FlatBufferBuilder lib) = (q, f1)" by force
  have 1: "q \<noteq> 0" "cur fv f1 = None" "made fv f1 < 65536" "holds_body (objs fv f1) q x"
    using body_built [OF B _ _ assms(3) b] flat_builderD(1-3) [OF B] by auto
  obtain r f2 where p: "CreatePacket lib (type_of_body x) q f1 = (r, f2)" by force
  have 2: "fresh_object fv f1 (FTable (packet_map (type_of_body x) q)) (r, f2)"
    using tables_built(4) [OF B 1(2,3), of "type_of_body x" q] p by simp
  note 2 = fresh_objectD [OF 2, simplified]
  define buf where "buf = write_packet lib x @ rest"
  have w: "buf = GetBuffer lib (Finish lib r f2) @ rest" by (simp add: buf_def write_packet_def FinishPacketBuffer_with_def b p)
  obtain pos where root: "GetRoot lib buf = Inr (pos r)" and R: "\<And>a y. objs fv f2 a = Some y \<Longrightarrow> reads_object lib buf pos a y"
    using assms(2) 2(2,4) unfolding flat_finished_def w by blast
  have ty: "type_of_body x \<noteq> 0" by (cases x) auto
  have "GetFieldU8 lib buf (pos r) 4 0 = Inr (type_of_body x)" "GetPointer lib buf (pos r) 6 = Inr (Some (pos q))"
    using R [OF 2(2)] 1(1) ty by (simp_all add: reads_object_def field_defs)
  moreover have "read_body lib buf (type_of_body x) (pos q) = Inr (Some x)"
    by (rule body_read [OF holds_body_mono [OF 1(4) 2(3)] R])
  ultimately show ?thesis using root
    by (simp add: read_packet_def GetPacket_at_def Packet_body_as_def Packet_body_type_def Packet_body_def flip: buf_def)
qed

text \<open>
  C21. Writing and reading a packet is a round trip: a body built by the generated builders, wrapped in a packet and finished is read
  back by the generated accessors as it was, with its type, and without a read outside the buffer, whatever follows it in memory;
  fields that the builder leaves out because they are 0 are read as 0, and a missing message as null.
  So the generated code keeps the law that the models of the applications assume of it.
\<close>

theorem packet_roundtrip:
  assumes "flat_builder lib fv lim" "flat_finished lib fv" "body_fits lim x"
  shows "read_packet lib (write_packet lib x @ rest) = Inr \<lparr>body_type = type_of_body x, body = Some x\<rparr>
    \<and> GetPacket (flat_of lib) (FinishPacketBuffer (flat_of lib) x @ rest) = \<lparr>body_type = type_of_body x, body = Some x\<rparr>"
  using written_read [OF assms] by (simp add: flat_of_def)

section \<open>A library that keeps these promises\<close>

text \<open>
  Objects are numbered from 1 and written one after the other, each list with a 1 before every element and a 0 at its end. A check
  of the verifier reads the field itself and succeeds when the read does.
\<close>

datatype xobject = XTable "(u16 \<times> ffield) list" | XString bytes

record xbuilder =
  xdone :: "xobject list"
  xcur :: "(u16 \<times> ffield) list option"
  xroot :: u32

fun put_list :: "('a \<Rightarrow> bytes) \<Rightarrow> 'a list \<Rightarrow> bytes" where
  "put_list enc [] = [0]"
| "put_list enc (x # xs) = 1 # enc x @ put_list enc xs"

fun get_list :: "nat \<Rightarrow> (bytes \<Rightarrow> ('a \<times> bytes) option) \<Rightarrow> bytes \<Rightarrow> ('a list \<times> bytes) option" where
  "get_list (Suc n) dec (c # b) = (if c = 0 then Some ([], b) else
     case dec b of None \<Rightarrow> None | Some (x, b1) \<Rightarrow> (case get_list n dec b1 of None \<Rightarrow> None | Some (xs, b2) \<Rightarrow> Some (x # xs, b2)))"
| "get_list _ _ _ = None"

fun put_byte :: "byte \<Rightarrow> bytes" where
  "put_byte c = [c]"

fun get_byte :: "bytes \<Rightarrow> (byte \<times> bytes) option" where
  "get_byte (c # b) = Some (c, b)"
| "get_byte [] = None"

fun put_field :: "u16 \<times> ffield \<Rightarrow> bytes" where
  "put_field (vt, FU32 x) = 0 # le16 vt @ le32 x"
| "put_field (vt, FU8 x) = 1 # le16 vt @ [x, 0, 0, 0]"
| "put_field (vt, FRef x) = 2 # le16 vt @ le32 x"

definition get_field :: "bytes \<Rightarrow> ((u16 \<times> ffield) \<times> bytes) option" where
  "get_field b = (if length b < 7 then None else Some ((rd16 b 1,
     if b ! 0 = 0 then FU32 (rd32 b 3) else if b ! 0 = 1 then FU8 (b ! 3) else FRef (rd32 b 3)), drop 7 b))"

fun put_object :: "xobject \<Rightarrow> bytes" where
  "put_object (XTable kv) = 0 # put_list put_field kv"
| "put_object (XString s) = 1 # put_list put_byte s"

fun get_object :: "bytes \<Rightarrow> (xobject \<times> bytes) option" where
  "get_object [] = None"
| "get_object (c # b) = (if c = 0 then (case get_list (length b) get_field b of None \<Rightarrow> None | Some (kv, r) \<Rightarrow> Some (XTable kv, r))
     else (case get_list (length b) get_byte b of None \<Rightarrow> None | Some (s, r) \<Rightarrow> Some (XString s, r)))"

definition get_buffer :: "bytes \<Rightarrow> (u32 \<times> xobject list) option" where
  "get_buffer b = (if length b < 4 then None else
     (case get_list (length b) get_object (drop 4 b) of None \<Rightarrow> None | Some (xs, _) \<Rightarrow> Some (rd32 b 0, xs)))"

definition object_at :: "bytes \<Rightarrow> nat \<Rightarrow> xobject option" where
  "object_at b p = (case get_buffer b of None \<Rightarrow> None | Some (_, xs) \<Rightarrow> if 0 < p \<and> p \<le> length xs then Some (xs ! (p - 1)) else None)"

definition table_field :: "bytes \<Rightarrow> nat \<Rightarrow> u16 \<Rightarrow> ffield option result" where
  "table_field b p vt = (case object_at b p of Some (XTable kv) \<Rightarrow> Inr (map_of kv vt) | _ \<Rightarrow> Inl BufferOverrun)"

definition readable :: "'a result \<Rightarrow> bool" where
  "readable r = (case r of Inl _ \<Rightarrow> False | Inr _ \<Rightarrow> True)"

definition add_object :: "xobject \<Rightarrow> xbuilder \<Rightarrow> u32 \<times> xbuilder" where
  "add_object x f = (of_nat (Suc (length (xdone f))), f\<lparr>xdone := xdone f @ [x], xcur := None\<rparr>)"

definition add_field :: "bool \<Rightarrow> u16 \<Rightarrow> ffield \<Rightarrow> xbuilder \<Rightarrow> xbuilder" where
  "add_field skip vt x f = (if skip then f else f\<lparr>xcur := map_option (\<lambda>kv. (vt, x) # kv) (xcur f)\<rparr>)"

definition xU32 :: "bytes \<Rightarrow> nat \<Rightarrow> u16 \<Rightarrow> u32 \<Rightarrow> u32 result" where
  "xU32 b p vt d = andThen (table_field b p vt)
     (\<lambda>y. case y of None \<Rightarrow> Inr d | Some (FU32 x) \<Rightarrow> Inr x | _ \<Rightarrow> Inl BufferOverrun)"

definition xU8 :: "bytes \<Rightarrow> nat \<Rightarrow> u16 \<Rightarrow> u8 \<Rightarrow> u8 result" where
  "xU8 b p vt d = andThen (table_field b p vt)
     (\<lambda>y. case y of None \<Rightarrow> Inr d | Some (FU8 x) \<Rightarrow> Inr x | _ \<Rightarrow> Inl BufferOverrun)"

definition xPointer :: "bytes \<Rightarrow> nat \<Rightarrow> u16 \<Rightarrow> nat option result" where
  "xPointer b p vt = andThen (table_field b p vt)
     (\<lambda>y. case y of None \<Rightarrow> Inr None | Some (FRef x) \<Rightarrow> Inr (Some (unat x)) | _ \<Rightarrow> Inl BufferOverrun)"

definition xString :: "bytes \<Rightarrow> nat \<Rightarrow> bytes result" where
  "xString b p = (case object_at b p of Some (XString s) \<Rightarrow> Inr s | _ \<Rightarrow> Inl BufferOverrun)"

definition xRoot :: "bytes \<Rightarrow> nat result" where
  "xRoot b = (case get_buffer b of None \<Rightarrow> Inl BufferOverrun | Some (r, _) \<Rightarrow> Inr (unat r))"

definition example_lib :: "(xbuilder, bytes) FlatLib" where
  "example_lib = \<lparr>GetRoot = xRoot, GetFieldU32 = xU32, GetFieldU8 = xU8, GetPointer = xPointer, string_str = xString,
     new_Verifier = (\<lambda>b n. take (unat n) b),
     VerifyTableStart = (\<lambda>t b. Inr (readable (table_field b t 0), b)),
     VerifyFieldU32 = (\<lambda>t vt b. Inr (readable (xU32 b t vt 0), b)),
     VerifyFieldU8 = (\<lambda>t vt b. Inr (readable (xU8 b t vt 0), b)),
     VerifyOffset = (\<lambda>t vt b. Inr (readable (xPointer b t vt), b)),
     VerifyString = (\<lambda>p b. Inr (case p of None \<Rightarrow> True | Some q \<Rightarrow> readable (xString b q), b)),
     Verifier_EndTable = (\<lambda>b. Inr (True, b)),
     VerifyTable = (\<lambda>f p b. case p of None \<Rightarrow> Inr (True, b) | Some t \<Rightarrow> f t b),
     VerifyBuffer = (\<lambda>f b. case xRoot b of Inl _ \<Rightarrow> Inr (False, b) | Inr t \<Rightarrow> f t b),
     new_FlatBufferBuilder = \<lparr>xdone = [], xcur = None, xroot = 0\<rparr>,
     StartTable = (\<lambda>f. (0, f\<lparr>xcur := Some []\<rparr>)),
     AddElementU32 = (\<lambda>vt x d. add_field (x = d) vt (FU32 x)),
     AddElementU8 = (\<lambda>vt x d. add_field (x = d) vt (FU8 x)),
     AddOffset = (\<lambda>vt x. add_field (x = 0) vt (FRef x)),
     EndTable = (\<lambda>_ f. add_object (XTable (case xcur f of None \<Rightarrow> [] | Some kv \<Rightarrow> kv)) f),
     CreateString = (\<lambda>s. add_object (XString s)),
     Finish = (\<lambda>r f. f\<lparr>xroot := r\<rparr>),
     GetBuffer = (\<lambda>f. le32 (xroot f) @ put_list put_object (xdone f))\<rparr>"

fun object_of :: "xobject \<Rightarrow> fobject" where
  "object_of (XTable kv) = FTable (map_of kv)"
| "object_of (XString s) = FString s"

definition example_view :: "xbuilder fview" where
  "example_view = \<lparr>objs = (\<lambda>f r. if r = 0 \<or> length (xdone f) < unat r then None else Some (object_of (xdone f ! (unat r - 1)))),
     cur = (\<lambda>f. map_option (\<lambda>kv. (0, map_of kv)) (xcur f)), made = (\<lambda>f. length (xdone f))\<rparr>"

lemma get_put_list:
  assumes "\<And>x r. dec (enc x @ r) = Some (x, r)" "length xs < n"
  shows "get_list n dec (put_list enc xs @ rest) = Some (xs, rest)"
  using assms(2)
proof (induction xs arbitrary: n)
  case Nil
  then show ?case by (cases n) auto
next
  case (Cons x xs)
  then show ?case using assms(1) by (cases n) auto
qed

lemma length_put_list: "length xs < length (put_list enc xs)"
  by (induction xs) auto

lemma get_put_field: "get_field (put_field x @ r) = Some (x, r)"
proof -
  have 2: "rd16 (c # le16 vt @ b) (Suc 0) = vt" for c vt b using rd16_le16 [of vt] by (simp add: rd16_def le16_def)
  have 4: "rd32 (c # le16 vt @ le32 y @ b) 3 = y" for c vt y b using rd32_le32 [of y] by (simp add: rd32_def le32_def le16_def eval_nat_numeral)
  have l: "length (le16 vt) = 2" "length (le32 y) = 4" for vt y by (simp_all add: le16_def le32_def)
  have 1: "(le16 vt @ y # b) ! 2 = y" for vt y b by (simp add: le16_def eval_nat_numeral)
  show ?thesis by (cases x rule: put_field.cases) (simp_all add: get_field_def 1 2 4 l)
qed

lemma get_put_object: "get_object (put_object x @ r) = Some (x, r)"
proof (cases x)
  case (XTable kv)
  then show ?thesis
    using get_put_list [of get_field put_field, OF get_put_field, of kv "length (put_list put_field kv @ r)" r] length_put_list [of kv put_field] by simp
next
  case (XString s)
  then show ?thesis
    using get_put_list [of get_byte put_byte s "length (put_list put_byte s @ r)" r] length_put_list [of s put_byte] by simp
qed

lemma get_put_buffer: "get_buffer (le32 r @ put_list put_object xs @ rest) = Some (r, xs)"
proof -
  have 4: "rd32 (le32 r @ b) 0 = r" for b using rd32_le32 [of r] by (simp add: rd32_def le32_def)
  have l: "length (le32 r) = 4" by (simp add: le32_def)
  have "get_list (length (le32 r @ put_list put_object xs @ rest)) get_object (put_list put_object xs @ rest) = Some (xs, rest)"
    using length_put_list [of xs put_object] by (intro get_put_list get_put_object) simp
  then show ?thesis by (simp add: get_buffer_def 4 l)
qed

lemma fresh_number:
  assumes "length (xdone f) < 65536"
  shows "fresh_object example_view f (object_of x) (add_object x f)"
proof -
  have u: "unat (of_nat (Suc (length (xdone f))) :: u32) = Suc (length (xdone f))" by (rule of_nat_inverse [OF refl]) (use assms in simp)
  have ne: "of_nat (Suc (length (xdone f))) \<noteq> (0 :: u32)" using u by (metis nat.distinct(1) unat_0)
  have "objs example_view (snd (add_object x f)) q = ((objs example_view f)(fst (add_object x f) \<mapsto> object_of x)) q" for q
    using u ne unat_eq_zero [of q] by (cases "unat q = Suc (length (xdone f))") (auto simp: example_view_def add_object_def nth_append word_unat_eq_iff)
  then show ?thesis using u ne by (auto simp: fresh_object_def add_object_def example_view_def)
qed

lemma example_builder: "flat_builder example_lib example_view lim"
proof -
  have add: "same_field example_view s (if skip then m else m(vt \<mapsto> x)) f (add_field skip vt x f)" if h: "cur example_view f = Some (s, m)" for s m skip vt x f
    using h by (auto simp: example_view_def same_field_def add_field_def)
  have fin: "fresh_object example_view f (FTable m) (add_object (XTable (case xcur f of None \<Rightarrow> [] | Some kv \<Rightarrow> kv)) f)"
    if h: "cur example_view f = Some (s, m)" "made example_view f < 65536" for f s m
    using fresh_number [of f "XTable (case xcur f of None \<Rightarrow> [] | Some kv \<Rightarrow> kv)"] h by (auto simp: example_view_def)
  have str: "fresh_object example_view f (FString s) (add_object (XString s) f)" if h: "made example_view f < 65536" for f s
    using fresh_number [of f "XString s"] h by (simp add: example_view_def)
  have new: "objs example_view (new_FlatBufferBuilder example_lib) = Map.empty" "cur example_view (new_FlatBufferBuilder example_lib) = None"
    "made example_view (new_FlatBufferBuilder example_lib) = 0"
    "same_field example_view (fst (StartTable example_lib f)) Map.empty f (snd (StartTable example_lib f))" for f
    by (auto simp: example_view_def example_lib_def same_field_def fun_eq_iff unat_eq_zero)
  show ?thesis unfolding flat_builder_def
    by (intro conjI allI impI new) (simp_all add: example_lib_def add fin str)
qed

lemma example_finished: "flat_finished example_lib example_view"
proof -
  have "reads_object example_lib b unat q x \<and> xRoot b = Inr (unat r)"
    if b: "b = GetBuffer example_lib (Finish example_lib r f) @ rest" and q: "objs example_view f q = Some x" for b r f q rest x
  proof -
    have g: "get_buffer b = Some (r, xdone f)" using get_put_buffer [of r "xdone f" rest] b by (simp add: example_lib_def)
    have o: "object_at b (unat q) = Some (xdone f ! (unat q - 1))" "x = object_of (xdone f ! (unat q - 1))"
      using q by (auto simp: example_view_def object_at_def g unat_gt_0 split: if_splits)
    show ?thesis using o g
      by (cases "xdone f ! (unat q - 1)")
        (auto simp: reads_object_def example_lib_def xString_def xU32_def xU8_def xPointer_def table_field_def xRoot_def)
  qed
  then show ?thesis unfolding flat_finished_def by (force simp: example_lib_def)
qed

lemma readable_iff: "readable r \<longleftrightarrow> (\<exists>x. r = Inr x)"
  by (cases r) (auto simp: readable_def)

lemma readable_default:
  "readable (xU32 b t vt d) \<longleftrightarrow> readable (xU32 b t vt 0)" "readable (xU8 b t vt d8) \<longleftrightarrow> readable (xU8 b t vt 0)"
  by (auto simp: readable_def xU32_def xU8_def andThen_def split: sum.splits option.splits ffield.splits)

lemma example_checks:
  "new_Verifier example_lib b n = take (unat n) b"
  "VerifyTableStart example_lib t b = Inr (readable (table_field b t 0), b)"
  "VerifyFieldU32 example_lib t vt b = Inr (readable (GetFieldU32 example_lib b t vt 0), b)"
  "VerifyFieldU8 example_lib t vt b = Inr (readable (GetFieldU8 example_lib b t vt 0), b)"
  "VerifyOffset example_lib t vt b = Inr (readable (GetPointer example_lib b t vt), b)"
  "VerifyString example_lib p b = Inr (case p of None \<Rightarrow> True | Some q \<Rightarrow> readable (string_str example_lib b q), b)"
  "Verifier_EndTable example_lib b = Inr (True, b)"
  "VerifyTable example_lib f p b = (case p of None \<Rightarrow> Inr (True, b) | Some t \<Rightarrow> f t b)"
  "VerifyBuffer example_lib f b = (case GetRoot example_lib b of Inl _ \<Rightarrow> Inr (False, b) | Inr t \<Rightarrow> f t b)"
  "readable (GetFieldU32 example_lib b t vt d) \<longleftrightarrow> readable (GetFieldU32 example_lib b t vt 0)"
  "readable (GetFieldU8 example_lib b t vt d8) \<longleftrightarrow> readable (GetFieldU8 example_lib b t vt 0)"
  using readable_default by (simp_all add: example_lib_def split: option.split)

lemma example_reader: "flat_reader example_lib (\<lambda>b. b) (\<lambda>b t. readable (table_field b t 0))"
proof -
  have d: "\<exists>x. GetFieldU32 example_lib b t vt d = Inr x" if "readable (GetFieldU32 example_lib b t vt 0)" for b t vt d
    using that example_checks(10) by (metis readable_iff)
  have d8: "\<exists>x. GetFieldU8 example_lib b t vt d = Inr x" if "readable (GetFieldU8 example_lib b t vt 0)" for b t vt d
    using that example_checks(11) by (metis readable_iff)
  have "flat_fields example_lib (\<lambda>b. b) (\<lambda>b t. readable (table_field b t 0))"
    unfolding flat_fields_def check_keeps_def example_checks(1-7) using d d8
    by (intro conjI allI impI) (simp_all add: readable_iff exI [of _ True])
  moreover have "flat_calls example_lib (\<lambda>b. b)"
    unfolding flat_calls_def example_checks by (intro conjI allI) (simp_all split: sum.split)
  ultimately show ?thesis by (simp add: flat_reader_def)
qed

lemma example_flat_of: "flat_ok (flat_of example_lib)"
proof -
  have "read_packet example_lib (write_packet example_lib x @ rest) = Inr \<lparr>body_type = type_of_body x, body = Some x\<rparr>" for x rest
    by (rule written_read [OF example_builder [of "case x of Chatting _ (Some m) \<Rightarrow> Suc (length m) | _ \<Rightarrow> 0"] example_finished])
      (simp add: body_fits_def split: PacketBody.splits option.splits)
  then show ?thesis by (simp add: flat_ok_def flat_of_def)
qed

lemma packet_roundtrip_witness:
  "read_packet example_lib (write_packet example_lib (Chatting 7 (Some [104, 105])) @ [1, 2, 3])
     = Inr \<lparr>body_type = 1, body = Some (Chatting 7 (Some [104, 105]))\<rparr>"
  using packet_roundtrip [OF example_builder [of 1024] example_finished, of "Chatting 7 (Some [104, 105])" "[1, 2, 3]"]
  by (simp add: body_fits_def)

definition example_register_packet :: bytes where
  "example_register_packet = write_packet example_lib (Register 5)"

lemma example_accepted: "VerifyPacketBuffer_at example_lib (take (unat (64 :: u32)) example_register_packet) (new_Verifier example_lib example_register_packet 64) = Inr (True, example_register_packet)"
  by code_simp


end
