(* ===== verification/Dubu_BotMode.thy ===== *)
theory Dubu_BotMode
  imports Dubu_EchoClient
begin

text \<open>
  The two programs of \<^verbatim>\<open>DUBUEchoClient/main.cpp\<close>: the load test \<^verbatim>\<open>RunBotMode\<close>, in which each of four threads connects
  its clients and then lets them take turns, and the interactive client. What the completion ports return, what is typed
  and when Ctrl-C is seen are arguments.
\<close>

section \<open>Connecting the clients of a thread\<close>

text \<open>The destructor of a client; \<open>cancelled\<close> are the buffers of the socket's operations that come back cancelled.\<close>

definition Client_destructor :: "ptr list \<Rightarrow> 'x Client_scheme \<Rightarrow> World \<Rightarrow> World result" where
  "Client_destructor cancelled s w = andThen (Client_Reset (s, w)) (\<lambda>(_, w1). Inr (drain_completions cancelled w1))"

text \<open>
  A turn of the loop that connects: whether Ctrl-C was seen before it, what the dispatches of \<^verbatim>\<open>ConnectTimes(5)\<close> returned,
  and what the destructor drains when the connection failed. No client is the current one of the thread yet.
\<close>

record ConnectTurn =
  stopped :: bool
  answers :: "(ptr \<times> int) option list"
  cancelled :: "ptr list"

fun connect_bots :: "Flat \<Rightarrow> SOCKADDR_IN \<Rightarrow> ConnectTurn list \<Rightarrow> EchoClient list \<times> u32 \<times> World \<Rightarrow> (EchoClient list \<times> u32 \<times> World) result" where
  "connect_bots fb server [] st = Inr st"
| "connect_bots fb server (t # ts) (clients, totalConnected, w) =
     (if stopped t then Inr (clients, totalConnected, w)
      else andThen (new_EchoClient server w) (\<lambda>cw.
        andThen (Client_ConnectTimes (echo_client_handlers fb False) (take 5 (answers t)) cw) (\<lambda>(c, w1).
          if \<not> isConnect c then andThen (Client_destructor (cancelled t) c w1) (\<lambda>w2. connect_bots fb server ts (clients, totalConnected, w2))
          else andThen (SendRegisterMessage fb (c, w1)) (\<lambda>(c1, w2). connect_bots fb server ts (clients @ [c1], totalConnected + 1, w2)))))"

section \<open>The turns of a thread\<close>

definition start_bots :: "u32 \<Rightarrow> u32 \<Rightarrow> EchoClient list \<Rightarrow> BotSlot list" where
  "start_bots now intervalMs clients =
     map (\<lambda>i. \<lparr>bot = clients ! i, lastSend = spread_start now intervalMs (length clients) i, sendNo = 0\<rparr>) [0..<length clients]"

fun bot_round :: "Flat \<Rightarrow> u32 \<Rightarrow> (ptr \<times> int) option list list \<Rightarrow> BotSlot list \<times> u64 \<times> World \<Rightarrow> (BotSlot list \<times> u64 \<times> World) result" where
  "bot_round fb intervalMs ports ([], totalSent, w) = Inr ([], totalSent, w)"
| "bot_round fb intervalMs ports (b # bs, totalSent, w) =
     andThen (bot_turn fb intervalMs (case ports of [] \<Rightarrow> [] | p # _ \<Rightarrow> p) (b, totalSent, w)) (\<lambda>(b1, sent1, w1).
       andThen (bot_round fb intervalMs (drop 1 ports) (bs, sent1, w1)) (\<lambda>(bs1, sent2, w2). Inr (b1 # bs1, sent2, w2)))"

text \<open>The rounds until Ctrl-C.\<close>

fun bot_rounds :: "Flat \<Rightarrow> u32 \<Rightarrow> (ptr \<times> int) option list list list \<Rightarrow> BotSlot list \<times> u64 \<times> World \<Rightarrow> (BotSlot list \<times> u64 \<times> World) result" where
  "bot_rounds fb intervalMs [] st = Inr st"
| "bot_rounds fb intervalMs (r # rs) st = andThen (bot_round fb intervalMs r st) (bot_rounds fb intervalMs rs)"

text \<open>A whole thread. It ends at once when no client could connect.\<close>

definition bot_thread :: "Flat \<Rightarrow> SOCKADDR_IN \<Rightarrow> u32 \<Rightarrow> ConnectTurn list \<Rightarrow> (ptr \<times> int) option list list list \<Rightarrow> u32 \<Rightarrow> u64 \<Rightarrow> World
    \<Rightarrow> (BotSlot list \<times> u32 \<times> u64 \<times> World) result" where
  "bot_thread fb server intervalMs turns rounds totalConnected totalSent w =
     andThen (connect_bots fb server turns ([], totalConnected, w)) (\<lambda>(clients, connected, w1).
       if clients = [] then Inr ([], connected, totalSent, w1)
       else let (now, w2) = GetRelativeTimeMs w1
            in andThen (bot_rounds fb intervalMs rounds (start_bots now intervalMs clients, totalSent, w2)) (\<lambda>(slots, sent, w3).
                 Inr (slots, connected, sent, w3)))"

text \<open>What the main thread does every ten seconds, and at the end.\<close>

definition report_bots :: "u32 \<Rightarrow> u64 \<Rightarrow> EchoClient list \<Rightarrow> (u32 \<times> u64 \<times> u64 \<times> u32) option \<times> u64 \<times> EchoClient list" where
  "report_bots readyThreads totalSent cs =
     (if readyThreads < 4 then (None, totalSent, cs) else (case bot_stats cs of (stats, cs1) \<Rightarrow> (Some stats, 0, cs1)))"

fun shutdown_bots :: "EchoClient list \<Rightarrow> World \<Rightarrow> (EchoClient list \<times> World) result" where
  "shutdown_bots [] w = Inr ([], w)"
| "shutdown_bots (c # cs) w =
     andThen (if isConnect c then Client_Disconnect (c, w) else Inr (c, w)) (\<lambda>(c1, w1).
       andThen (shutdown_bots cs w1) (\<lambda>(cs1, w2). Inr (c1 # cs1, w2)))"

section \<open>The interactive client\<close>

text \<open>The file is read in blocks of the largest payload and collected in one string.\<close>

fun read_blocks :: "nat \<Rightarrow> bytes \<Rightarrow> bytes" where
  "read_blocks step content = (if step = 0 \<or> content = [] then [] else take step content @ read_blocks step (drop step content))"

declare read_blocks.simps [simp del]

definition chunk_test :: "Flat \<Rightarrow> bytes option \<Rightarrow> echo_client_step" where
  "chunk_test fb content sw =
     (case content of
        None \<Rightarrow> Inr sw
      | Some content1 \<Rightarrow> let test = read_blocks (PACKET_MAX_SIZE - sizeof_PacketHeader) content1
          in if isConnect (fst sw) then SendDumpChatMessage fb test 0 sw else Inr sw)"

text \<open>The thread that receives, for as long as the client is connected.\<close>

fun receive_turns :: "Flat \<Rightarrow> (ptr \<times> int) option list \<Rightarrow> echo_client_step" where
  "receive_turns fb [] sw = Inr sw"
| "receive_turns fb (completion # rest) sw =
     (if \<not> isConnect (fst sw) then Inr sw
      else andThen (Client_Dispatch (echo_client_handlers fb False) completion sw) (\<lambda>(_, s, w). receive_turns fb rest (s, w)))"

text \<open>
  One turn of the loop over the input: what the other thread received while the line was typed, the line (or the end of
  the input) and whether Ctrl-C was seen after it.
\<close>

record InputTurn =
  arrived :: "(ptr \<times> int) option list"
  line :: "bytes option"
  ctrlC :: bool

fun input_loop :: "Flat \<Rightarrow> InputTurn list \<Rightarrow> echo_client_step" where
  "input_loop fb [] sw = Inr sw"
| "input_loop fb (t # ts) sw =
     (if \<not> isConnect (fst sw) then Inr sw
      else andThen (receive_turns fb (arrived t) sw) (\<lambda>sw1.
        case line t of
          None \<Rightarrow> Inr sw1
        | Some chat \<Rightarrow>
            andThen (if chat \<noteq> [] then SendChatMessage fb chat 2 sw1 else Inr sw1) (\<lambda>(s, w).
              if ctrlC t then (if isConnect s then Client_Disconnect (s, w) else Inr (s, w))
              else input_loop fb ts (s, w))))"

text \<open>
  The whole program. A client that does not connect is left as it is. Otherwise the main thread waits, after the last line, for the
  thread that receives (\<open>rest\<close> is what it still receives), and that thread destroys the client when its connection has ended.
\<close>

definition chat_client :: "Flat \<Rightarrow> SOCKADDR_IN \<Rightarrow> (ptr \<times> int) option list \<Rightarrow> bytes option \<Rightarrow> InputTurn list \<Rightarrow> (ptr \<times> int) option list
    \<Rightarrow> ptr list \<Rightarrow> World \<Rightarrow> World result" where
  "chat_client fb server replies content inputs rest closing w =
     andThen (new_EchoClient server w) (\<lambda>cw.
       andThen (Client_ConnectTimes (echo_client_handlers fb False) (take 5 replies) cw) (\<lambda>(c, w1).
         if \<not> isConnect c then Inr w1
         else andThen (SendRegisterMessage fb (c, w1)) (\<lambda>cw1.
                andThen (chunk_test fb content cw1) (\<lambda>cw2.
                  andThen (input_loop fb inputs cw2) (\<lambda>cw3.
                    andThen (receive_turns fb rest cw3) (\<lambda>(s, w2).
                      if isConnect s then Inl LoopBound else Client_destructor closing s w2))))))"

section \<open>Properties\<close>

lemma read_blocks_all: "0 < step \<Longrightarrow> read_blocks step content = content"
  by (induction content rule: length_induct) (subst read_blocks.simps; simp)

text \<open>Each client that connected is counted once, and stays in the list.\<close>

lemma connect_bots_count:
  assumes "connect_bots fb server ts (clients, tot, w) = Inr (clients', tot', w')"
  shows "\<exists>new. clients' = clients @ new \<and> tot' = tot + of_nat (length new) \<and> length new \<le> length ts"
  using assms
proof (induction ts arbitrary: clients tot w)
  case (Cons t ts)
  show ?case
  proof (cases "stopped t")
    case False
    then have "(\<exists>w1. connect_bots fb server ts (clients, tot, w1) = Inr (clients', tot', w'))
        \<or> (\<exists>c w1. connect_bots fb server ts (clients @ [c], tot + 1, w1) = Inr (clients', tot', w'))"
      using Cons.prems by (auto split: if_splits)
    then show ?thesis
    proof
      assume "\<exists>c w1. connect_bots fb server ts (clients @ [c], tot + 1, w1) = Inr (clients', tot', w')"
      then obtain c w1 where "connect_bots fb server ts (clients @ [c], tot + 1, w1) = Inr (clients', tot', w')" by blast
      from Cons.IH [OF this] obtain new where "clients' = (clients @ [c]) @ new" "tot' = tot + 1 + of_nat (length new)" "length new \<le> length ts"
        by blast
      then show ?thesis by (intro exI [of _ "c # new"]) simp
    qed (use Cons.IH in force)
  qed (use Cons.prems in simp)
qed simp

text \<open>The total of the messages sent moves with the numbers of the clients, and a client waits for the interval between two.\<close>

lemma bot_turn_cases:
  assumes "bot_turn fb iv cs (b, tot, w) = Inr (b', tot', w')"
  obtains "sendNo b' = sendNo b" "lastSend b' = lastSend b" "tot' = tot"
    | "sendNo b' = sendNo b + 1" "iv \<le> lastSend b' - lastSend b" "tot' = tot + 1"
proof (cases "isConnect (bot b)")
  case True
  then obtain s1 w1 where r: "andThen (drain_bot fb cs (bot b, w)) (\<lambda>x. Inr x) = Inr (s1, w1)"
    "(let (cur, w2) = GetRelativeTimeMs w1
      in if iv \<le> cur - lastSend b
         then andThen (SendBotMessage fb (sendNo b + 1) (s1, w2)) (\<lambda>(s2, w3). Inr (\<lparr>bot = s2, lastSend = cur, sendNo = sendNo b + 1\<rparr>, tot + 1, w3))
         else Inr (b\<lparr>bot := s1\<rparr>, tot, w2)) = Inr (b', tot', w')"
    using assms unfolding bot_turn_def by auto
  obtain cur w2 where g: "GetRelativeTimeMs w1 = (cur, w2)" by force
  show ?thesis
  proof (cases "iv \<le> cur - lastSend b")
    case True
    with r(2) g have "sendNo b' = sendNo b + 1" "lastSend b' = cur" "tot' = tot + 1" by auto
    then show ?thesis using that(2) True by simp
  next
    case False
    with r(2) g have "sendNo b' = sendNo b" "lastSend b' = lastSend b" "tot' = tot" by auto
    then show ?thesis by (rule that(1))
  qed
next
  case False
  then have "b' = b" "tot' = tot" using assms by (auto simp: bot_turn_def)
  then show ?thesis using that(1) by simp
qed

lemma bot_turn_sent:
  assumes "bot_turn fb iv cs (b, tot, w) = Inr (b', tot', w')"
  shows "(ucast tot' :: u32) - ucast tot = sendNo b' - sendNo b"
proof -
  have "uint (ucast (tot + 1) :: u32) = uint (ucast tot + 1 :: u32)"
    by (simp add: unsigned_ucast_eq uint_word_ariths take_bit_eq_mod mod_simps mod_mod_cancel)
  then have up: "(ucast (tot + 1) :: u32) = ucast tot + 1" by (simp only: word_uint_eq_iff)
  show ?thesis using assms by (cases rule: bot_turn_cases) (simp_all add: up)
qed

lemma diff_chain:
  fixes x y z p q r :: "'a::ab_group_add"
  assumes "x - y = p - q" "y - z = q - r"
  shows "x - z = p - r"
proof -
  have "x - z = (x - y) + (y - z)" "(p - q) + (q - r) = p - r" by simp_all
  then show ?thesis using assms by simp
qed

lemma bot_rounds_sent:
  assumes "bot_rounds fb iv rs (bs, tot, w) = Inr (bs', tot', w')"
  shows "length bs' = length bs \<and> (ucast tot' :: u32) - ucast tot = sum_list (map sendNo bs') - sum_list (map sendNo bs)"
proof -
  have round: "length bs' = length bs \<and> (ucast tot' :: u32) - ucast tot = sum_list (map sendNo bs') - sum_list (map sendNo bs)"
    if "bot_round fb iv ps (bs, tot, w) = Inr (bs', tot', w')" for ps bs tot w bs' tot' w'
    using that
  proof (induction bs arbitrary: ps tot w bs')
    case (Cons b bs)
    obtain b1 t1 w1 bs1 where r: "bot_turn fb iv (case ps of [] \<Rightarrow> [] | p # _ \<Rightarrow> p) (b, tot, w) = Inr (b1, t1, w1)"
      "bot_round fb iv (drop 1 ps) (bs, t1, w1) = Inr (bs1, tot', w')" "bs' = b1 # bs1"
      using Cons.prems by auto
    have "(ucast t1 :: u32) - ucast tot = (sendNo b1 + sum_list (map sendNo bs)) - (sendNo b + sum_list (map sendNo bs))"
      using bot_turn_sent [OF r(1)] by simp
    moreover have "(ucast tot' :: u32) - ucast t1 = (sendNo b1 + sum_list (map sendNo bs1)) - (sendNo b1 + sum_list (map sendNo bs))" "length bs1 = length bs"
      using Cons.IH [OF r(2)] by simp_all
    ultimately have "(ucast tot' :: u32) - ucast tot = (sendNo b1 + sum_list (map sendNo bs1)) - (sendNo b + sum_list (map sendNo bs))"
      "length bs1 = length bs" using diff_chain by blast+
    then show ?case using r(3) by simp
  qed simp
  show ?thesis using assms
  proof (induction rs arbitrary: bs tot w)
    case (Cons r rs)
    obtain bs1 t1 w1 where r: "bot_round fb iv r (bs, tot, w) = Inr (bs1, t1, w1)" "bot_rounds fb iv rs (bs1, t1, w1) = Inr (bs', tot', w')"
      using Cons.prems by auto
    from round [OF r(1)] Cons.IH [OF r(2)] have
      "(ucast tot' :: u32) - ucast t1 = sum_list (map sendNo bs') - sum_list (map sendNo bs1)"
      "(ucast t1 :: u32) - ucast tot = sum_list (map sendNo bs1) - sum_list (map sendNo bs)" "length bs' = length bs" by simp_all
    from diff_chain [OF this(1,2)] this(3) show ?case by simp
  qed simp
qed

text \<open>A thread counts its clients and their messages.\<close>

lemma bot_thread_counts:
  assumes "bot_thread fb server iv turns rounds connected sent w = Inr (slots, connected', sent', w')"
  shows "connected' = connected + of_nat (length slots)" "(ucast sent' :: u32) = ucast sent + sum_list (map sendNo slots)"
proof -
  obtain clients w1 where c: "connect_bots fb server turns ([], connected, w) = Inr (clients, connected', w1)"
    and r: "clients = [] \<and> slots = [] \<and> sent' = sent \<or> bot_rounds fb iv rounds (start_bots (fst (GetRelativeTimeMs w1)) iv clients, sent, snd (GetRelativeTimeMs w1)) = Inr (slots, sent', w')"
    using assms by (auto simp: bot_thread_def Let_def split: if_splits prod.splits)
  have n: "connected' = connected + of_nat (length clients)" using connect_bots_count [OF c] by auto
  have z: "sum_list (map sendNo (start_bots now iv clients)) = 0" for now by (simp add: start_bots_def comp_def sum_list_0)
  have s: "length (start_bots now iv clients) = length clients" for now by (simp add: start_bots_def)
  from r have "length slots = length clients \<and> (ucast sent' :: u32) = ucast sent + sum_list (map sendNo slots)"
  proof
    assume "bot_rounds fb iv rounds (start_bots (fst (GetRelativeTimeMs w1)) iv clients, sent, snd (GetRelativeTimeMs w1)) = Inr (slots, sent', w')"
    from bot_rounds_sent [OF this] show ?thesis by (simp add: z s algebra_simps)
  qed simp
  then show "connected' = connected + of_nat (length slots)" "(ucast sent' :: u32) = ucast sent + sum_list (map sendNo slots)" using n by simp_all
qed

text \<open>The first messages are spread evenly: client \<open>i\<close> of \<open>n\<close> waits the share \<open>i / n\<close> of the interval less than the first.\<close>

lemma spread_start_even:
  assumes "i < n" "n < 2 ^ 32"
  shows "unat (now - spread_start now iv n i) = unat iv * i div n" "now - spread_start now iv n i < iv \<or> iv = 0"
proof -
  have iv: "unat iv < 2 ^ 32" using unsigned_less [of iv] by simp
  have "unat iv * i \<le> (2 ^ 32 - 1) * (2 ^ 32 - 1)" using iv assms by (intro mult_mono) auto
  then have b: "unat iv * i < 2 ^ 64" by simp
  have u: "unat (ucast iv :: u64) = unat iv" using iv by (simp add: unsigned_ucast_eq take_bit_nat_eq_self)
  have p: "unat (ucast iv * of_nat i :: u64) = unat iv * i"
    using b assms u by (simp add: unat_mult_lem [THEN iffD1] unat_of_nat)
  have q: "unat ((ucast iv * of_nat i :: u64) div of_nat n) = unat iv * i div n" using p assms by (simp add: unat_div unat_of_nat)
  have le: "unat iv * i div n \<le> unat iv" using assms(1) by (metis div_le_mono div_mult_self_is_m less_imp_le_nat mult_le_mono2 gr_implies_not0 neq0_conv)
  show 1: "unat (now - spread_start now iv n i) = unat iv * i div n" using q le iv by (simp add: spread_start_def unsigned_ucast_eq take_bit_nat_eq_self)
  show "now - spread_start now iv n i < iv \<or> iv = 0"
  proof (cases "iv = 0")
    case False
    then have "unat iv * i < unat iv * n" using assms(1) by (simp add: unat_gt_0)
    then have "unat iv * i div n < unat iv" using assms(1) by (simp add: div_less_iff_less_mult)
    then show ?thesis using 1 by (simp add: word_less_nat_alt)
  qed simp
qed

text \<open>A reset of the windows leaves the state of the connection alone.\<close>

interpretation connectCarried: endpoint_invariant isConnect "\<lambda>x c. x = x0" for x0
  by unfold_locales simp_all

text \<open>After the shutdown no client is connected.\<close>

lemma shutdown_bots_closed: "shutdown_bots cs w = Inr (cs', w') \<Longrightarrow> length cs' = length cs \<and> (\<forall>c \<in> set cs'. \<not> isConnect c)"
proof (induction cs arbitrary: w cs')
  case (Cons c cs)
  obtain c1 w1 cs1 where r: "(if isConnect c then Client_Disconnect (c, w) else Inr (c, w)) = Inr (c1, w1)"
    "shutdown_bots cs w1 = Inr (cs1, w')" "cs' = c1 # cs1" using Cons.prems by auto
  have "\<not> isConnect c1" using r(1) by (auto simp: Client_Disconnect_def Client_Reset_def dest: connectCarried.reset_states_view split: if_splits)
  then show ?case using Cons.IH [OF r(2)] r(3) by simp
qed simp

end
