(* ===== verification/Dubu_UnitTests.thy ===== *)
theory Dubu_UnitTests
  imports Dubu_Session Dubu_Pool
begin

text \<open>
  Tests of the repository, \<^verbatim>\<open>DUBUTest\<close>, run on the model. Those of the receive path in \<^verbatim>\<open>unit1.cpp\<close>: the fixture
  \<^verbatim>\<open>RecvDispatchTest\<close> with its handler, its packets and its counters, and each test as a value the kernel evaluates. Those of
  the pools with one thread are shown for every state of the pool. Not run here are the random stress test, the reordering across the
  end of the number range, which takes the kernel too long, and the tests with several threads; the theorems on ordered delivery, on the
  ring, on the lock and on the pool say more than these.
\<close>

section \<open>The fixture\<close>

text \<open>The list of parsed numbers, \<^verbatim>\<open>g_parsed\<close>, is carried by the session.\<close>

type_synonym TestSession = "u32 list Session_scheme"

abbreviation (input) TEST_CODE :: u8 where "TEST_CODE \<equiv> 10"

definition g_parsed :: "TestSession \<Rightarrow> u32 list" where
  "g_parsed s = Session.more s"

definition MakeTestHandlers :: "u32 list Session_ext handlers" where
  "MakeTestHandlers = Some [TEST_CODE \<mapsto> \<lparr>verifier = Some (\<lambda>_ _. True),
     handler = Some (\<lambda>buffer sz (s, w). Inr (Session.more_update (\<lambda>ps. ps @ [hSequenceNo (get_header buffer)]) s, w)),
     handler2 = None\<rparr>]"

definition ChannelFlags :: "u8 \<Rightarrow> u8" where
  "ChannelFlags c = (if 0 < c then flag_value REPEAT OR flag_value CHANNEL OR push_bit 3 c else flag_value REPEAT)"

definition MakePacket :: "u32 \<Rightarrow> u8 \<Rightarrow> bytes" where
  "MakePacket seq flg =
     (let buf = replicate 28 0;
          h = (get_header buf)\<lparr>totalSize := 28, packetCode := TEST_CODE, flags := flg, hSequenceNo := seq, hSessionId := 10\<rparr>
      in memcpy_at sizeof_PacketHeader (le32 seq) (set_header h buf))"

definition SetUp :: "TestSession \<times> World" where
  "SetUp = (Session.extend (Session.truncate (new_Session default_config)) [], new_World default_config (\<lambda>_. 0) (\<lambda>_. None))"

definition Feed :: "u32 \<Rightarrow> u8 \<Rightarrow> TestSession \<times> World \<Rightarrow> (bool \<times> TestSession \<times> World) result" where
  "Feed seq flg sw = (case sw of (s, w) \<Rightarrow> let p = MakePacket seq flg in Session_RecvDispatch MakeTestHandlers p (of_nat (length p)) s w)"

definition UsedBuffers :: "World \<Rightarrow> nat" where
  "UsedBuffers w = card (cm_useList (cacheManager w))"

text \<open>A test feeds packets and states, in between, what it expects: the result of \<^verbatim>\<open>Feed\<close>, \<^verbatim>\<open>g_parsed\<close> and \<^verbatim>\<open>UsedBuffers\<close>.\<close>

datatype test_event = Fed u32 | FedExpect u32 bool | ExpectParsed "u32 list" | ExpectUsed nat

fun passes :: "u8 \<Rightarrow> test_event list \<Rightarrow> TestSession \<times> World \<Rightarrow> bool" where
  "passes flg [] sw \<longleftrightarrow> True"
| "passes flg (e # es) sw \<longleftrightarrow>
     (case e of
        Fed q \<Rightarrow> (case Feed q flg sw of Inl _ \<Rightarrow> False | Inr (_, sw1) \<Rightarrow> passes flg es sw1)
      | FedExpect q r \<Rightarrow> (case Feed q flg sw of Inl _ \<Rightarrow> False | Inr (r1, sw1) \<Rightarrow> r1 = r \<and> passes flg es sw1)
      | ExpectParsed qs \<Rightarrow> g_parsed (fst sw) = qs \<and> passes flg es sw
      | ExpectUsed n \<Rightarrow> UsedBuffers (snd sw) = n \<and> passes flg es sw)"

definition received_unreliable :: "u32 \<Rightarrow> TestSession \<times> World \<Rightarrow> TestSession \<times> World" where
  "received_unreliable q sw = (case sw of (s, w) \<Rightarrow> (s\<lparr>rNopsNo := (rNopsNo s)\<lparr>recvRepeatSeq := q\<rparr>\<rparr>, w))"

definition received_unordered :: "u32 \<Rightarrow> TestSession \<times> World \<Rightarrow> TestSession \<times> World" where
  "received_unordered q sw = (case sw of (s, w) \<Rightarrow> (s\<lparr>rpsNo := (rpsNo s)\<lparr>recvRepeatSeq := q, lastRepeatSeq := q\<rparr>\<rparr>, w))"

definition received_ordered :: "u32 \<Rightarrow> TestSession \<times> World \<Rightarrow> TestSession \<times> World" where
  "received_ordered q sw =
     (case sw of (s, w) \<Rightarrow> (upd_channel 1 (upd_state (\<lambda>rps. rps\<lparr>recvRepeatSeq := q, lastRepeatSeq := q\<rparr>)) s, w))"

text \<open>The index of a slot is computed on integers, as large numbers are slow in unary.\<close>

lemma slot_code [code]: "slot s = nat (uint s mod 64)"
  by (simp add: slot_def nat_mod_distrib)

section \<open>The tests\<close>

definition NoRepeat_NewestOnly :: bool where
  "NoRepeat_NewestOnly = passes (flag_value NONE) [Fed 1, Fed 3, Fed 2, Fed 3, Fed 100, ExpectParsed [1, 3, 100], ExpectUsed 0] SetUp"

definition NoRepeat_Wrap :: bool where
  "NoRepeat_Wrap = passes (flag_value NONE) [Fed (- 1), Fed 0, Fed (- 1), Fed 5, ExpectParsed [- 1, 0, 5]] (received_unreliable (- 2) SetUp)"

definition Channel_Ord :: bool where
  "Channel_Ord = passes (ChannelFlags 1) [Fed 1, Fed 2, Fed 3, ExpectParsed [1, 2, 3]] SetUp"

definition Channel_Duplicate :: bool where
  "Channel_Duplicate = passes (ChannelFlags 1) [Fed 1, Fed 2, FedExpect 2 True, FedExpect 2 True, ExpectParsed [1, 2]] SetUp"

definition Channel_Reorder :: bool where
  "Channel_Reorder = passes (ChannelFlags 1) [Fed 1, Fed 3, ExpectParsed [1], Fed 2, ExpectParsed [1, 2, 3]] SetUp"

definition Channel_CachedRetransmit_NoLeak :: bool where
  "Channel_CachedRetransmit_NoLeak = passes (ChannelFlags 1) [Fed 1, Fed 3, Fed 3, Fed 3, ExpectUsed 1, Fed 2, ExpectUsed 0, ExpectParsed [1, 2, 3]] SetUp"

definition Channel_TwoGaps :: bool where
  "Channel_TwoGaps = passes (ChannelFlags 1) [Fed 1, Fed 4, Fed 2, ExpectParsed [1, 2], Fed 3, ExpectParsed [1, 2, 3, 4]] SetUp"

definition Repeat_NoOrd :: bool where
  "Repeat_NoOrd = passes (ChannelFlags 0) [Fed 1, Fed 4, ExpectParsed [1, 4], Fed 3, ExpectParsed [1, 4, 3], Fed 2, ExpectParsed [1, 4, 3, 2]] SetUp"

definition Repeat_Skip :: bool where
  "Repeat_Skip = passes (ChannelFlags 0) [Fed 1, Fed 3, Fed 3, Fed 2, Fed 3, Fed 2, ExpectParsed [1, 3, 2]] SetUp"

definition WindowExceeded_ReturnsFalse :: bool where
  "WindowExceeded_ReturnsFalse = passes (ChannelFlags 1) [FedExpect 1 True, FedExpect 100 False, ExpectParsed [1]] SetUp"

definition Wrap_Channel_InOrder :: bool where
  "Wrap_Channel_InOrder = passes (ChannelFlags 1) [Fed (- 2), Fed (- 1), Fed 0, Fed 1, ExpectParsed [- 2, - 1, 0, 1]] (received_ordered (- 3) SetUp)"

definition Wrap_Channel_OldDuplicateAcrossBoundary :: bool where
  "Wrap_Channel_OldDuplicateAcrossBoundary = passes (ChannelFlags 1) [FedExpect (- 1) True, FedExpect 0 True, ExpectParsed []] (received_ordered 1 SetUp)"

definition Wrap_NoOrder :: bool where
  "Wrap_NoOrder = passes (flag_value REPEAT) [Fed (- 2), Fed 0, Fed 0, Fed (- 1), Fed 1, ExpectParsed [- 2, 0, - 1, 1]] (received_unordered (- 3) SetUp)"

text \<open>The model passes them.\<close>

lemma NoRepeat_NewestOnly_passes: NoRepeat_NewestOnly
  by code_simp

lemma NoRepeat_Wrap_passes: NoRepeat_Wrap
  by code_simp

lemma Channel_Ord_passes: Channel_Ord
  by code_simp

lemma Channel_Duplicate_passes: Channel_Duplicate
  by code_simp

lemma Channel_Reorder_passes: Channel_Reorder
  by code_simp

lemma Channel_CachedRetransmit_NoLeak_passes: Channel_CachedRetransmit_NoLeak
  by code_simp

lemma Channel_TwoGaps_passes: Channel_TwoGaps
  by code_simp

lemma Repeat_NoOrd_passes: Repeat_NoOrd
  by code_simp

lemma Repeat_Skip_passes: Repeat_Skip
  by code_simp

lemma WindowExceeded_ReturnsFalse_passes: WindowExceeded_ReturnsFalse
  by code_simp

lemma Wrap_Channel_InOrder_passes: Wrap_Channel_InOrder
  by code_simp

lemma Wrap_Channel_OldDuplicateAcrossBoundary_passes: Wrap_Channel_OldDuplicateAcrossBoundary
  by code_simp

lemma Wrap_NoOrder_passes: Wrap_NoOrder
  by code_simp

section \<open>The pools\<close>

text \<open>\<^verbatim>\<open>BufferPoolTest\<close>: a returned buffer whose size was changed comes out again with the full size.\<close>

definition PopResetsSizeAndPos :: "World \<Rightarrow> bool" where
  "PopResetsSizeAndPos w =
     (let (opb, w1) = PopPacketBuffer w;
          w2 = w1\<lparr>packets := (packets w1)(opb := (packets w1 opb)\<lparr>osize := 24\<rparr>)\<rparr>;
          (reused, w3) = PopPacketBuffer (PushPacketBuffer opb w2)
      in osize (packets w1 opb) = 1024 \<and> reused = opb \<and> osize (packets w3 reused) = 1024)"

definition UseListTracksOwnership :: "World \<Rightarrow> bool" where
  "UseListTracksOwnership w =
     (let (opb, w1) = PopPacketBuffer w
      in opb \<in> pm_useList (packetManager w1) \<and> opb \<notin> pm_useList (packetManager (PushPacketBuffer opb w1)))"

text \<open>\<^verbatim>\<open>ObjectPoolTest\<close>.\<close>

definition ReusesSamePointer :: "ObjectPool \<Rightarrow> bool" where
  "ReusesSamePointer op =
     (let (first, op1) = ObjectPool_Pop op; (second, _) = ObjectPool_Pop (ObjectPool_Push first op1) in first = second)"

text \<open>\<^verbatim>\<open>PoolTest\<close>: an object of \<open>sz2\<close> bytes gets the chunk that was used for \<open>sz1\<close> bytes just before.\<close>

definition pop_push_pop :: "nat \<Rightarrow> nat \<Rightarrow> nat \<Rightarrow> Pool \<Rightarrow> bool" where
  "pop_push_pop base sz1 sz2 pl =
     (case Pool_Pop base sz1 pl of
        Inl _ \<Rightarrow> False
      | Inr (p, pl1) \<Rightarrow>
          (case Pool_Push sz1 p pl1 of
             Inl _ \<Rightarrow> False
           | Inr pl2 \<Rightarrow> (case Pool_Pop base sz2 pl2 of Inl _ \<Rightarrow> False | Inr (q, _) \<Rightarrow> q = p)))"

definition PopPushReusesSameChunk :: "nat \<Rightarrow> Pool \<Rightarrow> bool" where
  "PopPushReusesSameChunk base pl = pop_push_pop base 9 9 pl"

definition SameSizeClassSharesChunk :: "nat \<Rightarrow> Pool \<Rightarrow> bool" where
  "SameSizeClassSharesChunk base pl = pop_push_pop base 9 13 pl"

lemma PopResetsSizeAndPos_passes: "PopResetsSizeAndPos w"
  by (auto simp: PopResetsSizeAndPos_def PopPacketBuffer_def PushPacketBuffer_def new_packet_buffer_def Let_def split: prod.splits)

lemma UseListTracksOwnership_passes: "UseListTracksOwnership w"
  by (auto simp: UseListTracksOwnership_def PopPacketBuffer_def PushPacketBuffer_def Let_def split: prod.splits)

lemma ReusesSamePointer_passes: "ReusesSamePointer op"
  by (auto simp: ReusesSamePointer_def ObjectPool_Pop_def ObjectPool_Push_def split: prod.splits)

lemma FindBlock_blocks: "map block_ptr bs = map block_ptr bs' \<Longrightarrow> FindBlock p bs = FindBlock p bs'"
proof (induction bs arbitrary: bs')
  case (Cons b bs)
  then obtain b' bs1 where "bs' = b' # bs1" "block_ptr b = block_ptr b'" "map block_ptr bs = map block_ptr bs1" by (cases bs') auto
  then show ?case using Cons.IH by (simp add: in_block_def)
qed simp

lemma count_use_again:
  assumes "count_use d p pl = Inr pl1"
  shows "PoolChunkList pl1 = PoolChunkList pl" "\<exists>pl2. count_use e p (pl1\<lparr>PoolChunkList := f\<rparr>) = Inr pl2 \<and> PoolChunkList pl2 = f"
proof -
  obtain i where i: "FindBlock p (PoolList pl) = Inr i"
    "pl1 = pl\<lparr>PoolList := (PoolList pl)[i := (PoolList pl ! i)\<lparr>useCnt := useCnt (PoolList pl ! i) + d\<rparr>]\<rparr>"
    using assms by (auto simp: count_use_def)
  show "PoolChunkList pl1 = PoolChunkList pl" using i(2) by simp
  have "map block_ptr (PoolList pl1) = map block_ptr (PoolList pl)"
    using i(2) by (intro nth_equalityI; cases "i < length (PoolList pl)") (auto simp: nth_list_update)
  then have "FindBlock p (PoolList pl1) = Inr i" using FindBlock_blocks i(1) by metis
  then show "\<exists>pl2. count_use e p (pl1\<lparr>PoolChunkList := f\<rparr>) = Inr pl2 \<and> PoolChunkList pl2 = f" by (simp add: count_use_def)
qed

lemma pop_push_pop_reuses:
  assumes "Pool_Pop base sz1 pl = Inr r" "bit_ceil sz1 = bit_ceil sz2"
  shows "pop_push_pop base sz1 sz2 pl"
proof -
  let ?len = "bit_ceil sz1"
  obtain p pl1 where r: "r = (p, pl1)" by force
  obtain pl0 where c: "count_use 1 p pl0 = Inr pl1" using assms(1) r by (auto simp: Pool_Pop_def Let_def split: if_splits)
  let ?f = "(PoolChunkList pl1)(?len := PoolChunkList pl1 ?len @ [p])"
  obtain pl2 where 2: "Pool_Push sz1 p pl1 = Inr pl2" "PoolChunkList pl2 = ?f"
    using count_use_again(2) [OF c, of "- 1" ?f] by (auto simp: Pool_Push_def Let_def)
  have "count_use (- 1) p (pl1\<lparr>PoolChunkList := ?f\<rparr>) = Inr pl2" using 2(1) by (simp add: Pool_Push_def Let_def)
  from count_use_again(2) [OF this, of 1 "?f(?len := butlast (?f ?len))"]
  obtain pl3 where 3: "count_use 1 p (pl2\<lparr>PoolChunkList := ?f(?len := butlast (?f ?len))\<rparr>) = Inr pl3" by blast
  have "Pool_Pop base sz2 pl2 = Inr (p, pl3)" using 3 2(2) assms(2) by (simp add: Pool_Pop_def Let_def)
  then show ?thesis using assms(1) r 2(1) by (simp add: pop_push_pop_def)
qed

lemma PoolTest_passes:
  assumes "Pool_Pop base 9 pl = Inr r"
  shows "PopPushReusesSameChunk base pl" "SameSizeClassSharesChunk base pl"
proof -
  have "bit_ceil 9 = bit_ceil 13" by code_simp
  then show "PopPushReusesSameChunk base pl" "SameSizeClassSharesChunk base pl"
    unfolding PopPushReusesSameChunk_def SameSizeClassSharesChunk_def by (simp_all only: pop_push_pop_reuses [OF assms])
qed

end
