(* ===== verification/Spec2Isabelle.thy ===== *)
theory Spec2Isabelle
  imports Dubu_Reliability Dubu_Client Dubu_InternalClient Dubu_Threads Dubu_RWLock Dubu_RingBuffer Dubu_Pool Dubu_Retransmit Dubu_EchoServer Dubu_Gateway Dubu_EchoClient Dubu_EndToEnd Dubu_Flat Dubu_BotMode Dubu_UnitTests
begin

text \<open>
  Verification library of the DUBU framework, a reliable-UDP server framework in C++
  (\<^verbatim>\<open>src/DUBUFrameWork\<close>) with an echo server, an echo client and a gateway built on it.

  \<^bold>\<open>The program.\<close> A \<^verbatim>\<open>RUDPSocket\<close> posts overlapped sends and receives on
  buffers of the \<^verbatim>\<open>PacketManager\<close> and checks the CRC32 of what arrives. On the server, the receive
  threads call \<^verbatim>\<open>Server::Dispatch\<close>, which routes each datagram to the queue of the
  \<^verbatim>\<open>SessionWorker\<close> that owns its session id; the worker's \<^verbatim>\<open>Process\<close> drains the queue, creates a
  \<^verbatim>\<open>Session\<close> for a connection request, follows a session whose peer has a new address, and
  checks its sessions for time-outs, pings and retransmissions. A \<^verbatim>\<open>Client\<close> (or the gateway's
  \<^verbatim>\<open>InternalClient\<close>) is the other end of the connection. Both ends keep, per channel, a window of
  64 packets: \<^verbatim>\<open>ReliablePacketState\<close> holds the sent packets not yet acknowledged, the ring of
  \<^verbatim>\<open>CachePacket\<close> slots the packets that arrived early, and \<^verbatim>\<open>ChunkPacketInj\<close> the chunks of
  messages too long for one datagram.

  \<^bold>\<open>The model.\<close> C++ integers are words of their width, objects are records, and the shared buffers
  are an explicit store inside the \<open>World\<close>, which also has the pools, the clock, the history of
  datagrams put on the wire, the operations in flight and the failures the operating system will report.
  An operation is a function from state and world to state and world. Where the C++ would leave defined
  behaviour (an index out of range, an overlong copy, an empty \<^verbatim>\<open>std::function\<close>, a failed
  \<^verbatim>\<open>assert\<close>), it returns \<open>Inl\<close> of a \<open>fault\<close>.

  \<^item> \<open>Dubu_Prelude\<close>: integer types, faults and their sequencing, lemmas on 32-bit windows.
  \<^item> \<open>Dubu_Packet\<close>: \<^verbatim>\<open>Packet.h/.cpp\<close>, \<^verbatim>\<open>Subheader.h\<close>: header bytes, flags, options, CRC32.
    Header round trip; the optimised CRC32 equals the bytewise one and detects a changed byte.
  \<^item> \<open>Dubu_Config\<close>: \<^verbatim>\<open>Config.cpp\<close>. The parsed JSON document is a parameter.
  \<^item> \<open>Dubu_Buffers\<close>: \<^verbatim>\<open>BufferManager\<close>, \<^verbatim>\<open>OverlappedObj\<close>, \<^verbatim>\<open>ObjectPool\<close>, big blocks of
    \<^verbatim>\<open>Pool\<close>. The locale \<open>buffer_pool\<close> is the contract of both managers and is interpreted on them.
  \<^item> \<open>Dubu_Reliable\<close>: \<^verbatim>\<open>PacketStateBase\<close>, \<^verbatim>\<open>ReliablePacketState\<close>. Sending and acknowledging refine
    insertion into and removal from a finite map of unacknowledged packets.
  \<^item> \<open>Dubu_Chunk\<close>: \<^verbatim>\<open>ChunkPacket\<close>. Chunks may arrive in any order.
  \<^item> \<open>Dubu_Socket\<close>: \<^verbatim>\<open>RUDPSocket\<close>, with buffer ownership and the fate of corrupted datagrams.
  \<^item> \<open>Dubu_Receive\<close>, \<open>Dubu_Send\<close>: the receive and send paths that \<^verbatim>\<open>Session.cpp\<close>, \<^verbatim>\<open>Client.cpp\<close> and
    \<^verbatim>\<open>InternalClient.cpp\<close> have in common, over the members they share (record \<open>Endpoint\<close>); what
    differs between the three is an argument.
  \<^item> \<open>Dubu_Session\<close>, \<open>Dubu_Client\<close>, \<open>Dubu_InternalClient\<close>: the three ends, extending that record.
  \<^item> \<open>Dubu_Server\<close>: \<^verbatim>\<open>SessionManager\<close>, \<^verbatim>\<open>Server\<close>, \<^verbatim>\<open>SessionWorker\<close>.
  \<^item> \<open>Dubu_Channel\<close>, \<open>Dubu_Delivery\<close>, \<open>Dubu_Frame\<close>, \<open>Dubu_Reliability\<close>: what a session delivers. The locale
    \<open>receiver\<close> states what the receive path needs of the packet handler; it is interpreted on the session,
    and its lemmas give in-order exactly-once delivery in every state of the step relation \<open>session_run\<close>.
  \<^item> \<open>Dubu_Wire\<close>: what a sent packet looks like on the wire, and what the receiving socket makes of it.
  \<^item> \<open>Dubu_ChunkTransfer\<close>: a message too long for one datagram, from \<^verbatim>\<open>SendPacketChunk\<close> to the parser of the receiver.
  \<^item> \<open>Dubu_EndToEnd\<close>: a client and the session it talks to. The step relation \<open>client_run\<close> has all that a client does
    (sending, acknowledgements, retransmissions, and what leaves its windows alone); the invariant \<open>outbox_ok\<close> ties its window and the datagrams it
    emitted to the messages it was asked to send, and with the receiving side gives the end-to-end theorem.
  \<^item> \<open>Dubu_Reset\<close>: \<^verbatim>\<open>Reset\<close> returns every buffer.
  \<^item> \<open>Dubu_Retransmit\<close>: which packets \<^verbatim>\<open>RepeatMessage\<close> sends again, and with which bytes.
  \<^item> \<open>Dubu_Invariant\<close>: the locales \<open>endpoint_invariant\<close> and \<open>session_invariant\<close>, for invariants of a part of a
    connection end that the framework does not write. They are interpreted on the identity of a session, on its
    socket, and on the state of the applications that the ends carry.
  \<^item> \<open>Dubu_Identity\<close>, \<open>Dubu_Directory\<close>, \<open>Dubu_Service\<close>: the server's directory invariant over the step
    relation \<open>server_run\<close>, and what follows for connecting, routing, checking and removing sessions.
  \<^item> \<open>Dubu_Threads\<close>: \<^verbatim>\<open>ThreadManager\<close>, \<^verbatim>\<open>Server::Run\<close> and the destructor of the server: the division of the
    threads, the end of the loops after \<^verbatim>\<open>Stop\<close>.
  \<^item> \<open>Dubu_RWLock\<close>, \<open>Dubu_RingBuffer\<close>: \<^verbatim>\<open>RWLock\<close> and \<^verbatim>\<open>RingBuffer\<close>, one access to shared memory at a time, as step
    relations over any number of threads: exclusion, refinement of an abstract lock and of a queue, absence of data
    races, progress of a thread that runs alone.
  \<^item> \<open>Dubu_Pool\<close>: the size-class pool of \<^verbatim>\<open>Pool\<close>: chunks in use do not overlap.
  \<^item> \<open>Dubu_Apps\<close>, \<open>Dubu_EchoServer\<close>, \<open>Dubu_Gateway\<close>, \<open>Dubu_EchoClient\<close>: the applications in
    \<^verbatim>\<open>src/DUBUEchoServer\<close>, \<^verbatim>\<open>src/GateWay\<close> and \<^verbatim>\<open>src/DUBUEchoClient\<close>. A handler runs inside the end that received
    the packet and may use the whole server; the end's record carries the rest of the program state. The handlers
    satisfy the contract of the receive path, so that its guarantees hold for the applications; the connection list
    never names a dead session, a chat message goes to every registered client, and the gateway passes messages on
    unchanged in both directions.
  \<^item> \<open>Dubu_BotMode\<close>: the two programs of \<^verbatim>\<open>DUBUEchoClient/main.cpp\<close>, the load test and the interactive client.
  \<^item> \<open>Dubu_Flat\<close>: the code flatc generated for the packets (\<^verbatim>\<open>extra/dubu_echo_packet_generated.h\<close>) over the FlatBuffers
    library as the record \<open>FlatLib\<close>, whose promises are the hypotheses \<open>flat_reader\<close>, \<open>flat_builder\<close> and
    \<open>flat_finished\<close>; a small library that keeps them shows that they can hold. What the verifier accepts can be read, and
    what the builders write is read back, which is the law \<open>flat_ok\<close> that the applications rest on.
  \<^item> \<open>Dubu_UnitTests\<close>: the repository's own tests of the receive path and of the pools (\<^verbatim>\<open>src/DUBUTest\<close>), run on the
    model.

  \<^bold>\<open>Bounds and inputs.\<close> The loop that hands on cached packets in order runs at most 64 turns, the number of
  slots, and is proved never to need more; faults of kind \<open>LoopBound\<close> mark loops that would not end. The random
  draws of \<^verbatim>\<open>GenerateId\<close> are a list: the operation is defined while the list lasts. The clock is a stream
  of readings. Handlers registered by applications are functions on the state, with what is relied on as
  hypotheses (\<open>good_handlers\<close>, \<open>id_handlers\<close>).

  \<^bold>\<open>Not modelled.\<close> Winsock and the completion port beyond the history of operations; printing, logging, crash
  dumps and the start-up of Winsock; the inside of the FlatBuffers library; \<^verbatim>\<open>extra/base_flatbuffer_generated.h\<close>, which is
  included and never called, and the vector and size-prefixed variants in the other generated file, which nothing calls; the
  start of threads in the \<^verbatim>\<open>main\<close> functions; the tests with several threads. Operations that the code runs under a lock are one
  step here; that the locks exclude each other is shown of the lock itself.
\<close>

end
